(* ===== verification/Prelude.thy ===== *)
theory Prelude
  imports Main "HOL-Library.Word" "HOL-Library.Signed_Division"
begin

text \<open>
  Shared vocabulary of the development: the ways a C++ operation of the program can fail to
  return (\<open>fault\<close>), results that carry such a fault (\<open>'a res\<close>, with \<open>bindR\<close> for sequencing),
  \<open>size_t\<close> arithmetic with its wrap-around, checked signed 64-bit arithmetic, the contents of a
  \<open>std::vector<char>\<close>, and the generic lemmas on them that the component theories use.

  The build (\<open>CMakeLists.txt\<close>) never defines \<open>NDEBUG\<close>, so every \<open>assert\<close> of the sources is
  live: a failing one is the fault \<open>AssertFailed\<close>.
\<close>

section \<open>Results and faults\<close>

datatype fault =
    AssertFailed string
  | Aborted string
  | Undefined string
  | LengthError

type_synonym 'a res = "fault + 'a"

named_theorems res_simps \<open>evaluation of the result combinators\<close>
named_theorems reg_defs \<open>definitions of the components' state predicates\<close>

fun bindR :: "'a res \<Rightarrow> ('a \<Rightarrow> 'b res) \<Rightarrow> 'b res" where
  "bindR (Inl e) f = Inl e"
| "bindR (Inr a) f = f a"

definition assertR :: "string \<Rightarrow> bool \<Rightarrow> unit res" where
  "assertR msg b = (if b then Inr () else Inl (AssertFailed msg))"

fun foldR :: "('a \<Rightarrow> 's \<Rightarrow> 's res) \<Rightarrow> 'a list \<Rightarrow> 's \<Rightarrow> 's res" where
  "foldR f [] s = Inr s"
| "foldR f (x # xs) s = bindR (f x s) (foldR f xs)"

text \<open>\<open>okR P r\<close>: the operation returned, and its result satisfies \<open>P\<close> (total correctness).\<close>

definition okR :: "('a \<Rightarrow> bool) \<Rightarrow> 'a res \<Rightarrow> bool" where
  "okR P r = (case r of Inl _ \<Rightarrow> False | Inr a \<Rightarrow> P a)"

lemma bindR_cong [fundef_cong]:
  "m = m' \<Longrightarrow> (\<And>a. m' = Inr a \<Longrightarrow> f a = g a) \<Longrightarrow> bindR m f = bindR m' g"
  by (cases m') auto

lemma bindR_Inr_iff [res_simps]: "bindR m f = Inr b \<longleftrightarrow> (\<exists>a. m = Inr a \<and> f a = Inr b)"
  by (cases m) auto

lemma bindR_Inl_iff: "bindR m f = Inl e \<longleftrightarrow> m = Inl e \<or> (\<exists>a. m = Inr a \<and> f a = Inl e)"
  by (cases m) auto

lemma bindR_return [simp]: "bindR m Inr = m"
  by (cases m) auto

lemma bindR_assoc: "bindR (bindR m f) g = bindR m (\<lambda>x. bindR (f x) g)"
  by (cases m) auto

lemma bindR_assert_True [simp]: "b \<Longrightarrow> bindR (assertR msg b) f = f ()"
  by (simp add: assertR_def)

lemma bindR_assert_False [simp]: "\<not> b \<Longrightarrow> bindR (assertR msg b) f = Inl (AssertFailed msg)"
  by (simp add: assertR_def)

lemma assertR_Inr_iff [res_simps]: "assertR msg b = Inr u \<longleftrightarrow> b"
  by (simp add: assertR_def)

lemma okR_simps [simp]: "okR P (Inr a) = P a" "\<not> okR P (Inl e)"
  by (simp_all add: okR_def)

lemma okR_iff: "okR P r \<longleftrightarrow> (\<exists>a. r = Inr a \<and> P a)"
  by (cases r) auto

lemma okR_bindR [simp]: "okR P (bindR m f) \<longleftrightarrow> okR (\<lambda>a. okR P (f a)) m"
  by (cases m) auto

lemma okR_mono: "okR P r \<Longrightarrow> (\<And>a. P a \<Longrightarrow> Q a) \<Longrightarrow> okR Q r"
  by (cases r) auto

lemma okR_E: "okR P r \<Longrightarrow> (\<And>a. r = Inr a \<Longrightarrow> P a \<Longrightarrow> Q) \<Longrightarrow> Q"
  by (cases r) auto

lemma foldR_Nil [simp]: "foldR f [] = Inr"
  by (rule ext) simp

lemma foldR_append: "foldR f (xs @ ys) s = bindR (foldR f xs s) (foldR f ys)"
proof (induction xs arbitrary: s)
  case (Cons x xs)
  then show ?case by (cases "f x s") auto
qed simp

text \<open>An invariant that every step establishes holds after the fold.\<close>

lemma foldR_okR:
  "I s \<Longrightarrow> (\<And>x s. x \<in> set xs \<Longrightarrow> I s \<Longrightarrow> okR I (f x s)) \<Longrightarrow> okR I (foldR f xs s)"
proof (induction xs arbitrary: s)
  case Nil
  then show ?case by simp
next
  case (Cons x xs)
  then have "okR I (f x s)" by simp
  then show ?case
    by (rule okR_E) (use Cons in auto)
qed

lemma foldR_safe:
  "foldR f xs s = Inr s' \<Longrightarrow> I s \<Longrightarrow>
   (\<And>x s s'. x \<in> set xs \<Longrightarrow> I s \<Longrightarrow> f x s = Inr s' \<Longrightarrow> I s') \<Longrightarrow> I s'"
proof (induction xs arbitrary: s)
  case Nil
  then show ?case by simp
next
  case (Cons x xs)
  from Cons.prems(1) obtain t where t: "f x s = Inr t" "foldR f xs t = Inr s'"
    by (auto simp: bindR_Inr_iff)
  moreover from t(1) Cons.prems have "I t" by auto
  ultimately show ?case using Cons.IH Cons.prems(3) by (meson list.set_intros(2))
qed

text \<open>
  \<open>safeR E P r\<close>: the operation returned with a result that satisfies \<open>P\<close>, or ended with one of
  the faults in \<open>E\<close>.
\<close>

definition safeR :: "fault set \<Rightarrow> ('a \<Rightarrow> bool) \<Rightarrow> 'a res \<Rightarrow> bool" where
  "safeR E P r = (case r of Inl e \<Rightarrow> e \<in> E | Inr a \<Rightarrow> P a)"

lemma safeR_simps [simp]: "safeR E P (Inr a) = P a" "safeR E P (Inl e) \<longleftrightarrow> e \<in> E"
  by (simp_all add: safeR_def)

lemma safeR_bindR [simp]: "safeR E P (bindR m f) \<longleftrightarrow> safeR E (\<lambda>a. safeR E P (f a)) m"
  by (cases m) auto

lemma safeR_mono: "safeR E P r \<Longrightarrow> (\<And>a. P a \<Longrightarrow> Q a) \<Longrightarrow> safeR E Q r"
  by (cases r) auto

lemma okR_safeR: "okR P r \<Longrightarrow> safeR E P r"
  by (cases r) auto

text \<open>An invariant that also knows which elements the fold has passed and which are left.\<close>

lemma foldR_safeR_split:
  assumes "I [] xs s"
    and "\<And>ys x zs s. xs = ys @ x # zs \<Longrightarrow> I ys (x # zs) s \<Longrightarrow> safeR E (I (ys @ [x]) zs) (f x s)"
  shows "safeR E (I xs []) (foldR f xs s)"
proof -
  have "safeR E (I xs []) (foldR f zs s)" if "xs = ys @ zs" "I ys zs s" for ys zs s
    using that
  proof (induction zs arbitrary: ys s)
    case (Cons x zs)
    from assms(2) [OF Cons.prems] have "safeR E (I (ys @ [x]) zs) (f x s)" .
    moreover have "safeR E (I xs []) (foldR f zs s')" if "I (ys @ [x]) zs s'" for s'
      by (rule Cons.IH [OF _ that]) (simp add: Cons.prems(1))
    ultimately show ?case by (auto elim: safeR_mono)
  qed simp
  from this [of "[]" xs s] assms(1) show ?thesis by simp
qed

lemma foldR_safeR:
  "I s \<Longrightarrow> (\<And>x s. x \<in> set xs \<Longrightarrow> I s \<Longrightarrow> safeR E I (f x s)) \<Longrightarrow> safeR E I (foldR f xs s)"
  by (rule foldR_safeR_split [where I = "\<lambda>_ _. I"]) auto

section \<open>Machine integers\<close>

text \<open>
  \<open>size_t\<close> values are natural numbers below \<open>2 ^ 64\<close>; the sum and the difference wrap. Signed
  64-bit arithmetic that leaves its range is undefined behaviour.
\<close>

definition size_add :: "nat \<Rightarrow> nat \<Rightarrow> nat" where
  "size_add a b = (a + b) mod 2 ^ 64"

definition size_sub :: "nat \<Rightarrow> nat \<Rightarrow> nat" where
  "size_sub a b = (a + (2 ^ 64 - b)) mod 2 ^ 64"

lemma size_add_exact: "a + b < 2 ^ 64 \<Longrightarrow> size_add a b = a + b"
  by (simp add: size_add_def)

lemma size_sub_exact: "b \<le> a \<Longrightarrow> a < 2 ^ 64 \<Longrightarrow> size_sub a b = a - b"
  by (simp add: size_sub_def mod_if)

definition in_int64 :: "int \<Rightarrow> bool" where
  "in_int64 x \<longleftrightarrow> - (2 ^ 63) \<le> x \<and> x < 2 ^ 63"

definition chk64 :: "int \<Rightarrow> int res" where
  "chk64 x = (if in_int64 x then Inr x else Inl (Undefined ''signed 64-bit overflow''))"

lemma chk64_ok [simp]: "in_int64 x \<Longrightarrow> chk64 x = Inr x"
  by (simp add: chk64_def)

lemma chk64_Inr_iff [res_simps]: "chk64 x = Inr y \<longleftrightarrow> in_int64 x \<and> y = x"
  by (auto simp: chk64_def)

section \<open>The storage of a byte vector\<close>

text \<open>
  The elements of a \<open>std::vector<char>\<close> are a list. Copying into or out of it past its size is
  undefined; growing it past \<open>max_size()\<close> (the largest \<open>ptrdiff_t\<close>) throws \<open>length_error\<close>. New
  elements are value-initialised, that is zero bytes.
\<close>

definition vector_max :: nat where
  "vector_max = 2 ^ 63 - 1"

definition mem_read :: "'a list \<Rightarrow> nat \<Rightarrow> nat \<Rightarrow> 'a list res" where
  "mem_read xs i n = (if i + n \<le> length xs then Inr (take n (drop i xs))
     else Inl (Undefined ''read outside the vector''))"

definition mem_write :: "'a list \<Rightarrow> nat \<Rightarrow> 'a list \<Rightarrow> 'a list res" where
  "mem_write xs i ys = (if i + length ys \<le> length xs
     then Inr (take i xs @ ys @ drop (i + length ys) xs)
     else Inl (Undefined ''write outside the vector''))"

definition vector_resize :: "string \<Rightarrow> nat \<Rightarrow> string res" where
  "vector_resize v n = (if vector_max < n then Inl LengthError
     else Inr (take n v @ replicate (n - length v) (CHR 0x00)))"

lemma length_mem_write: "mem_write xs i ys = Inr zs \<Longrightarrow> length zs = length xs"
  by (auto simp: mem_write_def split: if_splits)

lemma mem_write_window:
  assumes "mem_write xs i ys = Inr zs"
  shows "take (length ys) (drop i zs) = ys" "take i zs = take i xs"
    "drop (i + length ys) zs = drop (i + length ys) xs"
proof -
  from assms have i: "i + length ys \<le> length xs"
    and zs: "zs = take i xs @ ys @ drop (i + length ys) xs"
    by (auto simp: mem_write_def split: if_splits)
  from i have "length (take i xs) = i" by simp
  with zs show "take (length ys) (drop i zs) = ys" "take i zs = take i xs"
    "drop (i + length ys) zs = drop (i + length ys) xs" by simp_all
qed

lemma take_drop_append_window:
  "r \<le> w \<Longrightarrow> take (w + n - r) (drop r xs) = take (w - r) (drop r xs) @ take n (drop w xs)"
proof -
  assume "r \<le> w"
  then have "w + n - r = (w - r) + n" "drop (w - r) (drop r xs) = drop w xs" by simp_all
  then show ?thesis by (simp only: take_add)
qed

end
