(* ===== verification/Buffers.thy ===== *)
theory Buffers
  imports Prelude
begin

text \<open>
  The network buffer (\<open>Buffer.h\<close>, \<open>Buffer.cpp\<close>): its three index regions over one byte vector, every
  operation of the class with its assertions, and \<open>readFd\<close>. The contract \<open>byte_fifo\<close> states what
  the connection code relies on (a queue of bytes); it is interpreted on the operations below,
  and the operation sequences of a client refine that queue.
\<close>

section \<open>State and operations\<close>

definition kCheapPrepend :: nat where
  "kCheapPrepend = 8"

definition kInitialSize :: nat where
  "kInitialSize = 1024"

record buffer =
  storage :: string
  readerIndex :: nat
  writerIndex :: nat

definition readableBytes :: "buffer \<Rightarrow> nat" where
  "readableBytes b = size_sub (writerIndex b) (readerIndex b)"

definition writableBytes :: "buffer \<Rightarrow> nat" where
  "writableBytes b = size_sub (length (storage b)) (writerIndex b)"

definition prependableBytes :: "buffer \<Rightarrow> nat" where
  "prependableBytes b = readerIndex b"

definition new_buffer :: "buffer res" where
  "new_buffer =
     (let b = \<lparr>storage = replicate (size_add kCheapPrepend kInitialSize) (CHR 0x00),
               readerIndex = kCheapPrepend, writerIndex = kCheapPrepend\<rparr>
      in bindR (assertR ''readableBytes() == 0'' (readableBytes b = 0)) (\<lambda>_.
         bindR (assertR ''writableBytes() == kInitialSize'' (writableBytes b = kInitialSize)) (\<lambda>_.
         bindR (assertR ''prependableBytes() == kCheapPrepend''
                  (prependableBytes b = kCheapPrepend)) (\<lambda>_. Inr b))))"

definition swap_buffers :: "buffer \<Rightarrow> buffer \<Rightarrow> buffer \<times> buffer" where
  "swap_buffers a b =
     (a\<lparr>storage := storage b, readerIndex := readerIndex b, writerIndex := writerIndex b\<rparr>,
      b\<lparr>storage := storage a, readerIndex := readerIndex a, writerIndex := writerIndex a\<rparr>)"

text \<open>A \<open>char*\<close> into the vector is the offset from \<open>begin()\<close>.\<close>

definition peek :: "buffer \<Rightarrow> nat" where
  "peek b = readerIndex b"

definition beginWrite :: "buffer \<Rightarrow> nat" where
  "beginWrite b = writerIndex b"

definition retrieve :: "nat \<Rightarrow> buffer \<Rightarrow> buffer res" where
  "retrieve len b =
     bindR (assertR ''len <= readableBytes()'' (len \<le> readableBytes b)) (\<lambda>_.
     Inr (b\<lparr>readerIndex := size_add (readerIndex b) len\<rparr>))"

definition retrieveUntil :: "nat \<Rightarrow> buffer \<Rightarrow> buffer res" where
  "retrieveUntil endp b =
     bindR (assertR ''peek() <= end'' (peek b \<le> endp)) (\<lambda>_.
     bindR (assertR ''end <= beginWrite()'' (endp \<le> beginWrite b)) (\<lambda>_.
     retrieve (endp - peek b) b))"

definition retrieveAll :: "buffer \<Rightarrow> buffer" where
  "retrieveAll b = b\<lparr>readerIndex := kCheapPrepend, writerIndex := kCheapPrepend\<rparr>"

definition retrieveAsString :: "buffer \<Rightarrow> (string \<times> buffer) res" where
  "retrieveAsString b =
     bindR (mem_read (storage b) (peek b) (readableBytes b)) (\<lambda>str. Inr (str, retrieveAll b))"

definition makeSpace :: "nat \<Rightarrow> buffer \<Rightarrow> buffer res" where
  "makeSpace len b =
     (if size_add (writableBytes b) (prependableBytes b) < size_add len kCheapPrepend
      then bindR (vector_resize (storage b) (size_add (writerIndex b) len)) (\<lambda>v.
           Inr (b\<lparr>storage := v\<rparr>))
      else bindR (assertR ''kCheapPrepend < readerIndex_'' (kCheapPrepend < readerIndex b)) (\<lambda>_.
           let readable = readableBytes b in
           bindR (mem_read (storage b) (readerIndex b) readable) (\<lambda>d.
           bindR (mem_write (storage b) kCheapPrepend d) (\<lambda>v.
           let b' = b\<lparr>storage := v, readerIndex := kCheapPrepend,
                      writerIndex := size_add kCheapPrepend readable\<rparr> in
           bindR (assertR ''readable == readableBytes()'' (readable = readableBytes b')) (\<lambda>_.
           Inr b')))))"

definition ensureWritableBytes :: "nat \<Rightarrow> buffer \<Rightarrow> buffer res" where
  "ensureWritableBytes len b =
     bindR (if writableBytes b < len then makeSpace len b else Inr b) (\<lambda>b'.
     bindR (assertR ''writableBytes() >= len'' (len \<le> writableBytes b')) (\<lambda>_. Inr b'))"

definition hasWritten :: "nat \<Rightarrow> buffer \<Rightarrow> buffer" where
  "hasWritten len b = b\<lparr>writerIndex := size_add (writerIndex b) len\<rparr>"

text \<open>The three \<open>append\<close> overloads differ in the type of the data pointer only.\<close>

definition append_bytes :: "string \<Rightarrow> buffer \<Rightarrow> buffer res" where
  "append_bytes data b =
     bindR (ensureWritableBytes (length data) b) (\<lambda>b'.
     bindR (mem_write (storage b') (beginWrite b') data) (\<lambda>v.
     Inr (hasWritten (length data) (b'\<lparr>storage := v\<rparr>))))"

definition prepend :: "string \<Rightarrow> buffer \<Rightarrow> buffer res" where
  "prepend data b =
     bindR (assertR ''len <= prependableBytes()'' (length data \<le> prependableBytes b)) (\<lambda>_.
     let b' = b\<lparr>readerIndex := size_sub (readerIndex b) (length data)\<rparr> in
     bindR (mem_write (storage b') (readerIndex b') data) (\<lambda>v. Inr (b'\<lparr>storage := v\<rparr>)))"

definition shrink :: "nat \<Rightarrow> buffer \<Rightarrow> buffer res" where
  "shrink reserve b =
     bindR (vector_resize [] (size_add (size_add kCheapPrepend (readableBytes b)) reserve)) (\<lambda>buf.
     bindR (mem_read (storage b) (peek b) (readableBytes b)) (\<lambda>d.
     bindR (mem_write buf kCheapPrepend d) (\<lambda>v. Inr (b\<lparr>storage := v\<rparr>))))"

text \<open>
  \<open>readv(2)\<close> on a socket that has \<open>avail\<close> to offer: an \<open>errno\<close>, or bytes of which it copies as many
  as the two segments hold. The result is the return value, the bytes copied, and what the
  socket still has.
\<close>

definition sys_readv :: "nat \<Rightarrow> int + string \<Rightarrow> int \<times> string \<times> (int + string)" where
  "sys_readv room avail = (case avail of
      Inl e \<Rightarrow> (-1, [], Inl e)
    | Inr s \<Rightarrow> (int (length (take room s)), take room s, Inr (drop room s)))"

definition extrabuf_size :: nat where
  "extrabuf_size = 65536"

definition readFd :: "int + string \<Rightarrow> buffer \<Rightarrow> (int \<times> int option \<times> buffer \<times> (int + string)) res" where
  "readFd avail b =
     (let writable = writableBytes b;
          (n, bytes, rest) = sys_readv (writable + extrabuf_size) avail;
          first = take writable bytes; extra = drop writable bytes in
      bindR (mem_write (storage b) (writerIndex b) first) (\<lambda>v.
      let b1 = b\<lparr>storage := v\<rparr> in
      if n < 0 then Inr (n, (case avail of Inl e \<Rightarrow> Some e | Inr _ \<Rightarrow> None), b1, rest)
      else if nat n \<le> writable
      then Inr (n, None, b1\<lparr>writerIndex := size_add (writerIndex b1) (nat n)\<rparr>, rest)
      else bindR (append_bytes (take (nat n - writable) extra)
                    (b1\<lparr>writerIndex := length (storage b1)\<rparr>)) (\<lambda>b2.
           Inr (n, None, b2, rest))))"

section \<open>The index regions\<close>

text \<open>
  The class comment's picture: \<open>0 \<le> readerIndex \<le> writerIndex \<le> size\<close>. The vector never drops below
  its cheap prepend area and stays within \<open>max_size()\<close>, so no index computation wraps.
\<close>

definition buf_ok :: "buffer \<Rightarrow> bool" where
  "buf_ok b \<longleftrightarrow> readerIndex b \<le> writerIndex b \<and> writerIndex b \<le> length (storage b)
     \<and> kCheapPrepend \<le> length (storage b) \<and> length (storage b) \<le> vector_max"

definition content :: "buffer \<Rightarrow> string" where
  "content b = take (writerIndex b - readerIndex b) (drop (readerIndex b) (storage b))"

lemma buf_okD [dest]:
  assumes "buf_ok b"
  shows "readerIndex b \<le> writerIndex b" "writerIndex b \<le> length (storage b)"
    "8 \<le> length (storage b)" "length (storage b) < 2 ^ 63"
  using assms by (auto simp: buf_ok_def kCheapPrepend_def vector_max_def)

lemma readable_ok: "buf_ok b \<Longrightarrow> readableBytes b = writerIndex b - readerIndex b"
  unfolding readableBytes_def by (rule size_sub_exact) (use buf_okD in fastforce)+

lemma writable_ok: "buf_ok b \<Longrightarrow> writableBytes b = length (storage b) - writerIndex b"
  unfolding writableBytes_def by (rule size_sub_exact) (use buf_okD in fastforce)+

lemma length_content: "buf_ok b \<Longrightarrow> length (content b) = readableBytes b"
  using buf_okD [of b] by (simp add: content_def readable_ok)

lemma new_buffer_eq:
  "new_buffer = Inr \<lparr>storage = replicate 1032 (CHR 0x00), readerIndex = 8, writerIndex = 8\<rparr>"
  by (simp add: new_buffer_def readableBytes_def writableBytes_def prependableBytes_def Let_def
      kCheapPrepend_def kInitialSize_def size_add_def size_sub_def)

text \<open>There is room for \<open>n\<close> more bytes, by moving the content or by growing the vector.\<close>

definition fits :: "nat \<Rightarrow> buffer \<Rightarrow> bool" where
  "fits n b \<longleftrightarrow> n + kCheapPrepend \<le> length (storage b) - writerIndex b + readerIndex b
     \<or> writerIndex b + n \<le> vector_max"

text \<open>
  \<open>buf_holds c h n b\<close>: well formed, holding \<open>c\<close>, with at least \<open>h\<close> prependable bytes and a
  vector of at most \<open>n\<close> bytes.
\<close>

definition buf_holds :: "string \<Rightarrow> nat \<Rightarrow> nat \<Rightarrow> buffer \<Rightarrow> bool" where
  "buf_holds c h n b \<longleftrightarrow> buf_ok b \<and> content b = c \<and> h \<le> readerIndex b \<and> length (storage b) \<le> n"

lemma makeSpace_grow:
  assumes ok: "buf_ok b" and len: "len \<le> vector_max"
    and small: "length (storage b) - writerIndex b + readerIndex b < len + 8"
  shows "makeSpace len b = (if writerIndex b + len \<le> vector_max
    then Inr (b\<lparr>storage := take (writerIndex b + len) (storage b) @
                replicate (writerIndex b + len - length (storage b)) (CHR 0x00)\<rparr>)
    else Inl LengthError)"
proof -
  note b = buf_okD [OF ok]
  have "size_add (writableBytes b) (prependableBytes b) = length (storage b) - writerIndex b + readerIndex b"
    unfolding writable_ok [OF ok] prependableBytes_def by (rule size_add_exact) (use b in simp)
  moreover have "size_add len kCheapPrepend = len + 8"
    unfolding kCheapPrepend_def by (rule size_add_exact) (use len in \<open>simp add: vector_max_def\<close>)
  moreover have "size_add (writerIndex b) len = writerIndex b + len"
    by (rule size_add_exact) (use b len in \<open>simp add: vector_max_def\<close>)
  ultimately show ?thesis
    using small by (simp add: makeSpace_def vector_resize_def)
qed

lemma makeSpace_move:
  assumes ok: "buf_ok b" and len: "len \<le> vector_max" and lack: "writableBytes b < len"
    and room: "len + 8 \<le> length (storage b) - writerIndex b + readerIndex b"
  shows "makeSpace len b = Inr (b\<lparr>storage := take 8 (storage b) @ content b @
      drop (8 + length (content b)) (storage b),
      readerIndex := 8, writerIndex := 8 + length (content b)\<rparr>)"
proof -
  note b = buf_okD [OF ok] and rd = readable_ok [OF ok]
  have r8: "8 < readerIndex b"
    using lack room by (simp add: writable_ok [OF ok])
  have "size_add (writableBytes b) (prependableBytes b) = length (storage b) - writerIndex b + readerIndex b"
    unfolding writable_ok [OF ok] prependableBytes_def by (rule size_add_exact) (use b in simp)
  moreover have "size_add len kCheapPrepend = len + 8"
    unfolding kCheapPrepend_def by (rule size_add_exact) (use len in \<open>simp add: vector_max_def\<close>)
  moreover have "mem_read (storage b) (readerIndex b) (readableBytes b) = Inr (content b)"
    using b by (simp add: mem_read_def content_def rd)
  moreover have "mem_write (storage b) kCheapPrepend (content b) =
      Inr (take 8 (storage b) @ content b @ drop (8 + length (content b)) (storage b))"
    using b r8 by (simp add: mem_write_def length_content [OF ok] rd kCheapPrepend_def)
  moreover have "size_add kCheapPrepend (readableBytes b) = 8 + length (content b)"
    unfolding kCheapPrepend_def length_content [OF ok]
    by (rule size_add_exact) (use b in \<open>simp add: rd\<close>)
  moreover have "size_sub (8 + readableBytes b) 8 = readableBytes b"
    by (subst size_sub_exact) (use b in \<open>simp_all add: rd\<close>)
  ultimately show ?thesis
    using room r8 by (simp add: makeSpace_def Let_def readableBytes_def [of "b\<lparr>storage := _, readerIndex := _, writerIndex := _\<rparr>"]
        length_content [OF ok] kCheapPrepend_def)
qed

lemma makeSpace_spec:
  assumes ok: "buf_ok b" and len: "len \<le> vector_max" and lack: "writableBytes b < len"
    and fits: "fits len b"
  shows "okR (\<lambda>b'. buf_holds (content b) (min (readerIndex b) 8)
           (max (length (storage b)) (writerIndex b + len)) b' \<and> len \<le> writableBytes b') (makeSpace len b)"
proof (cases "length (storage b) - writerIndex b + readerIndex b < len + 8")
  case True
  note b = buf_okD [OF ok]
  from fits True have fit: "writerIndex b + len \<le> vector_max"
    by (simp add: fits_def kCheapPrepend_def)
  let ?b = "b\<lparr>storage := take (writerIndex b + len) (storage b) @
                replicate (writerIndex b + len - length (storage b)) (CHR 0x00)\<rparr>"
  have long: "length (storage b) < writerIndex b + len"
    using lack b by (simp add: writable_ok [OF ok])
  then have ok': "buf_ok ?b"
    using b fit by (simp add: buf_ok_def kCheapPrepend_def)
  moreover have "content ?b = content b"
    using b long by (simp add: content_def)
  moreover have "len \<le> writableBytes ?b"
    using b long by (subst writable_ok [OF ok']) simp
  ultimately show ?thesis
    using long fit by (simp add: makeSpace_grow [OF ok len True] buf_holds_def)
next
  case False
  then have room: "len + 8 \<le> length (storage b) - writerIndex b + readerIndex b" by simp
  note b = buf_okD [OF ok] and lc = length_content [OF ok, unfolded readable_ok [OF ok]]
  let ?b = "b\<lparr>storage := take 8 (storage b) @ content b @
      drop (8 + length (content b)) (storage b), readerIndex := 8, writerIndex := 8 + length (content b)\<rparr>"
  have r8: "8 < readerIndex b"
    using lack room by (simp add: writable_ok [OF ok])
  then have ok': "buf_ok ?b"
    using b by (auto simp: buf_ok_def kCheapPrepend_def vector_max_def lc)
  moreover have "content ?b = content b"
    using b by (simp add: content_def)
  moreover have "len \<le> writableBytes ?b"
    using b room r8 by (subst writable_ok [OF ok']) (auto simp: lc)
  ultimately show ?thesis
    using b r8 by (simp add: makeSpace_move [OF ok len lack room] buf_holds_def lc)
qed

lemma ensureWritableBytes_spec:
  assumes "buf_ok b" and "len \<le> vector_max" and "fits len b"
  shows "okR (\<lambda>b'. buf_holds (content b) (min (readerIndex b) 8)
           (max (length (storage b)) (writerIndex b + len)) b' \<and> len \<le> writableBytes b')
         (ensureWritableBytes len b)"
proof (cases "writableBytes b < len")
  case True
  from makeSpace_spec [OF assms(1,2) this assms(3)] show ?thesis
    by (rule okR_E) (use True in \<open>simp add: ensureWritableBytes_def\<close>)
next
  case False
  with assms show ?thesis by (simp add: ensureWritableBytes_def buf_holds_def)
qed

lemma append_in_place:
  assumes ok: "buf_ok b" and room: "length data \<le> writableBytes b"
  shows "okR (\<lambda>b'. buf_holds (content b @ data) (readerIndex b) (length (storage b)) b')
     (bindR (mem_write (storage b) (beginWrite b) data) (\<lambda>v.
        Inr (hasWritten (length data) (b\<lparr>storage := v\<rparr>))))"
proof -
  note b = buf_okD [OF ok]
  have fit: "writerIndex b + length data \<le> length (storage b)"
    using room b by (simp add: writable_ok [OF ok])
  then obtain v where v: "mem_write (storage b) (writerIndex b) data = Inr v"
    by (simp add: mem_write_def)
  note win = mem_write_window [OF v] and lenv = length_mem_write [OF v]
  have "size_add (writerIndex b) (length data) = writerIndex b + length data"
    by (rule size_add_exact) (use fit b in simp)
  moreover have "take (writerIndex b + length data - readerIndex b) (drop (readerIndex b) v) =
      content b @ data"
    using take_drop_append_window [OF b(1), of "length data" v] win b
    by (simp add: content_def) (metis (no_types, lifting) drop_take win(2))
  ultimately show ?thesis
    using ok fit v lenv by (simp add: beginWrite_def hasWritten_def buf_holds_def buf_ok_def content_def)
qed

lemma append_bytes_spec:
  assumes "buf_ok b" and "length data \<le> vector_max" and "fits (length data) b"
  shows "okR (buf_holds (content b @ data) (min (readerIndex b) 8)
           (max (length (storage b)) (writerIndex b + length data))) (append_bytes data b)"
proof -
  from ensureWritableBytes_spec [OF assms] obtain b' where
    b': "ensureWritableBytes (length data) b = Inr b'" "length data \<le> writableBytes b'"
    and h: "buf_holds (content b) (min (readerIndex b) 8)
       (max (length (storage b)) (writerIndex b + length data)) b'"
    by (auto elim: okR_E)
  from h have "buf_ok b'" by (simp add: buf_holds_def)
  from append_in_place [OF this b'(2)] show ?thesis
    unfolding append_bytes_def b'(1) bindR.simps
    by (rule okR_mono) (use h in \<open>auto simp: buf_holds_def\<close>)
qed

lemma append_bytes_full:
  assumes ok: "buf_ok b" and len: "length data \<le> vector_max" and full: "\<not> fits (length data) b"
  shows "append_bytes data b = Inl LengthError"
proof -
  have "writableBytes b < length data"
    using full ok buf_okD [OF ok] by (auto simp: fits_def writable_ok buf_ok_def)
  moreover have "makeSpace (length data) b = Inl LengthError"
    using makeSpace_grow [OF ok len] full by (simp add: fits_def kCheapPrepend_def)
  ultimately show ?thesis by (simp add: append_bytes_def ensureWritableBytes_def)
qed

lemma retrieve_spec:
  assumes ok: "buf_ok b" and len: "n \<le> length (content b)"
  shows "okR (buf_holds (drop n (content b)) (readerIndex b) (length (storage b))) (retrieve n b)"
proof -
  note b = buf_okD [OF ok] and lc = length_content [OF ok]
  have n: "n \<le> writerIndex b - readerIndex b"
    using len by (simp add: lc readable_ok [OF ok])
  have k: "readerIndex b + n \<le> writerIndex b" using n b by simp
  have "size_add (readerIndex b) n = readerIndex b + n"
    by (rule size_add_exact) (use n b in simp)
  then show ?thesis
    using ok len lc n k by (simp add: retrieve_def buf_holds_def buf_ok_def content_def drop_take add.commute)
qed

lemma retrieve_too_many:
  "buf_ok b \<Longrightarrow> length (content b) < n \<Longrightarrow> retrieve n b = Inl (AssertFailed ''len <= readableBytes()'')"
  by (simp add: retrieve_def length_content)

lemma retrieveAll_spec:
  "buf_ok b \<Longrightarrow> buf_holds [] 8 (length (storage b)) (retrieveAll b)"
  by (auto simp: retrieveAll_def buf_holds_def buf_ok_def content_def kCheapPrepend_def)

lemma retrieveAsString_spec:
  assumes "buf_ok b"
  shows "retrieveAsString b = Inr (content b, retrieveAll b)"
  using buf_okD [OF assms]
  by (simp add: retrieveAsString_def mem_read_def content_def peek_def readable_ok [OF assms])

lemma prepend_spec:
  assumes ok: "buf_ok b" and len: "length data \<le> readerIndex b"
  shows "okR (buf_holds (data @ content b) (readerIndex b - length data) (length (storage b))) (prepend data b)"
proof -
  note b = buf_okD [OF ok]
  let ?r = "readerIndex b - length data"
  have sub: "size_sub (readerIndex b) (length data) = ?r"
    by (rule size_sub_exact) (use b len in simp_all)
  obtain v where v: "mem_write (storage b) ?r data = Inr v"
    using b len by (simp add: mem_write_def)
  note win = mem_write_window [OF v] and lenv = length_mem_write [OF v]
  have "take (length data + (writerIndex b - readerIndex b)) (drop ?r v) =
      data @ take (writerIndex b - readerIndex b) (drop (readerIndex b) (storage b))"
    using win(1,3) len by (simp add: take_add)
  moreover have "length data + (writerIndex b - readerIndex b) = writerIndex b - ?r"
    using b len by simp
  moreover have "?r \<le> writerIndex b" using b by simp
  ultimately show ?thesis
    using ok len v lenv sub
    by (simp add: prepend_def prependableBytes_def Let_def buf_holds_def buf_ok_def content_def)
qed

text \<open>\<open>shrink\<close> copies the content to the front of a new vector but leaves both indices as they were.\<close>

lemma shrink_eq:
  assumes ok: "buf_ok b" and fit: "8 + readableBytes b + reserve \<le> vector_max"
  shows "shrink reserve b = Inr (b\<lparr>storage := replicate 8 (CHR 0x00) @ content b @
    replicate reserve (CHR 0x00)\<rparr>)"
proof -
  note b = buf_okD [OF ok] and rd = readable_ok [OF ok]
  have "size_add (size_add kCheapPrepend (readableBytes b)) reserve = 8 + readableBytes b + reserve"
    using fit by (simp add: size_add_def kCheapPrepend_def vector_max_def)
  moreover have "mem_read (storage b) (peek b) (readableBytes b) = Inr (content b)"
    using b by (simp add: mem_read_def content_def rd peek_def)
  ultimately show ?thesis
    using fit by (simp add: shrink_def vector_resize_def mem_write_def length_content [OF ok]
        kCheapPrepend_def add.assoc min_def)
qed

lemma readFd_error: "buf_ok b \<Longrightarrow> readFd (Inl e) b = Inr (-1, Some e, b, Inl e)"
  by (auto simp: readFd_def sys_readv_def Let_def mem_write_def dest: buf_okD)

text \<open>
  A successful \<open>readFd\<close> takes as many bytes as both segments hold and appends them, whether they fit
  behind \<open>writerIndex\<close> or spill into the stack buffer.
\<close>

lemma readFd_spec:
  fixes s :: string
  assumes ok: "buf_ok b" and size: "length (storage b) + extrabuf_size \<le> vector_max"
  defines "got \<equiv> take (writableBytes b + extrabuf_size) s"
  shows "okR (\<lambda>(n, err, b', rest). n = int (length got) \<and> err = None \<and> rest = Inr (drop (length got) s)
     \<and> buf_holds (content b @ got) (min (readerIndex b) 8) (max (length (storage b)) (writerIndex b + length got)) b')
     (readFd (Inr s) b)"
proof -
  note b = buf_okD [OF ok] and wr = writable_ok [OF ok]
  let ?w = "writableBytes b"
  have sys: "sys_readv (?w + extrabuf_size) (Inr s) = (int (length got), got, Inr (drop (length got) s))"
    by (simp add: sys_readv_def got_def min_def)
  let ?first = "take ?w got"
  have fst_room: "length ?first \<le> ?w" by simp
  from append_in_place [OF ok fst_room] obtain v where
    v: "mem_write (storage b) (writerIndex b) ?first = Inr v"
    and h: "buf_holds (content b @ ?first) (readerIndex b) (length (storage b))
        (b\<lparr>storage := v, writerIndex := size_add (writerIndex b) (length ?first)\<rparr>)"
    by (auto simp: beginWrite_def hasWritten_def okR_iff bindR_Inr_iff)
  show ?thesis
  proof (cases "length got \<le> ?w")
    case True
    then have "?first = got" by simp
    with v h True show ?thesis
      by (simp add: readFd_def sys Let_def buf_holds_def le_max_iff_disj)
  next
    case False
    let ?b1 = "b\<lparr>storage := v, writerIndex := length v\<rparr>"
    let ?extra = "drop ?w got"
    have "size_add (writerIndex b) (length ?first) = length v"
      using False b wr length_mem_write [OF v] by (subst size_add_exact) auto
    with h have h1: "buf_holds (content b @ ?first) (readerIndex b) (length (storage b)) ?b1" by simp
    then have ok1: "buf_ok ?b1" by (simp add: buf_holds_def)
    have ex: "length ?extra \<le> extrabuf_size" by (simp add: got_def)
    have lv: "length v = length (storage b)" using length_mem_write [OF v] .
    have "fits (length ?extra) ?b1" "length ?extra \<le> vector_max"
      using ex size lv by (auto simp: fits_def)
    from append_bytes_spec [OF ok1 this(2,1)] obtain b2 where
      b2: "append_bytes ?extra ?b1 = Inr b2"
      and h2: "buf_holds (content ?b1 @ ?extra) (min (readerIndex ?b1) 8)
         (max (length (storage ?b1)) (writerIndex ?b1 + length ?extra)) b2"
      by (auto elim: okR_E)
    have "content ?b1 @ ?extra = content b @ got"
      using h1 by (simp add: buf_holds_def)
    moreover have "length v + length ?extra = writerIndex b + length got" using False b wr lv by auto
    ultimately have "buf_holds (content b @ got) (min (readerIndex b) 8)
        (max (length (storage b)) (writerIndex b + length got)) b2"
      using h2 lv by (auto simp: buf_holds_def)
    with v b2 False show ?thesis
      by (simp add: readFd_def sys Let_def)
  qed
qed

section \<open>The contract the connection code relies on\<close>

text \<open>
  A connection reads a prefix of the content through \<open>peek\<close> and then retrieves it
  (\<open>TcpConnection::handleWrite\<close>); \<open>consume\<close> is that pair of calls.
\<close>

definition consume :: "nat \<Rightarrow> buffer \<Rightarrow> (string \<times> buffer) res" where
  "consume n b =
     bindR (mem_read (storage b) (peek b) n) (\<lambda>d. bindR (retrieve n b) (\<lambda>b'. Inr (d, b')))"

lemma consume_spec:
  assumes ok: "buf_ok b" and n: "n \<le> readableBytes b"
  shows "okR (\<lambda>(d, b'). d = take n (content b)
     \<and> buf_holds (drop n (content b)) (readerIndex b) (length (storage b)) b') (consume n b)"
proof -
  note b = buf_okD [OF ok] and rd = readable_ok [OF ok]
  have "mem_read (storage b) (peek b) n = Inr (take n (content b))"
    using b n by (simp add: mem_read_def peek_def content_def rd min_def)
  with retrieve_spec [OF ok, of n] n show ?thesis
    by (auto simp: consume_def length_content [OF ok] elim: okR_E)
qed

text \<open>A client's use of a queue of bytes: put a message in, or take up to \<open>n\<close> bytes out.\<close>

datatype fifo_cmd = Put string | Take nat

fun fifo_run ::
  "(string \<Rightarrow> 'b \<Rightarrow> 'b res) \<Rightarrow> (nat \<Rightarrow> 'b \<Rightarrow> (string \<times> 'b) res) \<Rightarrow> ('b \<Rightarrow> nat)
   \<Rightarrow> fifo_cmd list \<Rightarrow> 'b \<Rightarrow> (string \<times> 'b) res" where
  "fifo_run put get len [] b = Inr ([], b)"
| "fifo_run put get len (Put s # cs) b = bindR (put s b) (fifo_run put get len cs)"
| "fifo_run put get len (Take n # cs) b =
     bindR (get (min n (len b)) b) (\<lambda>(d, b'). bindR (fifo_run put get len cs b') (\<lambda>(out, b'').
     Inr (d @ out, b'')))"

fun fifo_input :: "fifo_cmd list \<Rightarrow> string" where
  "fifo_input [] = []"
| "fifo_input (Put s # cs) = s @ fifo_input cs"
| "fifo_input (Take n # cs) = fifo_input cs"

text \<open>\<open>inv k b\<close>: \<open>b\<close> is well formed and at most \<open>k\<close> bytes of its capacity are spoken for.\<close>

locale byte_fifo =
  fixes view :: "'b \<Rightarrow> string"
    and inv :: "nat \<Rightarrow> 'b \<Rightarrow> bool"
    and capacity :: nat
    and put :: "string \<Rightarrow> 'b \<Rightarrow> 'b res"
    and get :: "nat \<Rightarrow> 'b \<Rightarrow> (string \<times> 'b) res"
    and len :: "'b \<Rightarrow> nat"
  assumes len_view: "inv k b \<Longrightarrow> len b = length (view b)"
    and put_view: "inv k b \<Longrightarrow> k + length s \<le> capacity \<Longrightarrow>
      okR (\<lambda>b'. inv (k + length s) b' \<and> view b' = view b @ s) (put s b)"
    and get_view: "inv k b \<Longrightarrow> n \<le> length (view b) \<Longrightarrow>
      okR (\<lambda>(d, b'). inv k b' \<and> d = take n (view b) \<and> view b' = drop n (view b)) (get n b)"
begin

lemma fifo_stream:
  "inv k b \<Longrightarrow> k + length (fifo_input cs) \<le> capacity \<Longrightarrow>
   okR (\<lambda>(out, b'). inv (k + length (fifo_input cs)) b' \<and> out @ view b' = view b @ fifo_input cs)
     (fifo_run put get len cs b)"
proof (induction cs arbitrary: k b)
  case Nil
  then show ?case by simp
next
  case (Cons c cs)
  show ?case
  proof (cases c)
    case (Put s)
    with Cons.prems have "okR (\<lambda>b'. inv (k + length s) b' \<and> view b' = view b @ s) (put s b)"
      by (simp add: put_view)
    then show ?thesis
      by (rule okR_E) (use Cons Put in \<open>auto simp: add.assoc elim!: okR_mono dest: Cons.IH\<close>)
  next
    case (Take n)
    have "okR (\<lambda>(d, b'). inv k b' \<and> d = take (min n (len b)) (view b)
        \<and> view b' = drop (min n (len b)) (view b)) (get (min n (len b)) b)"
      by (rule get_view [OF Cons.prems(1)]) (simp add: len_view [OF Cons.prems(1)])
    then obtain d b' where g: "get (min n (len b)) b = Inr (d, b')"
      and b': "inv k b'" "d @ view b' = view b"
      by (auto elim: okR_E)
    from Cons.IH [OF b'(1)] Cons.prems(2) Take have
      "okR (\<lambda>(out, b''). inv (k + length (fifo_input cs)) b'' \<and> out @ view b'' = view b' @ fifo_input cs)
        (fifo_run put get len cs b')" by simp
    moreover have "(d @ out) @ v = view b @ i" if "out @ v = view b' @ i" for out v i
      using b'(2) that by (metis append.assoc)
    ultimately show ?thesis
      by (auto simp: Take g elim!: okR_E)
  qed
qed

end

text \<open>The interface of the input side adds \<open>readFd\<close>, which fills the queue from a socket.\<close>

locale byte_fifo_fill = byte_fifo +
  fixes fill :: "int + string \<Rightarrow> 'a \<Rightarrow> (int \<times> int option \<times> 'a \<times> (int + string)) res"
  assumes fill_error: "inv k b \<Longrightarrow> fill (Inl e) b = Inr (-1, Some e, b, Inl e)"
    and fill_view: "inv k b \<Longrightarrow> k + length s \<le> capacity \<Longrightarrow>
      okR (\<lambda>(n, err, b', rest). \<exists>got more. s = got @ more \<and> n = int (length got) \<and> err = None
        \<and> rest = Inr more \<and> inv (k + length got) b' \<and> view b' = view b @ got
        \<and> (got = [] \<longrightarrow> s = [])) (fill (Inr s) b)"
begin

lemma fill_zero_iff_closed:
  "inv k b \<Longrightarrow> k + length s \<le> capacity \<Longrightarrow> fill (Inr s) b = Inr (n, err, b', rest) \<Longrightarrow>
   n = 0 \<longleftrightarrow> s = []"
  using fill_view [of k b s] by auto

end

definition buffer_capacity :: nat where
  "buffer_capacity = vector_max - (kCheapPrepend + kInitialSize + extrabuf_size)"

definition buf_budget :: "nat \<Rightarrow> buffer \<Rightarrow> bool" where
  "buf_budget k b \<longleftrightarrow> buf_ok b \<and> length (storage b) \<le> kCheapPrepend + kInitialSize + k
     \<and> k \<le> buffer_capacity"

lemmas budget_defs = buf_budget_def buffer_capacity_def vector_max_def kCheapPrepend_def
  kInitialSize_def extrabuf_size_def

lemma buf_budget_new: "new_buffer = Inr b \<Longrightarrow> buf_budget 0 b \<and> content b = []"
  by (auto simp: new_buffer_eq budget_defs buf_ok_def content_def)

lemma buf_budget_append:
  assumes b: "buf_budget k b" and cap: "k + length s \<le> buffer_capacity"
  shows "okR (\<lambda>b'. buf_budget (k + length s) b' \<and> content b' = content b @ s) (append_bytes s b)"
proof -
  from b have ok: "buf_ok b" by (simp add: buf_budget_def)
  have "fits (length s) b" "length s \<le> vector_max"
    using b cap buf_okD [OF ok] by (auto simp: fits_def budget_defs)
  from append_bytes_spec [OF ok this(2,1)] show ?thesis
    by (rule okR_mono) (use b cap buf_okD [OF ok] in \<open>auto simp: buf_holds_def buf_budget_def\<close>)
qed

lemma buf_budget_fill:
  assumes b: "buf_budget k b" and cap: "k + length s \<le> buffer_capacity"
  shows "okR (\<lambda>(n, err, b', rest). \<exists>got more. s = got @ more \<and> n = int (length got) \<and> err = None
        \<and> rest = Inr more \<and> buf_budget (k + length got) b' \<and> content b' = content b @ got
        \<and> (got = [] \<longrightarrow> s = [])) (readFd (Inr s) b)"
proof -
  from b have ok: "buf_ok b" by (simp add: buf_budget_def)
  let ?got = "take (writableBytes b + extrabuf_size) s"
  have "length (storage b) + extrabuf_size \<le> vector_max"
    using b by (auto simp: budget_defs)
  from readFd_spec [OF ok this, of s] have
    "okR (\<lambda>(n, err, b', rest). s = ?got @ drop (length ?got) s \<and> n = int (length ?got) \<and> err = None
        \<and> rest = Inr (drop (length ?got) s) \<and> buf_budget (k + length ?got) b' \<and> content b' = content b @ ?got
        \<and> (?got = [] \<longrightarrow> s = [])) (readFd (Inr s) b)"
    by (rule okR_mono) (use b cap buf_okD [OF ok] in
      \<open>auto simp: buf_holds_def buf_budget_def extrabuf_size_def min_def\<close>)
  then show ?thesis by (rule okR_mono) (auto simp del: take_eq_Nil)
qed

interpretation outbuf: byte_fifo content buf_budget buffer_capacity append_bytes consume readableBytes
proof unfold_locales
  fix k b and s :: string
  assume "buf_budget k b" "k + length s \<le> buffer_capacity"
  then show "okR (\<lambda>b'. buf_budget (k + length s) b' \<and> content b' = content b @ s) (append_bytes s b)"
    by (rule buf_budget_append)
next
  fix k b n
  assume b: "buf_budget k b" and n: "n \<le> length (content b)"
  then have "buf_ok b" "n \<le> readableBytes b" by (auto simp: buf_budget_def length_content)
  from consume_spec [OF this] show "okR (\<lambda>(d, b'). buf_budget k b' \<and> d = take n (content b)
      \<and> content b' = drop n (content b)) (consume n b)"
    by (rule okR_mono) (use b in \<open>auto simp: buf_holds_def buf_budget_def\<close>)
qed (simp add: buf_budget_def length_content)

interpretation inbuf: byte_fifo_fill content buf_budget buffer_capacity append_bytes consume
  readableBytes readFd
proof unfold_locales
  fix k b e
  assume "buf_budget k b"
  then show "readFd (Inl e) b = Inr (-1, Some e, b, Inl e)"
    by (intro readFd_error) (simp add: buf_budget_def)
qed (rule buf_budget_fill)

section \<open>Properties\<close>

text \<open>C24. Whatever sequence of appends and reads a client makes on a fresh buffer, no assertion of
  the class fails and the bytes taken out followed by the bytes still readable are exactly the
  bytes put in, in order, as long as their total stays below the capacity.\<close>

theorem buffer_stream:
  assumes "length (fifo_input cs) \<le> buffer_capacity"
  shows "okR (\<lambda>(out, b). buf_ok b \<and> out @ content b = fifo_input cs)
    (bindR new_buffer (fifo_run append_bytes consume readableBytes cs))"
proof -
  obtain b where b: "new_buffer = Inr b" by (simp add: new_buffer_eq)
  from buf_budget_new [OF b] have "buf_budget 0 b" "content b = []" by simp_all
  from outbuf.fifo_stream [OF this(1), of cs] assms this(2) show ?thesis
    unfolding b bindR.simps by (auto simp: buf_budget_def elim!: okR_mono)
qed

lemma buffer_stream_witness:
  "okR (\<lambda>(out, b). buf_ok b \<and> out @ content b = ''GET /idx'')
    (bindR new_buffer (fifo_run append_bytes consume readableBytes
      [Put ''GET /'', Take 3, Put ''idx'', Take 2]))"
  using buffer_stream [of "[Put ''GET /'', Take 3, Put ''idx'', Take 2]"] by (simp add: budget_defs)

text \<open>C25. \<open>append\<close> on a well-formed buffer never fails an assertion of \<open>makeSpace\<close> or
  \<open>ensureWritableBytes\<close>: it appends exactly the data when moving or growing makes room, and throws
  \<open>length_error\<close> precisely when neither does.\<close>

theorem append_total:
  assumes "buf_ok b" and "length data \<le> vector_max"
  shows "if fits (length data) b
    then okR (\<lambda>b'. buf_ok b' \<and> content b' = content b @ data) (append_bytes data b)
    else append_bytes data b = Inl LengthError"
  using append_bytes_spec [OF assms] append_bytes_full [OF assms]
  by (auto simp: buf_holds_def elim!: okR_mono)

definition sample_buffer :: buffer where
  "sample_buffer = \<lparr>storage = replicate 10 (CHR 0x00) @ ''abc'' @ [CHR 0x00],
     readerIndex = 10, writerIndex = 13\<rparr>"

lemma sample_buffer_ok: "buf_ok sample_buffer" "content sample_buffer = ''abc''"
  "readableBytes sample_buffer = 3" "writableBytes sample_buffer = 1"
  by (simp_all add: sample_buffer_def buf_ok_def content_def readableBytes_def writableBytes_def
      size_sub_def kCheapPrepend_def vector_max_def)

lemma append_total_witness:
  "okR (\<lambda>b'. buf_ok b' \<and> content b' = ''abcde'') (append_bytes ''de'' sample_buffer)"
proof -
  have "fits (length ''de'') sample_buffer"
    by (simp add: fits_def sample_buffer_def kCheapPrepend_def vector_max_def)
  then show ?thesis
    using append_total [OF sample_buffer_ok(1), of "''de''"]
    by (simp add: sample_buffer_ok vector_max_def)
qed

text \<open>C26. \<open>readFd\<close> loses and invents nothing: the bytes it reports are appended to the content, the
  rest stays in the socket, it reads everything when the two segments can hold it, and it returns
  0 only for a peer that sent nothing more.\<close>

theorem readFd_delivers:
  fixes s :: string
  assumes "buf_ok b" and "length (storage b) + extrabuf_size \<le> vector_max"
  shows "okR (\<lambda>(n, err, b', rest). \<exists>got more. s = got @ more \<and> rest = Inr more
      \<and> n = int (length got) \<and> err = None \<and> buf_ok b' \<and> content b' = content b @ got
      \<and> length got = min (length s) (writableBytes b + extrabuf_size) \<and> (n = 0 \<longleftrightarrow> s = []))
    (readFd (Inr s) b)"
proof -
  let ?got = "take (writableBytes b + extrabuf_size) s"
  have "length ?got = 0 \<longleftrightarrow> s = []" by (cases s) (auto simp: extrabuf_size_def min_def)
  moreover have "s = ?got @ drop (length ?got) s" by (auto simp: min_def)
  ultimately show ?thesis
    by (intro okR_mono [OF readFd_spec [OF assms, of s]]) (auto simp: buf_holds_def min.commute)
qed

lemma readFd_delivers_witness:
  "okR (\<lambda>(n, err, b', rest). content b' = ''abcxyz'' \<and> rest = Inr []) (readFd (Inr ''xyz'') sample_buffer)"
proof -
  have size: "length (storage sample_buffer) + extrabuf_size \<le> vector_max"
    by (simp add: sample_buffer_def extrabuf_size_def vector_max_def)
  show ?thesis
    by (intro okR_mono [OF readFd_delivers [OF sample_buffer_ok(1) size, of "''xyz''"]])
      (auto simp: sample_buffer_ok extrabuf_size_def Cons_eq_append_conv)
qed

text \<open>A header prepended in front of the content is what the next read of that length returns,
  and the content behind it is untouched.\<close>

lemma prepend_then_consume:
  assumes ok: "buf_ok b" and room: "length hdr \<le> prependableBytes b"
  shows "okR (\<lambda>(d, b'). d = hdr \<and> buf_ok b' \<and> content b' = content b)
    (bindR (prepend hdr b) (consume (length hdr)))"
proof -
  from prepend_spec [OF ok, of hdr] room obtain b1 where b1: "prepend hdr b = Inr b1"
    "buf_ok b1" "content b1 = hdr @ content b"
    by (auto simp: prependableBytes_def buf_holds_def elim: okR_E)
  moreover have "length hdr \<le> readableBytes b1"
    using b1 by (simp flip: length_content)
  ultimately show ?thesis
    using consume_spec [of b1 "length hdr"] by (auto simp: buf_holds_def elim!: okR_mono)
qed

lemma prepend_then_consume_witness:
  "okR (\<lambda>(d, b'). d = ''len3'' \<and> buf_ok b' \<and> content b' = ''abc'')
    (bindR (prepend ''len3'' sample_buffer) (consume (length ''len3'')))"
proof -
  have "length ''len3'' \<le> prependableBytes sample_buffer"
    by (simp add: prependableBytes_def sample_buffer_def)
  from prepend_then_consume [OF sample_buffer_ok(1) this] show ?thesis
    by (simp only: sample_buffer_ok(2))
qed

text \<open>\<open>shrink\<close> leaves the two indices at their old values, so the buffer it returns is well formed
  exactly when the old \<open>readerIndex\<close> fits the new layout, and keeps its content only when nothing
  had been retrieved.\<close>

lemma shrink_stale_indices:
  assumes ok: "buf_ok b" and fit: "8 + readableBytes b + reserve \<le> vector_max"
  shows "okR (\<lambda>b'. readerIndex b' = readerIndex b \<and> writerIndex b' = writerIndex b
      \<and> (buf_ok b' \<longleftrightarrow> readerIndex b \<le> kCheapPrepend + reserve)
      \<and> (readerIndex b = kCheapPrepend \<longrightarrow> content b' = content b)) (shrink reserve b)"
  using buf_okD [OF ok] fit
  by (auto simp: shrink_eq [OF ok fit] buf_ok_def length_content [OF ok] readable_ok [OF ok]
      kCheapPrepend_def content_def)

lemma shrink_stale_indices_witness:
  "okR (\<lambda>b'. \<not> buf_ok b') (shrink 0 sample_buffer)"
proof -
  have "8 + readableBytes sample_buffer + 0 \<le> vector_max"
    by (simp add: sample_buffer_ok vector_max_def)
  from shrink_stale_indices [OF sample_buffer_ok(1) this] show ?thesis
    by (rule okR_mono) (simp add: sample_buffer_def kCheapPrepend_def)
qed

end
