(* ===== verification/Decimals.thy ===== *)
theory Decimals
  imports Prelude
begin

text \<open>
  What the sources use of \<open>snprintf\<close>: the conversions \<open>%d\<close>, \<open>%u\<close>, \<open>%06d\<close> and the cut at the size of
  the target buffer, with the facts that make the printed names and times readable back.
\<close>

section \<open>Decimal digits\<close>

definition digit :: "nat \<Rightarrow> char" where
  "digit n = ''0123456789'' ! (n mod 10)"

fun decimal :: "nat \<Rightarrow> string" where
  "decimal n = (if n < 10 then [digit n] else decimal (n div 10) @ [digit (n mod 10)])"

declare decimal.simps [simp del]

definition digit_value :: "char \<Rightarrow> nat" where
  "digit_value c = length (takeWhile (\<lambda>d. d \<noteq> c) ''0123456789'')"

definition undecimal :: "string \<Rightarrow> nat" where
  "undecimal s = foldl (\<lambda>n c. 10 * n + digit_value c) 0 s"

definition is_digit :: "char \<Rightarrow> bool" where
  "is_digit c \<longleftrightarrow> c \<in> set ''0123456789''"

lemma less_10_cases:
  "(n::nat) < 10 \<Longrightarrow> n = 0 \<or> n = 1 \<or> n = 2 \<or> n = 3 \<or> n = 4 \<or> n = 5 \<or> n = 6 \<or> n = 7 \<or> n = 8 \<or> n = 9"
  by presburger

lemma digit_value_digit [simp]: "digit_value (digit n) = n mod 10"
  using less_10_cases [of "n mod 10"] by (auto simp: digit_def digit_value_def)

lemma digit_value_0 [simp]: "digit_value (CHR ''0'') = 0"
  by (simp add: digit_value_def)

lemma is_digit_digit [simp]: "is_digit (digit n)"
  using less_10_cases [of "n mod 10"] by (auto simp: digit_def is_digit_def)

lemma undecimal_snoc: "undecimal (s @ [c]) = 10 * undecimal s + digit_value c"
  by (simp add: undecimal_def)

lemma undecimal_decimal [simp]: "undecimal (decimal n) = n"
proof (induction n rule: decimal.induct)
  case (1 n)
  show ?case
  proof (cases "n < 10")
    case True
    then show ?thesis by (subst decimal.simps) (simp add: undecimal_def)
  next
    case False
    with 1 have "undecimal (decimal (n div 10)) = n div 10" by simp
    with False show ?thesis by (subst decimal.simps) (simp add: undecimal_snoc)
  qed
qed

lemma decimal_inject [simp]: "decimal m = decimal n \<longleftrightarrow> m = n"
  by (metis undecimal_decimal)

lemma decimal_digits: "c \<in> set (decimal n) \<Longrightarrow> is_digit c"
proof (induction n rule: decimal.induct)
  case (1 n)
  then show ?case by (subst (asm) (2) decimal.simps) (auto split: if_splits)
qed

lemma decimal_not_Nil [simp]: "decimal n \<noteq> []"
  by (subst decimal.simps) simp

lemma length_decimal: "0 < k \<Longrightarrow> n < 10 ^ k \<Longrightarrow> length (decimal n) \<le> k"
proof (induction n arbitrary: k rule: decimal.induct)
  case (1 n)
  show ?case
  proof (cases "n < 10")
    case True
    with 1 show ?thesis by (subst decimal.simps) simp
  next
    case False
    with 1 obtain j where k: "k = Suc j" by (cases k) auto
    with 1(3) have "n div 10 < 10 ^ j" by (simp add: less_mult_imp_div_less mult.commute)
    moreover from this False have "0 < j" by (cases j) auto
    ultimately have "length (decimal (n div 10)) \<le> j" using 1(1) False by simp
    with False k show ?thesis by (subst decimal.simps) simp
  qed
qed

section \<open>Conversions\<close>

definition pad0 :: "nat \<Rightarrow> string \<Rightarrow> string" where
  "pad0 w s = replicate (w - length s) (CHR ''0'') @ s"

text \<open>\<open>%d\<close> and \<open>%lld\<close>; with a width and the \<open>0\<close> flag the zeros go between the sign and the digits.\<close>

definition fmt_d :: "int \<Rightarrow> string" where
  "fmt_d i = (if i < 0 then ''-'' @ decimal (nat (- i)) else decimal (nat i))"

definition fmt_0d :: "nat \<Rightarrow> int \<Rightarrow> string" where
  "fmt_0d w i = (if i < 0 then ''-'' @ pad0 (w - 1) (decimal (nat (- i))) else pad0 w (decimal (nat i)))"

text \<open>What a buffer of \<open>n\<close> bytes holds after \<open>snprintf\<close> printed \<open>s\<close>.\<close>

definition snprintf :: "nat \<Rightarrow> string \<Rightarrow> string" where
  "snprintf n s = take (n - 1) s"

lemma snprintf_whole: "length s < n \<Longrightarrow> snprintf n s = s"
  by (simp add: snprintf_def)

lemma digit_0: "CHR ''0'' = digit 0"
  by (simp add: digit_def)

lemma undecimal_pad0 [simp]: "undecimal (pad0 w s) = undecimal s"
proof -
  have "foldl (\<lambda>n c. 10 * n + digit_value c) 0 (replicate k (CHR ''0'')) = 0" for k
    by (induction k) simp_all
  then show ?thesis by (simp add: undecimal_def pad0_def)
qed

lemma length_pad0: "length (pad0 w s) = max w (length s)"
  by (simp add: pad0_def)

lemma pad0_digits: "c \<in> set (pad0 w (decimal n)) \<Longrightarrow> is_digit c"
  by (auto simp: pad0_def decimal_digits digit_0)

lemma takeWhile_digits:
  "(\<And>c. c \<in> set s \<Longrightarrow> is_digit c) \<Longrightarrow> \<not> is_digit x \<Longrightarrow>
   takeWhile (\<lambda>c. c \<noteq> x) (s @ x # t) = s \<and> dropWhile (\<lambda>c. c \<noteq> x) (s @ x # t) = x # t"
  by (induction s) auto

end
