(* ===== verification/Doubles.thy ===== *)
theory Doubles
  imports Prelude Complex_Main
begin

text \<open>
  What the sources use of the C++ type \<open>double\<close> (IEEE 754 binary64): multiplication, the comparison
  with zero and the truncating conversion to \<open>int64_t\<close>. A finite value is a dyadic number
  \<open>m * 2 ^ e\<close>; a product is computed exactly and then rounded to 53 bits, ties to even.
\<close>

datatype double = Fin int int | Infty bool | NaN

fun nbits :: "nat \<Rightarrow> nat" where
  "nbits n = (if n = 0 then 0 else Suc (nbits (n div 2)))"

declare nbits.simps [simp del]

text \<open>\<open>\<bar>m\<bar> / 2 ^ k\<close> rounded to the nearest integer, ties to even, with the sign of \<open>m\<close>.\<close>

definition round_half_even :: "int \<Rightarrow> nat \<Rightarrow> int" where
  "round_half_even m k =
     (let q = \<bar>m\<bar> div 2 ^ k; r = \<bar>m\<bar> mod 2 ^ k
      in sgn m * (if 2 ^ k < 2 * r \<or> (2 ^ k = 2 * r \<and> odd q) then q + 1 else q))"

definition excess_bits :: "int \<Rightarrow> int \<Rightarrow> nat" where
  "excess_bits m e = nat (max (int (nbits (nat \<bar>m\<bar>)) - 53) (-1074 - e))"

definition double_round :: "int \<Rightarrow> int \<Rightarrow> double" where
  "double_round m e =
     (let k = excess_bits m e; m' = round_half_even m k; e' = e + int k
      in if m' \<noteq> 0 \<and> 1024 < int (nbits (nat \<bar>m'\<bar>)) + e' then Infty (m < 0) else Fin m' e')"

fun double_mul :: "double \<Rightarrow> double \<Rightarrow> double" where
  "double_mul NaN _ = NaN"
| "double_mul _ NaN = NaN"
| "double_mul (Infty s) (Infty t) = Infty (s \<noteq> t)"
| "double_mul (Infty s) (Fin m e) = (if m = 0 then NaN else Infty (s \<noteq> (m < 0)))"
| "double_mul (Fin m e) (Infty s) = (if m = 0 then NaN else Infty (s \<noteq> (m < 0)))"
| "double_mul (Fin a e) (Fin b f) = double_round (a * b) (e + f)"

fun double_positive :: "double \<Rightarrow> bool" where
  "double_positive (Fin m e) = (0 < m)"
| "double_positive (Infty neg) = (\<not> neg)"
| "double_positive NaN = False"

text \<open>\<open>static_cast<int64_t>\<close>: truncation towards zero, undefined outside the range.\<close>

fun double_to_int64 :: "double \<Rightarrow> int res" where
  "double_to_int64 (Fin m e) =
     chk64 (if 0 \<le> e then m * 2 ^ nat e else sgn m * (\<bar>m\<bar> div 2 ^ nat (- e)))"
| "double_to_int64 _ = Inl (Undefined ''double outside the int64 range'')"

section \<open>Values and rounding errors\<close>

definition dyadic :: "int \<Rightarrow> int \<Rightarrow> real" where
  "dyadic m e = of_int m * 2 powi e"

fun dval :: "double \<Rightarrow> real" where
  "dval (Fin m e) = dyadic m e"
| "dval _ = 0"

lemma nbits_bounds: "0 < n \<Longrightarrow> 2 ^ (nbits n - 1) \<le> n \<and> n < 2 ^ nbits n"
proof (induction n rule: nbits.induct)
  case (1 n)
  show ?case
  proof (cases "n = 1")
    case True
    then show ?thesis by (simp add: nbits.simps)
  next
    case False
    with 1 have "2 ^ (nbits (n div 2) - 1) \<le> n div 2 \<and> n div 2 < 2 ^ nbits (n div 2)" by simp
    moreover have "nbits n = Suc (nbits (n div 2))" using 1(2) by (subst nbits.simps) simp
    moreover have "nbits (n div 2) = Suc (nbits (n div 2) - 1)"
      using False 1(2) by (subst (1 2) nbits.simps) simp
    ultimately show ?thesis by (metis (no_types, lifting) diff_Suc_1 div_less_iff_less_mult
          less_eq_div_iff_mult_less_eq mult.commute pos2 power_Suc)
  qed
qed

lemma dyadic_0 [simp]: "dyadic 0 e = 0"
  by (simp add: dyadic_def)

lemma dyadic_nonneg: "0 \<le> e \<Longrightarrow> dyadic m e = of_int (m * 2 ^ nat e)"
  by (simp add: dyadic_def power_int_def)

lemma dyadic_shift: "dyadic m (e + int k) = dyadic (m * 2 ^ k) e"
  by (simp add: dyadic_def power_int_add)

lemma dyadic_neg: "e < 0 \<Longrightarrow> dyadic m e = of_int m / 2 ^ nat (- e)"
  by (simp add: dyadic_def power_int_def field_simps)

lemma abs_dyadic: "\<bar>dyadic m e\<bar> = dyadic \<bar>m\<bar> e"
  by (simp add: dyadic_def abs_mult)

text \<open>Rounding moves the scaled integer by at most half a unit of the last kept place.\<close>

lemma round_half_even_0 [simp]: "round_half_even m 0 = m"
  by (simp add: round_half_even_def Let_def sgn_mult_abs abs_mult_sgn mult.commute)

lemma round_half_even_error: "2 * \<bar>round_half_even m k * 2 ^ k - m\<bar> \<le> 2 ^ k"
proof -
  define q r where "q = \<bar>m\<bar> div 2 ^ k" and "r = \<bar>m\<bar> mod 2 ^ k"
  let ?a = "if 2 ^ k < 2 * r \<or> (2 ^ k = 2 * r \<and> odd q) then q + 1 else q"
  have m: "\<bar>m\<bar> = q * 2 ^ k + r" unfolding q_def r_def by (rule div_mult_mod_eq [symmetric])
  have r: "0 \<le> r" "r < 2 ^ k" by (simp_all add: r_def)
  have "2 * \<bar>?a * 2 ^ k - \<bar>m\<bar>\<bar> \<le> 2 ^ k"
    using r by (auto simp: m algebra_simps)
  moreover have "\<bar>sgn m * ?a * 2 ^ k - m\<bar> = \<bar>?a * 2 ^ k - \<bar>m\<bar>\<bar>"
  proof (cases "m = 0")
    case False
    have "sgn m * ?a * 2 ^ k - m = sgn m * (?a * 2 ^ k - \<bar>m\<bar>)"
      by (simp add: right_diff_distrib sgn_mult_abs del: of_int_mult)
    with False show ?thesis by (simp add: abs_mult abs_sgn_eq)
  qed (simp add: q_def r_def)
  ultimately have "2 * \<bar>sgn m * ?a * 2 ^ k - m\<bar> \<le> 2 ^ k" by (simp only:)
  then show ?thesis
    unfolding round_half_even_def Let_def q_def r_def .
qed

lemma round_half_even_nonneg: "0 \<le> m \<Longrightarrow> 0 \<le> round_half_even m k"
proof -
  have "0 \<le> \<bar>m\<bar> div 2 ^ k" by (simp add: pos_imp_zdiv_nonneg_iff)
  then show "0 \<le> m \<Longrightarrow> ?thesis"
    by (auto simp: round_half_even_def Let_def sgn_if)
qed

lemma nbits_dyadic:
  assumes "m \<noteq> 0"
  shows "2 powi (int (nbits (nat \<bar>m\<bar>)) - 1 + e) \<le> \<bar>dyadic m e\<bar>"
proof -
  let ?n = "nat \<bar>m\<bar>"
  have n: "0 < nbits ?n" using assms by (subst nbits.simps) simp
  have "2 ^ (nbits ?n - 1) \<le> ?n" using nbits_bounds [of ?n] assms by simp
  then have "real (2 ^ (nbits ?n - 1)) \<le> real ?n" by (simp only: of_nat_le_iff)
  then have "(2::real) ^ (nbits ?n - 1) \<le> of_int \<bar>m\<bar>" by simp
  moreover have "(2::real) powi (int (nbits ?n) - 1 + e) = 2 ^ (nbits ?n - 1) * 2 powi e"
  proof -
    have split: "int (nbits ?n) - 1 + e = int (nbits ?n - 1) + e" using n by simp
    show ?thesis unfolding split by (simp add: power_int_add)
  qed
  ultimately show ?thesis
    by (simp add: abs_dyadic) (simp add: dyadic_def mult_right_mono)
qed

lemma nbits_le_of_bound:
  assumes "m \<noteq> 0" and "\<bar>dyadic m e\<bar> < 2 powi j"
  shows "int (nbits (nat \<bar>m\<bar>)) + e \<le> j"
proof (rule ccontr)
  assume "\<not> ?thesis"
  then have "(2::real) powi j \<le> 2 powi (int (nbits (nat \<bar>m\<bar>)) - 1 + e)"
    by (intro power_int_increasing) auto
  with nbits_dyadic [OF assms(1), of e] assms(2) show False by linarith
qed

text \<open>Below \<open>2 ^ 53\<close> in magnitude a rounded product is off by at most one half.\<close>

lemma double_round_error:
  assumes "\<bar>dyadic m e\<bar> < 2 ^ 53"
  obtains m' e' where "double_round m e = Fin m' e'" "\<bar>dyadic m' e' - dyadic m e\<bar> \<le> 1 / 2"
    "m' = round_half_even m (excess_bits m e)"
proof -
  define k where "k = excess_bits m e"
  define m' where "m' = round_half_even m k"
  have kexp: "k = 0 \<or> e + int k \<le> 0"
  proof (cases "m = 0")
    case True
    then show ?thesis by (auto simp: k_def excess_bits_def nbits.simps)
  next
    case False
    with assms have "int (nbits (nat \<bar>m\<bar>)) + e \<le> 53"
      by (intro nbits_le_of_bound) (simp_all add: power_int_def)
    then show ?thesis by (auto simp: k_def excess_bits_def)
  qed
  have diff: "dyadic m' (e + int k) - dyadic m e = dyadic (m' * 2 ^ k - m) e"
    unfolding dyadic_shift by (simp add: dyadic_def algebra_simps)
  have err: "\<bar>dyadic m' (e + int k) - dyadic m e\<bar> \<le> 1 / 2"
  proof (cases "k = 0")
    case True
    then show ?thesis by (simp add: m'_def)
  next
    case False
    have "2 * \<bar>m' * 2 ^ k - m\<bar> \<le> 2 ^ k" unfolding m'_def by (rule round_half_even_error)
    then have "2 * of_int \<bar>m' * 2 ^ k - m\<bar> \<le> (2::real) ^ k"
      by (metis of_int_le_iff of_int_mult of_int_numeral of_int_power)
    then have "2 * dyadic \<bar>m' * 2 ^ k - m\<bar> e \<le> 2 ^ k * 2 powi e"
      by (simp add: dyadic_def mult_right_mono flip: mult.assoc)
    also have "\<dots> = 2 powi (e + int k)" by (simp add: power_int_add)
    also have "\<dots> \<le> 2 powi 0" using kexp False by (intro power_int_increasing) auto
    finally show ?thesis by (simp add: diff abs_dyadic)
  qed
  have "\<bar>dyadic m' (e + int k)\<bar> < 2 powi 54"
  proof -
    have "\<bar>dyadic m' (e + int k)\<bar> \<le> \<bar>dyadic m e\<bar> + 1 / 2" using err by linarith
    also have "\<dots> < 2 ^ 54" using assms by simp
    finally show ?thesis by (simp add: power_int_def)
  qed
  then have "m' \<noteq> 0 \<longrightarrow> int (nbits (nat \<bar>m'\<bar>)) + (e + int k) \<le> 54"
    by (blast intro: nbits_le_of_bound)
  then have "double_round m e = Fin m' (e + int k)"
    by (auto simp: double_round_def Let_def k_def m'_def)
  with err that show thesis by (simp add: m'_def k_def)
qed

lemma double_to_int64_error:
  assumes "\<bar>dyadic m e\<bar> < 2 ^ 63"
  obtains v where "double_to_int64 (Fin m e) = Inr v" "\<bar>of_int v - dyadic m e\<bar> < 1"
    "0 \<le> m \<longrightarrow> 0 \<le> v"
proof (cases "0 \<le> e")
  case True
  then have "dyadic m e = of_int (m * 2 ^ nat e)" by (rule dyadic_nonneg)
  moreover from this assms have "\<bar>m * 2 ^ nat e\<bar> < 2 ^ 63"
    by (simp only: flip: of_int_less_iff [where 'a = real]) simp
  then have "in_int64 (m * 2 ^ nat e)" by (auto simp: in_int64_def)
  ultimately show thesis using that [of "m * 2 ^ nat e"] True by simp
next
  case False
  define d where "d = (2::int) ^ nat (- e)"
  have d: "0 < d" by (simp add: d_def)
  let ?q = "\<bar>m\<bar> div d"
  have "?q * d + \<bar>m\<bar> mod d = \<bar>m\<bar>" by (rule div_mult_mod_eq)
  then have q: "?q * d \<le> \<bar>m\<bar>" "\<bar>m\<bar> < ?q * d + d"
    using pos_mod_bound [OF d, of "\<bar>m\<bar>"] pos_mod_sign [OF d, of "\<bar>m\<bar>"] by linarith+
  have q0: "0 \<le> ?q" using d by (simp add: pos_imp_zdiv_nonneg_iff)
  have dy: "dyadic m e = of_int m / of_int d" "dyadic \<bar>m\<bar> e = of_int \<bar>m\<bar> / of_int d"
    using False by (simp_all add: dyadic_neg d_def)
  have "of_int ?q \<le> dyadic \<bar>m\<bar> e" "dyadic \<bar>m\<bar> e < of_int ?q + 1"
  proof -
    have "real_of_int (?q * d) \<le> of_int \<bar>m\<bar>" "real_of_int \<bar>m\<bar> < of_int (?q * d + d)"
      using q by (simp_all only: of_int_le_iff of_int_less_iff)
    then show "of_int ?q \<le> dyadic \<bar>m\<bar> e" "dyadic \<bar>m\<bar> e < of_int ?q + 1"
      unfolding dy using d by (simp_all add: pos_le_divide_eq pos_divide_less_eq distrib_right)
  qed
  moreover have "of_int (sgn m * ?q) - dyadic m e = of_int (sgn m) * (of_int ?q - dyadic \<bar>m\<bar> e)"
    unfolding dy using d by (simp add: sgn_if field_simps)
  ultimately have err: "\<bar>of_int (sgn m * ?q) - dyadic m e\<bar> < 1"
    by (auto simp: abs_mult sgn_if)
  moreover have "in_int64 (sgn m * ?q)"
  proof -
    have "of_int ?q < (2::real) ^ 63"
      using \<open>of_int ?q \<le> dyadic \<bar>m\<bar> e\<close> assms by (simp add: abs_dyadic)
    then have "real_of_int ?q < real_of_int (2 ^ 63)" by simp
    then have "?q < 2 ^ 63" by (simp only: of_int_less_iff)
    with q0 show ?thesis by (auto simp: in_int64_def sgn_if)
  qed
  ultimately show thesis using that [of "sgn m * ?q"] False q0 by (simp add: d_def sgn_if)
qed

end
