(* ===== verification/Timestamps.thy ===== *)
theory Timestamps
  imports Decimals Doubles
begin

text \<open>
  Points in time (\<open>time/Timestamp.h\<close>, \<open>time/Timestamp.cpp\<close>): microseconds since the epoch in an
  \<open>int64_t\<close>, their order, their printed form and the addition of a number of seconds.
\<close>

section \<open>The type and its order\<close>

datatype timestamp = Timestamp (microSecondsSinceEpoch: int)

definition kMicroSecondsPerSecond :: int where
  "kMicroSecondsPerSecond = 1000 * 1000"

definition timestamp_less :: "timestamp \<Rightarrow> timestamp \<Rightarrow> bool" where
  "timestamp_less lhs rhs \<longleftrightarrow> microSecondsSinceEpoch lhs < microSecondsSinceEpoch rhs"

definition timestamp_eq :: "timestamp \<Rightarrow> timestamp \<Rightarrow> bool" where
  "timestamp_eq lhs rhs \<longleftrightarrow> microSecondsSinceEpoch lhs = microSecondsSinceEpoch rhs"

text \<open>\<open>operator<\<close> makes the timestamps a linear order, so the library's sorted lists apply to them.\<close>

instantiation timestamp :: linorder
begin

definition less_timestamp :: "timestamp \<Rightarrow> timestamp \<Rightarrow> bool" where
  "less_timestamp a b = timestamp_less a b"

definition less_eq_timestamp :: "timestamp \<Rightarrow> timestamp \<Rightarrow> bool" where
  "less_eq_timestamp a b \<longleftrightarrow> \<not> timestamp_less b a"

instance
  by standard (auto simp: less_timestamp_def less_eq_timestamp_def timestamp_less_def
      intro: timestamp.expand)

end

lemma timestamp_less_iff [simp]: "Timestamp a < Timestamp b \<longleftrightarrow> a < b"
  by (simp add: less_timestamp_def timestamp_less_def)

lemma timestamp_le_iff [simp]: "Timestamp a \<le> Timestamp b \<longleftrightarrow> a \<le> b"
  by (simp add: less_eq_timestamp_def timestamp_less_def not_less)

lemma timestamp_eq_iff: "timestamp_eq a b \<longleftrightarrow> a = b"
  by (auto simp: timestamp_eq_def intro: timestamp.expand)

section \<open>Operations\<close>

definition invalid_timestamp :: timestamp where
  "invalid_timestamp = Timestamp 0"

definition timestamp_valid :: "timestamp \<Rightarrow> bool" where
  "timestamp_valid t \<longleftrightarrow> 0 < microSecondsSinceEpoch t"

definition swap_timestamps :: "timestamp \<Rightarrow> timestamp \<Rightarrow> timestamp \<times> timestamp" where
  "swap_timestamps a b =
     (Timestamp (microSecondsSinceEpoch b), Timestamp (microSecondsSinceEpoch a))"

text \<open>\<open>Timestamp::now()\<close> on the \<open>timeval\<close> that \<open>gettimeofday\<close> stored.\<close>

definition timestamp_now :: "int \<times> int \<Rightarrow> timestamp res" where
  "timestamp_now tv =
     (let (tv_sec, tv_usec) = tv; seconds = tv_sec in
      bindR (chk64 (seconds * kMicroSecondsPerSecond)) (\<lambda>us.
      bindR (chk64 (us + tv_usec)) (\<lambda>x. Inr (Timestamp x))))"

definition timestamp_toString :: "timestamp \<Rightarrow> string" where
  "timestamp_toString t =
     (let seconds = microSecondsSinceEpoch t sdiv kMicroSecondsPerSecond;
          microseconds = microSecondsSinceEpoch t smod kMicroSecondsPerSecond
      in snprintf (32 - 1) (fmt_d seconds @ ''.'' @ fmt_0d 6 microseconds))"

definition addTime :: "timestamp \<Rightarrow> double \<Rightarrow> timestamp res" where
  "addTime t seconds =
     bindR (double_to_int64 (double_mul seconds (Fin kMicroSecondsPerSecond 0))) (\<lambda>delta.
     bindR (chk64 (microSecondsSinceEpoch t + delta)) (\<lambda>x. Inr (Timestamp x)))"

section \<open>Adding seconds\<close>

lemma addTime_Fin:
  assumes x: "\<bar>dyadic (m * kMicroSecondsPerSecond) e\<bar> < 2 ^ 53"
  obtains delta where "\<bar>of_int delta - dyadic (m * kMicroSecondsPerSecond) e\<bar> < 3 / 2"
    "0 \<le> m \<longrightarrow> 0 \<le> delta"
    "\<And>t. addTime t (Fin m e) =
       bindR (chk64 (microSecondsSinceEpoch t + delta)) (\<lambda>x. Inr (Timestamp x))"
proof -
  let ?x = "dyadic (m * kMicroSecondsPerSecond) e"
  from double_round_error [OF x] obtain m' e' where
    r: "double_round (m * kMicroSecondsPerSecond) e = Fin m' e'"
    and err: "\<bar>dyadic m' e' - ?x\<bar> \<le> 1 / 2"
    and m': "m' = round_half_even (m * kMicroSecondsPerSecond) (excess_bits (m * kMicroSecondsPerSecond) e)"
    by blast
  have "\<bar>dyadic m' e'\<bar> \<le> \<bar>?x\<bar> + 1 / 2" using err by linarith
  also have "\<dots> < 2 ^ 63" using x by simp
  finally obtain v where v: "double_to_int64 (Fin m' e') = Inr v" "\<bar>of_int v - dyadic m' e'\<bar> < 1"
    "0 \<le> m' \<longrightarrow> 0 \<le> v"
    by (rule double_to_int64_error)
  have "\<bar>of_int v - ?x\<bar> < 3 / 2" using err v(2) by linarith
  moreover have "0 \<le> m \<longrightarrow> 0 \<le> v"
    using v(3) m' by (auto simp: kMicroSecondsPerSecond_def intro!: round_half_even_nonneg)
  moreover have "addTime t (Fin m e) =
      bindR (chk64 (microSecondsSinceEpoch t + v)) (\<lambda>x. Inr (Timestamp x))" for t
    by (simp only: addTime_def double_mul.simps add_0_right r v(1) bindR.simps)
  ultimately show thesis using that by blast
qed

text \<open>C31. Adding a number of seconds that amounts to less than \<open>2 ^ 53\<close> microseconds (285 years)
  is within one and a half microseconds of the exact sum, despite the rounding of the product and
  the truncation to \<open>int64_t\<close>, and never goes back in time for a non-negative delay.\<close>

theorem addTime_accuracy:
  assumes "\<bar>dyadic (m * kMicroSecondsPerSecond) e\<bar> < 2 ^ 53"
    and "0 \<le> microSecondsSinceEpoch t" and "microSecondsSinceEpoch t < 2 ^ 62"
  shows "okR (\<lambda>t'. \<bar>of_int (microSecondsSinceEpoch t' - microSecondsSinceEpoch t)
        - dyadic m e * of_int kMicroSecondsPerSecond\<bar> < 3 / 2 \<and> (0 \<le> m \<longrightarrow> t \<le> t'))
    (addTime t (Fin m e))"
proof -
  from addTime_Fin [OF assms(1)] obtain d where
    d: "\<bar>of_int d - dyadic (m * kMicroSecondsPerSecond) e\<bar> < 3 / 2" "0 \<le> m \<longrightarrow> 0 \<le> d"
    and add: "addTime t (Fin m e) = bindR (chk64 (microSecondsSinceEpoch t + d)) (\<lambda>x. Inr (Timestamp x))"
    by metis
  have "\<bar>real_of_int d\<bar> < 2 ^ 53 + 3 / 2" using d(1) assms(1) by linarith
  then have "\<bar>real_of_int d\<bar> < real_of_int (2 ^ 54)" by simp
  then have "\<bar>d\<bar> < 2 ^ 54" by linarith
  with assms(2,3) have "in_int64 (microSecondsSinceEpoch t + d)" by (auto simp: in_int64_def)
  moreover have "dyadic (m * kMicroSecondsPerSecond) e = dyadic m e * of_int kMicroSecondsPerSecond"
    by (simp add: dyadic_def)
  ultimately show ?thesis
    unfolding add using d by (cases t) simp
qed

lemma addTime_accuracy_witness:
  "okR (\<lambda>t'. Timestamp 1600000000000000 \<le> t') (addTime (Timestamp 1600000000000000) (Fin 3 (-1)))"
proof -
  have "\<bar>dyadic (3 * kMicroSecondsPerSecond) (-1)\<bar> < 2 ^ 53"
    by (simp add: dyadic_def kMicroSecondsPerSecond_def)
  from addTime_accuracy [OF this, of "Timestamp 1600000000000000"] show ?thesis
    by (auto elim: okR_mono)
qed

section \<open>The printed form\<close>

text \<open>Reading a printed timestamp back: the digits before the dot, and those after it.\<close>

definition read_timestamp :: "string \<Rightarrow> int" where
  "read_timestamp s = int (undecimal (takeWhile (\<lambda>c. c \<noteq> CHR ''.'') s)) * kMicroSecondsPerSecond
     + int (undecimal (tl (dropWhile (\<lambda>c. c \<noteq> CHR ''.'') s)))"

lemma not_digit_dot: "\<not> is_digit (CHR ''.'')"
  by (simp add: is_digit_def)

text \<open>C34. \<open>toString\<close> of every timestamp from the epoch on is not cut by its 32-byte buffer and can be
  read back to exactly the same microsecond: seconds, a dot, and six digits.\<close>

theorem timestamp_toString_readback:
  assumes "0 \<le> microSecondsSinceEpoch t" and "in_int64 (microSecondsSinceEpoch t)"
  shows "read_timestamp (timestamp_toString t) = microSecondsSinceEpoch t
    \<and> length (timestamp_toString t) \<le> 20"
proof -
  let ?us = "microSecondsSinceEpoch t"
  let ?s = "nat (?us div 1000000)" and ?u = "nat (?us mod 1000000)"
  have sd: "?us sdiv 1000000 = int ?s" "?us smod 1000000 = int ?u"
    using assms(1) by (auto simp: signed_divide_int_def signed_modulo_int_def sgn_if)
  let ?p = "decimal ?s @ CHR ''.'' # pad0 6 (decimal ?u)"
  have "?s < 10 ^ 13" "?u < 10 ^ 6"
    using assms by (auto simp: in_int64_def nat_less_iff)
  then have "length (decimal ?s) \<le> 13" "length (decimal ?u) \<le> 6"
    by (auto intro: length_decimal)
  then have len: "length ?p \<le> 20" by (simp add: length_pad0)
  have "\<not> ?us mod 1000000 < 0" "\<not> ?us div 1000000 < 0" using assms(1) by simp_all
  then have str: "timestamp_toString t = ?p"
    using len by (simp add: timestamp_toString_def Let_def kMicroSecondsPerSecond_def sd fmt_d_def
        fmt_0d_def snprintf_whole)
  have "read_timestamp ?p = int ?s * 1000000 + int ?u"
    using takeWhile_digits [of "decimal ?s" "CHR ''.''" "pad0 6 (decimal ?u)",
        OF decimal_digits not_digit_dot]
    by (simp add: read_timestamp_def kMicroSecondsPerSecond_def)
  also have "\<dots> = ?us"
    using assms(1) pos_imp_zdiv_nonneg_iff [of 1000000 ?us] by simp
  finally show ?thesis using str len by simp
qed

lemma timestamp_toString_readback_witness:
  "read_timestamp (timestamp_toString (Timestamp 1600000000000042)) = 1600000000000042"
  using timestamp_toString_readback [of "Timestamp 1600000000000042"] by (simp add: in_int64_def)

end
