(* ===== verification/Intervals.thy ===== *)
theory Intervals
  imports Timestamps
begin

text \<open>
  \<open>timeDifference\<close> (\<open>time/Timestamp.h\<close>) and \<open>Timestamp::toFormattedString\<close> (\<open>time/Timestamp.cpp\<close>), with
  what they use of the C++ library: the conversion of an integer to \<open>double\<close>, the division of a
  \<open>double\<close> by a positive integer, and \<open>gmtime_r\<close>, whose result is an argument.
\<close>

section \<open>Division of doubles\<close>

definition double_of_int :: "int \<Rightarrow> double" where
  "double_of_int n = double_round n 0"

text \<open>
  The quotient is computed to at least 63 bits, with one more bit that tells whether there was a
  remainder, and then rounded; so the rounding is that of the exact quotient.
\<close>

definition quotient_bits :: "int \<Rightarrow> int \<Rightarrow> nat" where
  "quotient_bits a b = 64 + nbits (nat b) - nbits (nat \<bar>a\<bar>)"

fun double_div_pos :: "double \<Rightarrow> int \<Rightarrow> double" where
  "double_div_pos (Fin a e) b =
     (let k = quotient_bits a b; q = \<bar>a\<bar> * 2 ^ k div b; r = \<bar>a\<bar> * 2 ^ k mod b
      in double_round (sgn a * (2 * q + (if r = 0 then 0 else 1))) (e - int k - 1))"
| "double_div_pos (Infty s) b = Infty s"
| "double_div_pos NaN b = NaN"

text \<open>Rounding to 53 bits is off by at most one part in \<open>2 ^ 53\<close>.\<close>

lemma round_half_even_relative:
  assumes "m \<noteq> 0" and k: "k = nat (int (nbits (nat \<bar>m\<bar>)) - 53)"
  shows "\<bar>round_half_even m k * 2 ^ k - m\<bar> * 2 ^ 53 \<le> \<bar>m\<bar>"
proof (cases "k = 0")
  case True
  then show ?thesis by simp
next
  case False
  have "2 ^ (nbits (nat \<bar>m\<bar>) - 1) \<le> nat \<bar>m\<bar>" using nbits_bounds [of "nat \<bar>m\<bar>"] assms(1) by simp
  then have "int (2 ^ (nbits (nat \<bar>m\<bar>) - 1)) \<le> int (nat \<bar>m\<bar>)" by (simp only: of_nat_le_iff)
  moreover have "nbits (nat \<bar>m\<bar>) - 1 = k + 52" using False k by arith
  ultimately have "2 ^ k * 2 ^ 52 \<le> \<bar>m\<bar>" by (simp add: power_add)
  moreover have "2 * \<bar>round_half_even m k * 2 ^ k - m\<bar> \<le> 2 ^ k" by (rule round_half_even_error)
  ultimately show ?thesis by simp
qed

lemma double_round_relative:
  assumes m: "m \<noteq> 0" and normal: "-1074 - e \<le> int (nbits (nat \<bar>m\<bar>)) - 53" and range: "int (nbits (nat \<bar>m\<bar>)) + e \<le> 1023"
  obtains m' e' where "double_round m e = Fin m' e'" "\<bar>dyadic m' e' - dyadic m e\<bar> * 2 ^ 53 \<le> \<bar>dyadic m e\<bar>"
proof -
  define k m' where "k = excess_bits m e" and "m' = round_half_even m k"
  have k: "k = nat (int (nbits (nat \<bar>m\<bar>)) - 53)" using normal by (simp add: k_def excess_bits_def)
  have diff: "dyadic m' (e + int k) - dyadic m e = dyadic (m' * 2 ^ k - m) e"
    unfolding dyadic_shift by (simp add: dyadic_def algebra_simps)
  have "real_of_int (\<bar>m' * 2 ^ k - m\<bar> * 2 ^ 53) \<le> real_of_int \<bar>m\<bar>"
    unfolding m'_def of_int_le_iff by (rule round_half_even_relative [OF m k])
  then have "of_int \<bar>m' * 2 ^ k - m\<bar> * 2 ^ 53 * 2 powi e \<le> of_int \<bar>m\<bar> * (2::real) powi e"
    by (intro mult_right_mono) simp_all
  then have err: "\<bar>dyadic m' (e + int k) - dyadic m e\<bar> * 2 ^ 53 \<le> \<bar>dyadic m e\<bar>"
    unfolding diff abs_dyadic by (simp add: dyadic_def mult.commute mult.left_commute)
  have "\<bar>dyadic m e\<bar> < 2 powi (int (nbits (nat \<bar>m\<bar>)) + e)"
  proof -
    have "nat \<bar>m\<bar> < 2 ^ nbits (nat \<bar>m\<bar>)" using nbits_bounds [of "nat \<bar>m\<bar>"] m by simp
    then have "real (nat \<bar>m\<bar>) < real (2 ^ nbits (nat \<bar>m\<bar>))" by (simp only: of_nat_less_iff)
    then show ?thesis by (simp add: abs_dyadic) (simp add: dyadic_def power_int_add)
  qed
  also have "\<dots> \<le> 2 powi 1023" using range by (intro power_int_increasing) auto
  finally have "\<bar>dyadic m e\<bar> < 2 ^ 1023" by (simp add: power_int_def)
  moreover have "\<bar>dyadic m' (e + int k)\<bar> \<le> 2 * \<bar>dyadic m e\<bar>"
  proof -
    have "\<bar>dyadic m' (e + int k) - dyadic m e\<bar> * 1 \<le> \<bar>dyadic m' (e + int k) - dyadic m e\<bar> * 2 ^ 53"
      by (rule mult_left_mono) simp_all
    from order_trans [OF this err] have "\<bar>dyadic m' (e + int k) - dyadic m e\<bar> \<le> \<bar>dyadic m e\<bar>" by (simp only: mult_1_right)
    then show ?thesis by linarith
  qed
  ultimately have "\<bar>dyadic m' (e + int k)\<bar> < 2 powi 1024" by (simp add: power_int_def)
  then have "m' \<noteq> 0 \<longrightarrow> int (nbits (nat \<bar>m'\<bar>)) + (e + int k) \<le> 1024"
    by (blast intro: nbits_le_of_bound)
  then have "double_round m e = Fin m' (e + int k)"
    by (auto simp: double_round_def Let_def k_def m'_def)
  with err that show thesis by blast
qed

text \<open>The quotient that is rounded has at least 65 bits and is off by at most one unit of its last place.\<close>

lemma quotient_long:
  assumes "a \<noteq> 0" and b: "0 < b"
  shows "2 ^ 63 \<le> \<bar>a\<bar> * 2 ^ quotient_bits a b div b"
proof -
  let ?k = "quotient_bits a b" and ?na = "nbits (nat \<bar>a\<bar>)" and ?nb = "nbits (nat b)"
  have "2 ^ (?na - 1) \<le> nat \<bar>a\<bar>" "nat b < 2 ^ ?nb"
    using nbits_bounds [of "nat \<bar>a\<bar>"] nbits_bounds [of "nat b"] assms by simp_all
  then have "int (2 ^ (?na - 1)) \<le> int (nat \<bar>a\<bar>)" "int (nat b) < int (2 ^ ?nb)"
    by (simp_all only: of_nat_le_iff of_nat_less_iff)
  then have a: "2 ^ (?na - 1) \<le> \<bar>a\<bar>" and nb: "b \<le> 2 ^ ?nb" using b by simp_all
  have "0 < ?na" using assms(1) by (subst nbits.simps) simp
  moreover have "63 + y \<le> x - 1 + (64 + y - x)" if "0 < x" for x y :: nat using that by arith
  ultimately have exp: "63 + ?nb \<le> ?na - 1 + ?k" unfolding quotient_bits_def by blast
  have "2 ^ 63 * b \<le> 2 ^ 63 * 2 ^ ?nb" using nb by simp
  also have "\<dots> = 2 ^ (63 + ?nb)" by (simp only: power_add)
  also have "\<dots> \<le> 2 ^ (?na - 1 + ?k)" using exp by (intro power_increasing) simp_all
  also have "\<dots> = 2 ^ (?na - 1) * 2 ^ ?k" by (simp only: power_add)
  also have "\<dots> \<le> \<bar>a\<bar> * 2 ^ ?k" using a by simp
  finally have "2 ^ 63 * b div b \<le> \<bar>a\<bar> * 2 ^ ?k div b" using b by (intro zdiv_mono1)
  then show ?thesis using b by simp
qed

lemma quotient_close:
  fixes x b :: int
  assumes "0 < b"
  shows "\<bar>(2 * (x div b) + (if x mod b = 0 then 0 else 1)) * b - 2 * x\<bar> \<le> b"
proof -
  define q r where "q = x div b" and "r = x mod b"
  have x: "x = q * b + r" unfolding q_def r_def by (rule div_mult_mod_eq [symmetric])
  have r: "0 \<le> r" "r < b" using assms by (simp_all add: r_def)
  have "(2 * q + (if r = 0 then 0 else 1)) * b - 2 * x = (if r = 0 then 0 else b - 2 * r)"
    by (simp add: x algebra_simps)
  with r show ?thesis unfolding q_def [symmetric] r_def [symmetric] by (auto simp: abs_le_iff)
qed

lemma closeness:
  fixes z a w :: real
  assumes "\<bar>z - a\<bar> * 2 ^ 64 \<le> \<bar>z\<bar>" and "\<bar>a\<bar> \<le> 4 * 10 ^ 15"
  shows "\<bar>z\<bar> \<le> 5 * 10 ^ 15" and "\<bar>w\<bar> * 2 ^ 53 \<le> \<bar>z\<bar> \<Longrightarrow> \<bar>w + (z - a)\<bar> < 1 / 2"
proof -
  have "\<bar>z - a\<bar> * 18446744073709551616 \<le> \<bar>z\<bar>" "\<bar>a\<bar> \<le> 4000000000000000" using assms by simp_all
  moreover have "\<bar>z\<bar> \<le> \<bar>a\<bar> + \<bar>z - a\<bar>" "0 \<le> \<bar>z - a\<bar>" by simp_all
  moreover have "x \<le> 4000000000000001 \<and> d \<le> 1 / 1000"
    if "d * 18446744073709551616 \<le> x" "y \<le> 4000000000000000" "x \<le> y + d" "0 \<le> d" for x y d :: real
    using that by (intro conjI) linarith+
  ultimately have 1: "\<bar>z\<bar> \<le> 4000000000000001" "\<bar>z - a\<bar> \<le> 1 / 1000" by blast+
  then show "\<bar>z\<bar> \<le> 5 * 10 ^ 15" by simp
  assume "\<bar>w\<bar> * 2 ^ 53 \<le> \<bar>z\<bar>"
  then have "\<bar>w\<bar> * 9007199254740992 \<le> 4000000000000001" using 1(1) by simp
  then have "\<bar>w\<bar> \<le> 45 / 100" by linarith
  moreover have "\<bar>w + (z - a)\<bar> \<le> \<bar>w\<bar> + \<bar>z - a\<bar>" by (rule abs_triangle_ineq)
  ultimately show "\<bar>w + (z - a)\<bar> < 1 / 2" using 1(2) by linarith
qed

lemma double_div_pos_error:
  assumes b: "0 < b" "nbits (nat b) \<le> 64" and e: "0 \<le> e" and x: "\<bar>dyadic a e\<bar> \<le> 4 * 10 ^ 15"
  obtains m' e' where "double_div_pos (Fin a e) b = Fin m' e'" "\<bar>dyadic m' e' * of_int b - dyadic a e\<bar> < 1 / 2"
proof (cases "a = 0")
  case True
  then show thesis using that [of 0] by (simp add: double_round_def Let_def round_half_even_def)
next
  case False
  define k where "k = quotient_bits a b"
  define q where "q = 2 * (\<bar>a\<bar> * 2 ^ k div b) + (if \<bar>a\<bar> * 2 ^ k mod b = 0 then 0 else 1)"
  define m E where "m = sgn a * q" and "E = e - int k - 1"
  have q: "2 ^ 64 \<le> q" using quotient_long [OF False b(1)] by (simp add: q_def k_def)
  have m: "m \<noteq> 0" "\<bar>m\<bar> = q" using q False by (simp_all add: m_def abs_mult abs_sgn_eq sgn_eq_0_iff)
  have run: "double_div_pos (Fin a e) b = double_round m E"
    by (simp add: m_def q_def k_def E_def Let_def)
  have A: "dyadic a e = dyadic (a * 2 ^ (k + 1)) E"
    using dyadic_shift [of a E "k + 1"] by (simp add: E_def)
  let ?y = "dyadic m E"
  have "sgn a * (2 * (\<bar>a\<bar> * 2 ^ k)) = (sgn a * \<bar>a\<bar>) * (2 * 2 ^ k)" by (simp only: mult_ac)
  then have "a * 2 ^ (k + 1) = sgn a * (2 * (\<bar>a\<bar> * 2 ^ k))" by (simp add: sgn_mult_abs)
  then have sg: "m * b - a * 2 ^ (k + 1) = sgn a * (q * b - 2 * (\<bar>a\<bar> * 2 ^ k))"
    by (simp only: m_def right_diff_distrib mult.assoc)
  have "\<bar>m * b - a * 2 ^ (k + 1)\<bar> \<le> b"
    using quotient_close [OF b(1), of "\<bar>a\<bar> * 2 ^ k"] False unfolding sg abs_mult by (simp add: abs_sgn_eq q_def)
  moreover have "2 ^ 64 * b \<le> q * b" using q b(1) by simp
  ultimately have "real_of_int (\<bar>m * b - a * 2 ^ (k + 1)\<bar> * 2 ^ 64) \<le> real_of_int (q * b)"
    unfolding of_int_le_iff by simp
  then have "of_int (\<bar>m * b - a * 2 ^ (k + 1)\<bar> * 2 ^ 64) * 2 powi E \<le> of_int (q * b) * (2::real) powi E"
    by (rule mult_right_mono) simp
  moreover have "?y * of_int b - dyadic a e = dyadic (m * b - a * 2 ^ (k + 1)) E"
    unfolding A by (simp add: dyadic_def algebra_simps)
  ultimately have near: "\<bar>?y * of_int b - dyadic a e\<bar> * 2 ^ 64 \<le> \<bar>?y\<bar> * of_int b"
    by (simp add: abs_dyadic m(2)) (simp add: dyadic_def mult.commute mult.left_commute)
  have Y: "\<bar>?y * of_int b\<bar> = \<bar>?y\<bar> * of_int b" using b(1) by (simp add: abs_mult)
  note close = near [folded Y]
  have big: "\<bar>?y\<bar> * of_int b \<le> 5 * 10 ^ 15" using closeness(1) [OF close x] by (simp only: Y)
  have "1 \<le> real_of_int b" using b(1) by simp
  then have "\<bar>?y\<bar> * 1 \<le> \<bar>?y\<bar> * of_int b" by (intro mult_left_mono) simp_all
  with big have "\<bar>?y\<bar> < 2 powi 60" by (simp add: power_int_def)
  from nbits_le_of_bound [OF m(1) this] have range: "int (nbits (nat \<bar>m\<bar>)) + E \<le> 1023" by simp
  have "k \<le> 128" using b(2) by (simp add: k_def quotient_bits_def)
  then have "-1074 - E \<le> int (nbits (nat \<bar>m\<bar>)) - 53" using e by (simp add: E_def)
  from double_round_relative [OF m(1) this range] obtain m' e' where
    r: "double_round m E = Fin m' e'" "\<bar>dyadic m' e' - ?y\<bar> * 2 ^ 53 \<le> \<bar>?y\<bar>" by blast
  have "\<bar>dyadic m' e' - ?y\<bar> * 2 ^ 53 * of_int b \<le> \<bar>?y\<bar> * of_int b" using r(2) b(1) by (intro mult_right_mono) simp_all
  then have "\<bar>(dyadic m' e' - ?y) * of_int b\<bar> * 2 ^ 53 \<le> \<bar>?y\<bar> * of_int b"
    using b(1) by (simp add: abs_mult mult.commute mult.left_commute)
  note closeness(2) [OF close x this [folded Y]]
  moreover have "dyadic m' e' * of_int b - dyadic a e = (dyadic m' e' - ?y) * of_int b + (?y * of_int b - dyadic a e)"
    by (simp add: algebra_simps)
  ultimately have "\<bar>dyadic m' e' * of_int b - dyadic a e\<bar> < 1 / 2" by (simp only:)
  with r(1) run that show thesis by simp
qed

section \<open>timeDifference\<close>

definition timeDifference :: "timestamp \<Rightarrow> timestamp \<Rightarrow> double res" where
  "timeDifference high low =
     bindR (chk64 (microSecondsSinceEpoch high - microSecondsSinceEpoch low)) (\<lambda>diff.
     Inr (double_div_pos (double_of_int diff) kMicroSecondsPerSecond))"

lemma double_of_int_exact:
  assumes "\<bar>n\<bar> < 2 ^ 53"
  shows "double_of_int n = Fin n 0"
proof -
  have "int (nbits (nat \<bar>n\<bar>)) \<le> 53"
  proof (cases "n = 0")
    case False
    have "real_of_int \<bar>n\<bar> < real_of_int (2 ^ 53)" using assms by (simp only: of_int_less_iff)
    then have "\<bar>dyadic n 0\<bar> < 2 powi 53" by (simp add: dyadic_def power_int_def)
    from nbits_le_of_bound [OF False this] show ?thesis by simp
  qed (simp add: nbits.simps)
  then show ?thesis by (simp add: double_of_int_def double_round_def excess_bits_def Let_def)
qed

text \<open>C32. The difference of two points in time at most \<open>4 * 10 ^ 15\<close> microseconds (126 years) apart is a
  number of seconds from which the microseconds can be recovered by rounding: it is off by less than
  half a microsecond, as the comment in the source promises for 100 years.\<close>

theorem timeDifference_accuracy:
  assumes "\<bar>microSecondsSinceEpoch high - microSecondsSinceEpoch low\<bar> \<le> 4 * 10 ^ 15"
  shows "okR (\<lambda>r. (\<exists>m e. r = Fin m e)
      \<and> \<bar>dval r * 1000000 - of_int (microSecondsSinceEpoch high - microSecondsSinceEpoch low)\<bar> < 1 / 2)
    (timeDifference high low)"
proof -
  let ?d = "microSecondsSinceEpoch high - microSecondsSinceEpoch low"
  have "real_of_int \<bar>?d\<bar> \<le> real_of_int (4 * 10 ^ 15)" using assms by (simp only: of_int_le_iff)
  then have "\<bar>dyadic ?d 0\<bar> \<le> 4 * 10 ^ 15" by (simp add: dyadic_def)
  moreover have "nbits (nat kMicroSecondsPerSecond) \<le> 64" by (simp add: kMicroSecondsPerSecond_def nbits.simps)
  ultimately obtain m e where q: "double_div_pos (Fin ?d 0) kMicroSecondsPerSecond = Fin m e"
    "\<bar>dyadic m e * of_int kMicroSecondsPerSecond - dyadic ?d 0\<bar> < 1 / 2"
    using double_div_pos_error [of kMicroSecondsPerSecond 0 ?d] by (auto simp: kMicroSecondsPerSecond_def)
  have "chk64 ?d = Inr ?d" using assms by (auto simp: chk64_Inr_iff in_int64_def abs_le_iff)
  moreover have "double_of_int ?d = Fin ?d 0" using assms by (intro double_of_int_exact) simp
  ultimately show ?thesis using q by (simp add: timeDifference_def) (simp add: kMicroSecondsPerSecond_def dyadic_def)
qed

lemma timeDifference_accuracy_witness:
  "okR (\<lambda>r. (\<exists>m e. r = Fin m e) \<and> \<bar>dval r * 1000000 - 1\<bar> < 1 / 2) (timeDifference (Timestamp 1600000000000001) (Timestamp 1600000000000000))"
  using timeDifference_accuracy [of "Timestamp 1600000000000001" "Timestamp 1600000000000000"] by simp

end
