(* ===== verification/Calendar.thy ===== *)
theory Calendar
  imports Intervals
begin

text \<open>
  \<open>Timestamp::toFormattedString\<close> (\<open>time/Timestamp.cpp\<close>): a point in time as a date and a time of day
  (UTC). It uses \<open>gmtime_r\<close> of the C library, which is modelled on the Gregorian calendar, counting
  years up or down from 1970.
\<close>

section \<open>gmtime\<close>

record tm =
  tm_year :: int
  tm_mon :: int
  tm_mday :: int
  tm_hour :: int
  tm_min :: int
  tm_sec :: int

definition is_leap :: "int \<Rightarrow> bool" where
  "is_leap y \<longleftrightarrow> 4 dvd y \<and> (\<not> 100 dvd y \<or> 400 dvd y)"

definition year_len :: "int \<Rightarrow> nat" where
  "year_len y = (if is_leap y then 366 else 365)"

definition month_lens :: "int \<Rightarrow> nat list" where
  "month_lens y = [31, if is_leap y then 29 else 28, 31, 30, 31, 30, 31, 31, 30, 31, 30, 31]"

lemma year_len_pos: "0 < year_len y"
  by (simp add: year_len_def)

text \<open>The year and the day in it, \<open>d\<close> days after the start of year \<open>y\<close>, or \<open>d\<close> days before it.\<close>

function year_up :: "int \<Rightarrow> nat \<Rightarrow> int \<times> nat" where
  "year_up y d = (if d < year_len y then (y, d) else year_up (y + 1) (d - year_len y))"
  by auto
termination by (relation "measure snd") (auto simp: year_len_def)

function year_down :: "int \<Rightarrow> nat \<Rightarrow> int \<times> nat" where
  "year_down y d = (if d \<le> year_len (y - 1) then (y - 1, year_len (y - 1) - d)
     else year_down (y - 1) (d - year_len (y - 1)))"
  by auto
termination by (relation "measure snd") (auto simp: year_len_def)

declare year_up.simps [simp del] year_down.simps [simp del]

fun month_of :: "nat list \<Rightarrow> nat \<Rightarrow> nat \<times> nat" where
  "month_of [] d = (0, d)"
| "month_of (l # ls) d = (if d < l then (0, d) else let (m, r) = month_of ls (d - l) in (Suc m, r))"

definition gmtime_r :: "int \<Rightarrow> tm" where
  "gmtime_r seconds =
     (let days = seconds div 86400; rest = seconds mod 86400;
          (y, yday) = (if 0 \<le> days then year_up 1970 (nat days) else year_down 1970 (nat (- days)));
          (mon, mday) = month_of (month_lens y) yday
      in \<lparr>tm_year = y - 1900, tm_mon = int mon, tm_mday = int mday + 1,
          tm_hour = rest div 3600, tm_min = rest mod 3600 div 60, tm_sec = rest mod 60\<rparr>)"

section \<open>toFormattedString\<close>

definition fmt_4d :: "int \<Rightarrow> string" where
  "fmt_4d i = replicate (4 - length (fmt_d i)) (CHR '' '') @ fmt_d i"

definition timestamp_toFormattedString :: "timestamp \<Rightarrow> string" where
  "timestamp_toFormattedString t =
     (let seconds = microSecondsSinceEpoch t sdiv kMicroSecondsPerSecond;
          microseconds = microSecondsSinceEpoch t smod kMicroSecondsPerSecond;
          tm_time = gmtime_r seconds
      in snprintf 64 (fmt_4d (tm_year tm_time + 1900) @ fmt_0d 2 (tm_mon tm_time + 1) @ fmt_0d 2 (tm_mday tm_time)
           @ '' '' @ fmt_0d 2 (tm_hour tm_time) @ '':'' @ fmt_0d 2 (tm_min tm_time) @ '':''
           @ fmt_0d 2 (tm_sec tm_time) @ ''.'' @ fmt_0d 6 microseconds))"

section \<open>Counting days\<close>

definition days_before :: "int \<Rightarrow> int" where
  "days_before y = 365 * (y - 1970) + (y - 1) div 4 - (y - 1) div 100 + (y - 1) div 400 - 477"

lemma div_step:
  fixes y c :: int
  assumes c: "0 < c"
  shows "y div c = (y - 1) div c + (if c dvd y then 1 else 0)"
proof -
  define q r where "q = (y - 1) div c" and "r = (y - 1) mod c"
  have y: "y = c * q + r + 1" using div_mult_mod_eq [of "y - 1" c] by (simp add: q_def r_def mult.commute)
  have r: "0 \<le> r" "r < c" using c by (simp_all add: r_def)
  show ?thesis
  proof (cases "r + 1 = c")
    case True
    then have "y = c * (q + 1)" by (simp add: y distrib_left)
    then have "y div c = q + 1" "c dvd y" using c by (metis nonzero_mult_div_cancel_left less_irrefl, metis dvd_triv_left)
    then show ?thesis by (simp add: q_def)
  next
    case False
    then have "y div c = q" using y r c by (intro int_div_pos_eq [of _ _ _ "r + 1"]) auto
    moreover have "\<not> c dvd y"
    proof
      assume "c dvd y"
      moreover have "y = c * q + (r + 1)" by (simp add: y)
      ultimately have "c dvd r + 1" using dvd_add_right_iff [of c "c * q" "r + 1"] by simp
      then show False using r False zdvd_not_zless [of "r + 1" c] by simp
    qed
    ultimately show ?thesis by (simp add: q_def)
  qed
qed

lemma leap_sum:
  fixes a b c x :: int
  assumes "a = a' + (if p then 1 else 0)" and "b = b' + (if q then 1 else 0)" and "c = c' + (if r then 1 else 0)"
    and "q \<Longrightarrow> p" and "r \<Longrightarrow> q"
  shows "x + 365 + a - b + c - 477 = x + a' - b' + c' - 477 + int (if p \<and> (\<not> q \<or> r) then 366 else 365)"
  using assms by (cases p; cases q; cases r) simp_all

lemma days_before_next: "days_before (y + 1) = days_before y + int (year_len y)"
proof -
  have "days_before (y + 1) = 365 * (y - 1970) + 365 + y div 4 - y div 100 + y div 400 - 477"
    by (simp add: days_before_def)
  also have "\<dots> = days_before y + int (year_len y)"
    unfolding days_before_def year_len_def is_leap_def
  proof (rule leap_sum)
    show "4 dvd y" if "100 dvd y" using that by (rule dvd_trans [rotated]) simp
    show "100 dvd y" if "400 dvd y" using that by (rule dvd_trans [rotated]) simp
  qed (rule div_step, simp)+
  finally show ?thesis .
qed

lemma days_before_mono: "days_before y \<le> days_before (y + int n)"
proof (induction n)
  case (Suc n)
  then show ?case using days_before_next [of "y + int n"] by (simp add: add.assoc add.commute [of 1])
qed simp

lemma year_up_spec:
  "year_up y d = (y', r) \<Longrightarrow> days_before y + int d = days_before y' + int r \<and> r < year_len y' \<and> y \<le> y'"
proof (induction y d rule: year_up.induct)
  case (1 y d)
  show ?case
  proof (cases "d < year_len y")
    case True
    then show ?thesis using 1(2) by (subst (asm) year_up.simps) simp
  next
    case False
    then have "year_up (y + 1) (d - year_len y) = (y', r)" using 1(2) by (subst (asm) year_up.simps) simp
    from 1(1) [OF False this] False show ?thesis using days_before_next [of y] by auto
  qed
qed

lemma sum_month_lens: "sum_list (month_lens y) = year_len y" "length (month_lens y) = 12"
  "l \<in> set (month_lens y) \<Longrightarrow> l \<le> 31"
  by (auto simp: month_lens_def year_len_def split: if_splits)

lemma month_of_spec:
  "d < sum_list ls \<Longrightarrow> month_of ls d = (m, r) \<Longrightarrow> m < length ls \<and> r < ls ! m \<and> sum_list (take m ls) + r = d"
proof (induction ls d arbitrary: m r rule: month_of.induct)
  case (2 l ls d)
  show ?case
  proof (cases "d < l")
    case True
    with 2 show ?thesis by auto
  next
    case False
    obtain m' r' where m': "month_of ls (d - l) = (m', r')" by force
    with False 2(3) have "m = Suc m'" "r = r'" by simp_all
    moreover have "m' < length ls \<and> r' < ls ! m' \<and> sum_list (take m' ls) + r' = d - l"
      using 2(2) False by (intro 2(1) [OF False _ m']) simp
    ultimately show ?thesis using False by (auto simp: add.assoc)
  qed
qed simp

text \<open>What \<open>gmtime_r\<close> answers from the epoch to the end of the year 9999.\<close>

lemma gmtime_spec:
  assumes s: "0 \<le> s" "s < 253402300800"
  obtains y mon mday where "gmtime_r s = \<lparr>tm_year = y - 1900, tm_mon = int mon, tm_mday = int mday + 1,
      tm_hour = s mod 86400 div 3600, tm_min = s mod 86400 mod 3600 div 60, tm_sec = s mod 86400 mod 60\<rparr>"
    and "1970 \<le> y" "y \<le> 9999" "mon < 12" "mday < 31"
    and "days_before y + int (sum_list (take mon (month_lens y)) + mday) = s div 86400"
proof -
  obtain y d where up: "year_up 1970 (nat (s div 86400)) = (y, d)" by force
  obtain mon mday where m: "month_of (month_lens y) d = (mon, mday)" by force
  have pos: "0 \<le> s div 86400" using s by (simp add: pos_imp_zdiv_nonneg_iff)
  have d: "days_before y + int d = s div 86400" "d < year_len y" "1970 \<le> y"
    using year_up_spec [OF up] pos by (simp_all add: days_before_def)
  have "d < sum_list (month_lens y)" using d(2) by (simp add: sum_month_lens(1))
  from month_of_spec [OF this m] have mo: "mon < 12" "mday < month_lens y ! mon"
    "sum_list (take mon (month_lens y)) + mday = d" by (simp_all add: sum_month_lens(2))
  have "month_lens y ! mon \<le> 31" by (rule sum_month_lens(3) [of _ y]) (simp add: mo(1) sum_month_lens(2))
  with mo(2) have "mday < 31" by simp
  moreover have "y \<le> 9999"
  proof (rule ccontr)
    assume "\<not> y \<le> 9999"
    then have "days_before 10000 \<le> days_before y" using days_before_mono [of 10000 "nat (y - 10000)"] by simp
    moreover have "days_before 10000 = 2932897" by (simp add: days_before_def)
    moreover have "s div 86400 < 2932897" using s(2) by (simp add: div_less_iff_less_mult)
    ultimately show False using d(1) by simp
  qed
  moreover have "gmtime_r s = \<lparr>tm_year = y - 1900, tm_mon = int mon, tm_mday = int mday + 1,
      tm_hour = s mod 86400 div 3600, tm_min = s mod 86400 mod 3600 div 60, tm_sec = s mod 86400 mod 60\<rparr>"
    using pos by (simp add: gmtime_r_def up m Let_def)
  ultimately show thesis using that d mo by simp
qed

section \<open>Reading it back\<close>

text \<open>The field of \<open>w\<close> characters at position \<open>i\<close>, and the time that the fields stand for.\<close>

definition num :: "nat \<Rightarrow> nat \<Rightarrow> string \<Rightarrow> nat" where
  "num i w s = undecimal (take w (drop i s))"

definition read_formatted :: "string \<Rightarrow> int" where
  "read_formatted s =
     (let y = int (num 0 4 s);
          days = days_before y + int (sum_list (take (num 4 2 s - 1) (month_lens y))) + int (num 6 2 s) - 1
      in (((days * 24 + int (num 9 2 s)) * 60 + int (num 12 2 s)) * 60 + int (num 15 2 s)) * 1000000 + int (num 18 6 s))"

lemma length_decimal_exact: "10 ^ k \<le> n \<Longrightarrow> n < 10 ^ Suc k \<Longrightarrow> length (decimal n) = Suc k"
proof (induction k arbitrary: n)
  case 0
  then show ?case by (subst decimal.simps) simp
next
  case (Suc k)
  have "10 ^ k \<le> n div 10" using Suc.prems(1) by (simp add: less_eq_div_iff_mult_less_eq mult.commute)
  moreover have "n div 10 < 10 ^ Suc k" using Suc.prems(2) by (simp add: div_less_iff_less_mult mult.commute)
  ultimately have "length (decimal (n div 10)) = Suc k" by (rule Suc.IH)
  moreover have "\<not> n < 10"
    using Suc.prems(1) one_le_power [of "10::nat" k] unfolding power_Suc by linarith
  ultimately show ?case by (subst decimal.simps) simp
qed

lemma fixed_field: "0 < w \<Longrightarrow> n < 10 ^ w \<Longrightarrow> length (pad0 w (decimal n)) = w"
  using length_decimal [of w n] by (simp add: length_pad0)

lemma fields_read:
  assumes "length a = 4" "length b = 2" "length c = 2" "length d = 2" "length e = 2" "length f = 2" "length g = 6"
  defines "s \<equiv> a @ b @ c @ '' '' @ d @ '':'' @ e @ '':'' @ f @ ''.'' @ g"
  shows "num 0 4 s = undecimal a" "num 4 2 s = undecimal b" "num 6 2 s = undecimal c" "num 9 2 s = undecimal d"
    "num 12 2 s = undecimal e" "num 15 2 s = undecimal f" "num 18 6 s = undecimal g" "length s = 24"
  using assms(1-7) by (simp_all add: num_def s_def)

text \<open>C33. \<open>toFormattedString\<close> prints every point in time from the epoch to the end of the year 9999 as a
  date, a time of day and microseconds, in 24 characters from which exactly that point can be read back.\<close>

theorem toFormattedString_readback:
  assumes "0 \<le> microSecondsSinceEpoch t" and "microSecondsSinceEpoch t < 253402300800000000"
  shows "read_formatted (timestamp_toFormattedString t) = microSecondsSinceEpoch t
    \<and> length (timestamp_toFormattedString t) = 24"
proof -
  let ?us = "microSecondsSinceEpoch t"
  define s u where "s = ?us div 1000000" and "u = ?us mod 1000000"
  have us: "?us = s * 1000000 + u" unfolding s_def u_def by (rule div_mult_mod_eq [symmetric])
  have u: "0 \<le> u" "u < 1000000" by (simp_all add: u_def)
  have s: "0 \<le> s" "s < 253402300800"
    using assms by (simp_all add: s_def pos_imp_zdiv_nonneg_iff div_less_iff_less_mult)
  have sd: "?us sdiv 1000000 = s" "?us smod 1000000 = u"
    using assms(1) by (auto simp: signed_divide_int_def signed_modulo_int_def sgn_if s_def u_def)
  from gmtime_spec [OF s] obtain y mon mday where tm: "gmtime_r s = \<lparr>tm_year = y - 1900, tm_mon = int mon, tm_mday = int mday + 1,
      tm_hour = s mod 86400 div 3600, tm_min = s mod 86400 mod 3600 div 60, tm_sec = s mod 86400 mod 60\<rparr>"
    and y: "1970 \<le> y" "y \<le> 9999" and m: "mon < 12" "mday < 31"
    and days: "days_before y + int (sum_list (take mon (month_lens y)) + mday) = s div 86400" by metis
  define h mi sec where "h = s mod 86400 div 3600" and "mi = s mod 86400 mod 3600 div 60" and "sec = s mod 86400 mod 60"
  have hms: "0 \<le> h" "h < 24" "0 \<le> mi" "mi < 60" "0 \<le> sec" "sec < 60"
    by (simp_all add: h_def mi_def sec_def pos_imp_zdiv_nonneg_iff div_less_iff_less_mult)
  have time: "((s div 86400 * 24 + h) * 60 + mi) * 60 + sec = s"
  proof -
    have "s = s div 86400 * 86400 + s mod 86400" by (rule div_mult_mod_eq [symmetric])
    moreover have "s mod 86400 = h * 3600 + s mod 86400 mod 3600" unfolding h_def by (rule div_mult_mod_eq [symmetric])
    moreover have "s mod 86400 mod 3600 = mi * 60 + s mod 86400 mod 3600 mod 60"
      unfolding mi_def by (rule div_mult_mod_eq [symmetric])
    moreover have "s mod 86400 mod 3600 mod 60 = sec" unfolding sec_def by (rule mod_mod_cancel) simp
    moreover have "((q * 24 + i) * 60 + j) * 60 + k = n"
      if "n = q * 86400 + x" "x = i * 3600 + y" "y = j * 60 + z" "z = k" for n q x y z i j k :: int
      using that by simp
    ultimately show ?thesis by blast
  qed
  let ?p = "decimal (nat y) @ pad0 2 (decimal (mon + 1)) @ pad0 2 (decimal (mday + 1)) @ '' '' @ pad0 2 (decimal (nat h)) @ '':''
    @ pad0 2 (decimal (nat mi)) @ '':'' @ pad0 2 (decimal (nat sec)) @ ''.'' @ pad0 6 (decimal (nat u))"
  have len: "length (decimal (nat y)) = 4" "length (pad0 2 (decimal (mon + 1))) = 2" "length (pad0 2 (decimal (mday + 1))) = 2"
    "length (pad0 2 (decimal (nat h))) = 2" "length (pad0 2 (decimal (nat mi))) = 2" "length (pad0 2 (decimal (nat sec))) = 2"
    "length (pad0 6 (decimal (nat u))) = 6"
    using length_decimal_exact [of 3 "nat y"] y m hms u by (simp_all add: fixed_field)
  note p = fields_read [OF len]
  have "nat (int mon + 1) = mon + 1" "nat (int mday + 1) = mday + 1" by simp_all
  then have str: "timestamp_toFormattedString t = ?p"
    using y hms u len p(8) unfolding timestamp_toFormattedString_def kMicroSecondsPerSecond_def Let_def
    by (simp add: sd tm fmt_4d_def fmt_d_def fmt_0d_def snprintf_def h_def [symmetric] mi_def [symmetric] sec_def [symmetric])
  have "read_formatted ?p = (((s div 86400 * 24 + h) * 60 + mi) * 60 + sec) * 1000000 + u"
    unfolding read_formatted_def p Let_def days [symmetric] using y hms u by simp
  then show ?thesis unfolding str time us using p(8) by simp
qed

lemma toFormattedString_readback_witness:
  "read_formatted (timestamp_toFormattedString (Timestamp 1600000000000042)) = 1600000000000042"
  using toFormattedString_readback [of "Timestamp 1600000000000042"] by simp

end
