(* ===== verification/Channels.thy ===== *)
theory Channels
  imports Timestamps
begin

unbundle bit_operations_syntax

text \<open>
  A \<open>Channel\<close> (\<open>Channel.h\<close>, \<open>Channel.cpp\<close>): one file descriptor, the events its user asked for, the
  events the poller found, its slot in the poller's array and up to four callbacks. The channels
  live in a heap (an address names a \<open>ChannelPtr\<close>); \<open>'cb\<close> names the callbacks a channel can hold.
\<close>

section \<open>Event masks\<close>

definition POLLIN :: "32 word" where "POLLIN = 0x001"
definition POLLPRI :: "32 word" where "POLLPRI = 0x002"
definition POLLOUT :: "32 word" where "POLLOUT = 0x004"
definition POLLERR :: "32 word" where "POLLERR = 0x008"
definition POLLHUP :: "32 word" where "POLLHUP = 0x010"
definition POLLNVAL :: "32 word" where "POLLNVAL = 0x020"
definition POLLRDHUP :: "32 word" where "POLLRDHUP = 0x2000"

lemmas poll_masks = POLLIN_def POLLPRI_def POLLOUT_def POLLERR_def POLLHUP_def POLLNVAL_def
  POLLRDHUP_def

definition kNoneEvent :: "32 word" where
  "kNoneEvent = 0"

definition kReadEvent :: "32 word" where
  "kReadEvent = POLLIN OR POLLPRI"

definition kWriteEvent :: "32 word" where
  "kWriteEvent = POLLOUT"

lemmas event_masks = kNoneEvent_def kReadEvent_def kWriteEvent_def

section \<open>The class\<close>

record 'cb channel =
  ch_loop :: nat
  ch_fd :: int
  ch_events :: "32 word"
  ch_revents :: "32 word"
  ch_index :: int
  eventHandling :: bool
  readCallback :: "'cb option"
  writeCallback :: "'cb option"
  errorCallback :: "'cb option"
  closeCallback :: "'cb option"

definition new_channel :: "nat \<Rightarrow> int \<Rightarrow> 'cb channel" where
  "new_channel loop f = \<lparr>ch_loop = loop, ch_fd = f, ch_events = 0, ch_revents = 0, ch_index = -1,
     eventHandling = False, readCallback = None, writeCallback = None, errorCallback = None,
     closeCallback = None\<rparr>"

definition setReadCallBack :: "'cb \<Rightarrow> 'cb channel \<Rightarrow> 'cb channel" where
  "setReadCallBack cb c = c\<lparr>readCallback := Some cb\<rparr>"

definition setWriteCallBack :: "'cb \<Rightarrow> 'cb channel \<Rightarrow> 'cb channel" where
  "setWriteCallBack cb c = c\<lparr>writeCallback := Some cb\<rparr>"

definition setErrorCallBack :: "'cb \<Rightarrow> 'cb channel \<Rightarrow> 'cb channel" where
  "setErrorCallBack cb c = c\<lparr>errorCallback := Some cb\<rparr>"

definition setCloseCallBack :: "'cb \<Rightarrow> 'cb channel \<Rightarrow> 'cb channel" where
  "setCloseCallBack cb c = c\<lparr>closeCallback := Some cb\<rparr>"

definition isNoneEvent :: "'cb channel \<Rightarrow> bool" where
  "isNoneEvent c \<longleftrightarrow> ch_events c = kNoneEvent"

definition isWriting :: "'cb channel \<Rightarrow> bool" where
  "isWriting c \<longleftrightarrow> ch_events c AND kWriteEvent \<noteq> 0"

text \<open>
  The four ways the interest set changes, before \<open>update()\<close> is called. The first two assign the
  whole mask; only \<open>disableWriting\<close> keeps the other bits.
\<close>

datatype interest_op = EnableReading | EnableWriting | DisableWriting | DisableAll

fun new_events :: "interest_op \<Rightarrow> 32 word \<Rightarrow> 32 word" where
  "new_events EnableReading ev = kReadEvent"
| "new_events EnableWriting ev = kWriteEvent"
| "new_events DisableWriting ev = ev AND NOT kWriteEvent"
| "new_events DisableAll ev = kNoneEvent"

definition legal_events :: "32 word set" where
  "legal_events = {kNoneEvent, kReadEvent, kWriteEvent}"

lemma legal_new_events [simp]: "ev \<in> legal_events \<Longrightarrow> new_events oper ev \<in> legal_events"
  by (cases oper) (auto simp: legal_events_def event_masks poll_masks)

lemma legal_new_channel [simp]: "ch_events (new_channel l f) \<in> legal_events"
  by (simp add: new_channel_def legal_events_def kNoneEvent_def)

text \<open>No mask the class can reach asks for reading and writing at once.\<close>

lemma legal_never_both: "ev \<in> legal_events \<Longrightarrow> ev AND POLLIN = 0 \<or> ev AND POLLOUT = 0"
  by (auto simp: legal_events_def event_masks poll_masks)

section \<open>Dispatch\<close>

text \<open>The tests of \<open>handleEvent\<close>, in its order, with the callback each one selects.\<close>

definition hangup_ready :: "32 word \<Rightarrow> bool" where
  "hangup_ready r \<longleftrightarrow> r AND POLLHUP \<noteq> 0 \<and> r AND POLLIN = 0"

definition error_ready :: "32 word \<Rightarrow> bool" where
  "error_ready r \<longleftrightarrow> r AND (POLLERR OR POLLNVAL) \<noteq> 0"

definition read_ready :: "32 word \<Rightarrow> bool" where
  "read_ready r \<longleftrightarrow> r AND (POLLIN OR POLLPRI OR POLLRDHUP) \<noteq> 0"

definition write_ready :: "32 word \<Rightarrow> bool" where
  "write_ready r \<longleftrightarrow> r AND POLLOUT \<noteq> 0"

definition handlers :: "((32 word \<Rightarrow> bool) \<times> ('cb channel \<Rightarrow> 'cb option)) list" where
  "handlers = [(hangup_ready, closeCallback), (error_ready, errorCallback),
     (read_ready, readCallback), (write_ready, writeCallback)]"

text \<open>The callbacks a channel runs when nothing changes it meanwhile.\<close>

definition dispatch :: "'cb channel \<Rightarrow> 'cb list" where
  "dispatch c = concat (map (\<lambda>(ready, sel). if ready (ch_revents c)
     then (case sel c of None \<Rightarrow> [] | Some cb \<Rightarrow> [cb]) else []) handlers)"

end
