(* ===== verification/Pollers.thy ===== *)
theory Pollers
  imports Channels
begin

text \<open>
  The \<open>Poller\<close> (\<open>Poller.h\<close>, \<open>Poller.cpp\<close>) with the heap of channels it shares with its loop: the
  array handed to \<open>poll(2)\<close>, the map from descriptors to channels, and each channel's index into
  the array. \<open>EventLoop::updateChannel\<close> and \<open>EventLoop::removeChannel\<close>, which only check and
  forward, are here too, and so is \<open>Channel::handleEvent\<close>, whose callbacks act on this state.
\<close>

section \<open>State\<close>

record pollfd =
  pfd_fd :: int
  pfd_events :: "16 word"
  pfd_revents :: "16 word"

text \<open>\<open>loopId\<close> and \<open>threadId\<close> belong to the owner loop, which the poller reaches by a pointer.\<close>

record 'cb poller =
  loopId :: nat
  threadId :: int
  heap :: "nat \<rightharpoonup> 'cb channel"
  pollfds :: "pollfd list"
  channels :: "int \<rightharpoonup> nat"

definition isInLoopThread :: "int \<Rightarrow> ('cb, 'z) poller_scheme \<Rightarrow> bool" where
  "isInLoopThread t s \<longleftrightarrow> threadId s = t"

definition assertInLoopThread :: "int \<Rightarrow> ('cb, 'z) poller_scheme \<Rightarrow> unit res" where
  "assertInLoopThread t s = assertR ''abortNotInLoopThread'' (isInLoopThread t s)"

definition get_channel :: "nat \<Rightarrow> ('cb, 'z) poller_scheme \<Rightarrow> 'cb channel res" where
  "get_channel a s = (case heap s a of None \<Rightarrow> Inl (Undefined ''dangling channel'') | Some c \<Rightarrow> Inr c)"

definition put_channel :: "nat \<Rightarrow> 'cb channel \<Rightarrow> ('cb, 'z) poller_scheme \<Rightarrow> ('cb, 'z) poller_scheme" where
  "put_channel a c s = s\<lparr>heap := (heap s)(a \<mapsto> c)\<rparr>"

definition modify_channel ::
  "nat \<Rightarrow> ('cb channel \<Rightarrow> 'cb channel) \<Rightarrow> ('cb, 'z) poller_scheme \<Rightarrow> ('cb, 'z) poller_scheme res" where
  "modify_channel a f s = bindR (get_channel a s) (\<lambda>c. Inr (put_channel a (f c) s))"

section \<open>Poller::updateChannel and Poller::removeChannel\<close>

definition Poller_updateChannel ::
  "int \<Rightarrow> nat \<Rightarrow> ('cb, 'z) poller_scheme \<Rightarrow> ('cb, 'z) poller_scheme res" where
  "Poller_updateChannel t a s =
     bindR (assertInLoopThread t s) (\<lambda>_.
     bindR (get_channel a s) (\<lambda>c.
     if ch_index c < 0
     then
       let pfd = \<lparr>pfd_fd = ch_fd c, pfd_events = ucast (ch_events c), pfd_revents = 0\<rparr>;
           pfds = pollfds s @ [pfd];
           idx = int (length pfds) - 1;
           s1 = put_channel a (c\<lparr>ch_index := idx\<rparr>) (s\<lparr>pollfds := pfds\<rparr>)
       in Inr (s1\<lparr>channels := (channels s1)(pfd_fd pfd \<mapsto> a)\<rparr>)
     else
       bindR (assertR ''channels_.find(fd) != end'' (channels s (ch_fd c) \<noteq> None)) (\<lambda>_.
       bindR (assertR ''channels_[fd] == channel'' (channels s (ch_fd c) = Some a)) (\<lambda>_.
       let idx = ch_index c in
       bindR (assertR ''idx < pollfds_.size()'' (0 \<le> idx \<and> idx < int (length (pollfds s)))) (\<lambda>_.
       let pfd = pollfds s ! nat idx in
       bindR (assertR ''pfd.fd is the channel's'' (pfd_fd pfd = ch_fd c \<or> pfd_fd pfd = - ch_fd c - 1)) (\<lambda>_.
       let pfd1 = pfd\<lparr>pfd_events := ucast (ch_events c), pfd_revents := 0\<rparr>;
           pfd2 = (if isNoneEvent c then pfd1\<lparr>pfd_fd := - ch_fd c - 1\<rparr> else pfd1)
       in Inr (s\<lparr>pollfds := (pollfds s)[nat idx := pfd2]\<rparr>)))))))"

definition Poller_removeChannel ::
  "int \<Rightarrow> nat \<Rightarrow> ('cb, 'z) poller_scheme \<Rightarrow> ('cb, 'z) poller_scheme res" where
  "Poller_removeChannel t a s =
     bindR (assertInLoopThread t s) (\<lambda>_.
     bindR (get_channel a s) (\<lambda>c.
     bindR (assertR ''channels_.find(fd) != end'' (channels s (ch_fd c) \<noteq> None)) (\<lambda>_.
     bindR (assertR ''channels_[fd] == channel'' (channels s (ch_fd c) = Some a)) (\<lambda>_.
     bindR (assertR ''isNoneEvent'' (isNoneEvent c)) (\<lambda>_.
     let idx = ch_index c in
     bindR (assertR ''idx < pollfds_.size()'' (0 \<le> idx \<and> idx < int (length (pollfds s)))) (\<lambda>_.
     let pfd = pollfds s ! nat idx in
     bindR (assertR ''pfd is ignored'' (pfd_fd pfd = - ch_fd c - 1 \<and> scast (pfd_events pfd) = ch_events c)) (\<lambda>_.
     let s1 = s\<lparr>channels := (channels s)(ch_fd c := None)\<rparr> in
     if idx = int (length (pollfds s)) - 1
     then Inr (s1\<lparr>pollfds := butlast (pollfds s1)\<rparr>)
     else
       let end_fd = pfd_fd (last (pollfds s1));
           swapped = (pollfds s1)[nat idx := last (pollfds s1), length (pollfds s1) - 1 := pollfds s1 ! nat idx];
           channelAtEnd = (if end_fd < 0 then - end_fd - 1 else end_fd)
       in (case channels s1 channelAtEnd of
             None \<Rightarrow> Inl (Undefined ''null ChannelPtr'')
           | Some b \<Rightarrow>
               bindR (modify_channel b (\<lambda>d. d\<lparr>ch_index := idx\<rparr>) (s1\<lparr>pollfds := swapped\<rparr>)) (\<lambda>s2.
               Inr (s2\<lparr>pollfds := butlast (pollfds s2)\<rparr>))))))))))"

definition EventLoop_updateChannel ::
  "int \<Rightarrow> nat \<Rightarrow> ('cb, 'z) poller_scheme \<Rightarrow> ('cb, 'z) poller_scheme res" where
  "EventLoop_updateChannel t a s =
     bindR (get_channel a s) (\<lambda>c.
     bindR (assertR ''ownerLoop() == this'' (ch_loop c = loopId s)) (\<lambda>_.
     bindR (assertInLoopThread t s) (\<lambda>_. Poller_updateChannel t a s)))"

definition EventLoop_removeChannel ::
  "int \<Rightarrow> nat \<Rightarrow> ('cb, 'z) poller_scheme \<Rightarrow> ('cb, 'z) poller_scheme res" where
  "EventLoop_removeChannel t a s =
     bindR (get_channel a s) (\<lambda>c.
     bindR (assertR ''ownerLoop() == this'' (ch_loop c = loopId s)) (\<lambda>_.
     bindR (assertInLoopThread t s) (\<lambda>_. Poller_removeChannel t a s)))"

text \<open>\<open>enableReading\<close>, \<open>enableWriting\<close>, \<open>disableWriting\<close>, \<open>disableAll\<close>: set the mask, then \<open>update()\<close>.\<close>

definition Channel_set_interest ::
  "int \<Rightarrow> interest_op \<Rightarrow> nat \<Rightarrow> ('cb, 'z) poller_scheme \<Rightarrow> ('cb, 'z) poller_scheme res" where
  "Channel_set_interest t oper a s =
     bindR (modify_channel a (\<lambda>c. c\<lparr>ch_events := new_events oper (ch_events c)\<rparr>) s)
       (EventLoop_updateChannel t a)"

section \<open>Poller::poll\<close>

text \<open>
  \<open>poll(2)\<close>: it either fails or reports, for every entry with a non-negative descriptor, those of
  the requested events, and of error, hang-up and invalid, that hold of the descriptor
  (\<open>ready\<close>); entries with a negative descriptor get no events. The result counts the entries
  with events.
\<close>

datatype poll_outcome = PollFails | PollReady "int \<Rightarrow> 16 word"

definition always_polled :: "16 word" where
  "always_polled = ucast (POLLERR OR POLLHUP OR POLLNVAL)"

definition poll_entry :: "(int \<Rightarrow> 16 word) \<Rightarrow> pollfd \<Rightarrow> pollfd" where
  "poll_entry ready p = p\<lparr>pfd_revents := (if pfd_fd p < 0 then 0
     else ready (pfd_fd p) AND (pfd_events p OR always_polled))\<rparr>"

fun sys_poll :: "poll_outcome \<Rightarrow> pollfd list \<Rightarrow> int \<times> pollfd list" where
  "sys_poll PollFails pfds = (-1, pfds)"
| "sys_poll (PollReady ready) pfds =
     (let pfds' = map (poll_entry ready) pfds
      in (int (length (filter (\<lambda>p. pfd_revents p \<noteq> 0) pfds')), pfds'))"

fun getActiveChannels ::
  "pollfd list \<Rightarrow> int \<Rightarrow> ('cb, 'z) poller_scheme \<Rightarrow> (nat list \<times> ('cb, 'z) poller_scheme) res" where
  "getActiveChannels [] numEvents s = Inr ([], s)"
| "getActiveChannels (pfd # pfds) numEvents s =
     (if \<not> 0 < numEvents then Inr ([], s)
      else if 0 < sint (pfd_revents pfd)
      then (case channels s (pfd_fd pfd) of
              None \<Rightarrow> Inl (AssertFailed ''iter != channels_.end()'')
            | Some ch \<Rightarrow>
                bindR (modify_channel ch (\<lambda>c. c\<lparr>ch_revents := scast (pfd_revents pfd)\<rparr>) s) (\<lambda>s1.
                bindR (getActiveChannels pfds (numEvents - 1) s1) (\<lambda>(active, s2).
                Inr (ch # active, s2))))
      else getActiveChannels pfds numEvents s)"

definition Poller_poll ::
  "poll_outcome \<Rightarrow> ('cb, 'z) poller_scheme \<Rightarrow> (nat list \<times> ('cb, 'z) poller_scheme) res" where
  "Poller_poll outcome s =
     (let (numEvents, pfds) = sys_poll outcome (pollfds s); s1 = s\<lparr>pollfds := pfds\<rparr>
      in if 0 < numEvents then getActiveChannels pfds numEvents s1 else Inr ([], s1))"

section \<open>Channel::handleEvent\<close>

text \<open>
  Each test reads \<open>revents_\<close> and the callback as they are when the test is reached, so a callback
  that changed them would be seen. \<open>call cb ts\<close> runs the code of callback \<open>cb\<close>.
\<close>

definition fire ::
  "('cb \<Rightarrow> timestamp \<Rightarrow> ('cb, 'z) poller_scheme \<Rightarrow> ('cb, 'z) poller_scheme res) \<Rightarrow> timestamp \<Rightarrow> nat
   \<Rightarrow> (32 word \<Rightarrow> bool) \<times> ('cb channel \<Rightarrow> 'cb option)
   \<Rightarrow> ('cb, 'z) poller_scheme \<Rightarrow> ('cb, 'z) poller_scheme res" where
  "fire call ts a h s =
     bindR (get_channel a s) (\<lambda>c.
     if fst h (ch_revents c)
     then (case snd h c of None \<Rightarrow> Inr s | Some cb \<Rightarrow> call cb ts s)
     else Inr s)"

definition handleEvent ::
  "('cb \<Rightarrow> timestamp \<Rightarrow> ('cb, 'z) poller_scheme \<Rightarrow> ('cb, 'z) poller_scheme res) \<Rightarrow> timestamp \<Rightarrow> nat
   \<Rightarrow> ('cb, 'z) poller_scheme \<Rightarrow> ('cb, 'z) poller_scheme res" where
  "handleEvent call receiveTime a s =
     bindR (modify_channel a (\<lambda>c. c\<lparr>eventHandling := True\<rparr>) s) (\<lambda>s1.
     bindR (foldR (fire call receiveTime a) handlers s1) (\<lambda>s2.
     modify_channel a (\<lambda>c. c\<lparr>eventHandling := False\<rparr>) s2))"

text \<open>The destructor of a channel, and the end of the object at \<open>a\<close>.\<close>

definition Channel_dtor :: "nat \<Rightarrow> ('cb, 'z) poller_scheme \<Rightarrow> ('cb, 'z) poller_scheme res" where
  "Channel_dtor a s =
     bindR (get_channel a s) (\<lambda>c.
     bindR (assertR ''!eventHandling_'' (\<not> eventHandling c)) (\<lambda>_.
     Inr (s\<lparr>heap := (heap s)(a := None)\<rparr>)))"

text \<open>The end of a poller: its array and its map, which may hold the last reference to a channel.\<close>

definition Poller_dtor :: "('cb, 'z) poller_scheme \<Rightarrow> ('cb, 'z) poller_scheme res" where
  "Poller_dtor s = foldR Channel_dtor (map (the \<circ> channels s) (sorted_list_of_set (dom (channels s))))
     (s\<lparr>pollfds := [], channels := Map.empty\<rparr>)"

end
