(* ===== verification/PollerInv.thy ===== *)
theory PollerInv
  imports Pollers
begin

text \<open>
  Well-formedness of the poller and its preservation. The array, the map and the indices stored in
  the channels describe the same set of registered channels; every interest change and every
  removal keeps that, including the swap with the last entry.
\<close>

section \<open>Invariant\<close>

text \<open>An ignored entry holds \<open>-fd-1\<close>; the descriptor it stands for is \<open>fd\<close> all the same.\<close>

definition real_fd :: "pollfd \<Rightarrow> int" where
  "real_fd p = (if pfd_fd p < 0 then - pfd_fd p - 1 else pfd_fd p)"

definition slot_ok :: "('cb, 'z) poller_scheme \<Rightarrow> nat \<Rightarrow> nat \<Rightarrow> 'cb channel \<Rightarrow> bool" where
  "slot_ok s i a c \<longleftrightarrow> i < length (pollfds s) \<and> heap s a = Some c \<and> 0 \<le> ch_fd c
     \<and> channels s (ch_fd c) = Some a \<and> ch_index c = int i
     \<and> real_fd (pollfds s ! i) = ch_fd c \<and> pfd_events (pollfds s ! i) = ucast (ch_events c)"

definition poller_ok :: "('cb, 'z) poller_scheme \<Rightarrow> bool" where
  "poller_ok s \<longleftrightarrow> (\<forall>i < length (pollfds s). \<exists>a c. slot_ok s i a c)
     \<and> (\<forall>f a. channels s f = Some a \<longrightarrow> (\<exists>i c. slot_ok s i a c \<and> ch_fd c = f))
     \<and> (\<forall>a c. heap s a = Some c \<longrightarrow> ch_events c \<in> legal_events)"

text \<open>A channel that may change its interest: registered, or new with a descriptor of its own.\<close>

definition watchable :: "('cb, 'z) poller_scheme \<Rightarrow> nat \<Rightarrow> 'cb channel \<Rightarrow> bool" where
  "watchable s a c \<longleftrightarrow> heap s a = Some c \<and> ch_loop c = loopId s \<and> 0 \<le> ch_fd c
     \<and> channels s (ch_fd c) = (if ch_index c < 0 then None else Some a)"

definition registered :: "('cb, 'z) poller_scheme \<Rightarrow> nat \<Rightarrow> 'cb channel \<Rightarrow> bool" where
  "registered s a c \<longleftrightarrow> heap s a = Some c \<and> channels s (ch_fd c) = Some a"

lemma real_fd_iff: "0 \<le> f \<Longrightarrow> real_fd p = f \<longleftrightarrow> pfd_fd p = f \<or> pfd_fd p = - f - 1"
  by (auto simp: real_fd_def)

lemma slot_of_registered: "poller_ok s \<Longrightarrow> registered s a c \<Longrightarrow> slot_ok s (nat (ch_index c)) a c"
  unfolding poller_ok_def registered_def by (fastforce simp: slot_ok_def)

lemma slot_okD_less: "slot_ok s i a c \<Longrightarrow> i < length (pollfds s)"
  by (simp add: slot_ok_def)

lemma slotD: "slot_ok s i a c \<Longrightarrow> heap s a = Some c" "slot_ok s i a c \<Longrightarrow> 0 \<le> ch_index c"
  by (simp_all add: slot_ok_def)

lemma slot_unique:
  "slot_ok s i a c \<Longrightarrow> slot_ok s j b d \<Longrightarrow> i = j \<or> a = b \<or> ch_fd c = ch_fd d \<Longrightarrow>
   i = j \<and> a = b \<and> c = d"
  by (auto simp: slot_ok_def)

lemma poller_okE_slot:
  assumes "poller_ok s" and "i < length (pollfds s)"
  obtains a c where "slot_ok s i a c"
  using assms by (auto simp: poller_ok_def)

lemma poller_okE_fd:
  assumes "poller_ok s" and "channels s f = Some a"
  obtains i c where "slot_ok s i a c" "ch_fd c = f"
  using assms unfolding poller_ok_def by blast

lemma poller_okI:
  assumes "\<And>i. i < length (pollfds s) \<Longrightarrow> \<exists>a c. slot_ok s i a c"
    and "\<And>f a. channels s f = Some a \<Longrightarrow> \<exists>i c. slot_ok s i a c \<and> ch_fd c = f"
    and "\<And>a c. heap s a = Some c \<Longrightarrow> ch_events c \<in> legal_events"
  shows "poller_ok s"
  using assms by (auto simp: poller_ok_def)

lemma get_channel_Some [simp]: "heap s a = Some c \<Longrightarrow> get_channel a s = Inr c"
  by (simp add: get_channel_def)

lemma modify_channel_Some [simp]: "heap s a = Some c \<Longrightarrow> modify_channel a f s = Inr (put_channel a (f c) s)"
  by (simp add: modify_channel_def)

lemma put_channel_simps [simp]:
  "heap (put_channel a c s) = (heap s)(a \<mapsto> c)"
  "pollfds (put_channel a c s) = pollfds s" "channels (put_channel a c s) = channels s"
  "loopId (put_channel a c s) = loopId s" "threadId (put_channel a c s) = threadId s"
  "poller.more (put_channel a c s) = poller.more s"
  by (simp_all add: put_channel_def)

section \<open>Changing the interest set\<close>

text \<open>The two branches of \<open>updateChannel\<close>, as equations for a channel that may change.\<close>

definition add_entry :: "nat \<Rightarrow> 'cb channel \<Rightarrow> ('cb, 'z) poller_scheme \<Rightarrow> ('cb, 'z) poller_scheme" where
  "add_entry a c s = s\<lparr>heap := (heap s)(a \<mapsto> c\<lparr>ch_index := int (length (pollfds s))\<rparr>),
     pollfds := pollfds s @ [\<lparr>pfd_fd = ch_fd c, pfd_events = ucast (ch_events c), pfd_revents = 0\<rparr>],
     channels := (channels s)(ch_fd c \<mapsto> a)\<rparr>"

definition set_entry :: "nat \<Rightarrow> 'cb channel \<Rightarrow> ('cb, 'z) poller_scheme \<Rightarrow> ('cb, 'z) poller_scheme" where
  "set_entry a c s =
     (let p = (pollfds s ! nat (ch_index c))\<lparr>pfd_events := ucast (ch_events c), pfd_revents := 0\<rparr>
      in s\<lparr>heap := (heap s)(a \<mapsto> c), pollfds := (pollfds s)[nat (ch_index c) :=
           (if isNoneEvent c then p\<lparr>pfd_fd := - ch_fd c - 1\<rparr> else p)]\<rparr>)"

lemma set_entry_simps [simp]:
  "heap (set_entry a c s) = (heap s)(a \<mapsto> c)"
  "length (pollfds (set_entry a c s)) = length (pollfds s)"
  "channels (set_entry a c s) = channels s"
  "loopId (set_entry a c s) = loopId s" "threadId (set_entry a c s) = threadId s"
  "poller.more (set_entry a c s) = poller.more s"
  "i \<noteq> nat (ch_index c) \<Longrightarrow> pollfds (set_entry a c s) ! i = pollfds s ! i"
  by (simp_all add: set_entry_def Let_def)

lemma add_entry_simps [simp]:
  "heap (add_entry a c s) = (heap s)(a \<mapsto> c\<lparr>ch_index := int (length (pollfds s))\<rparr>)"
  "length (pollfds (add_entry a c s)) = Suc (length (pollfds s))"
  "channels (add_entry a c s) = (channels s)(ch_fd c \<mapsto> a)"
  "loopId (add_entry a c s) = loopId s" "threadId (add_entry a c s) = threadId s"
  "poller.more (add_entry a c s) = poller.more s"
  by (simp_all add: add_entry_def)

lemma set_interest_new:
  assumes "watchable s a c" "ch_index c < 0" "threadId s = t"
  shows "Channel_set_interest t oper a s =
    Inr (add_entry a (c\<lparr>ch_events := new_events oper (ch_events c)\<rparr>) s)"
  using assms
  by (simp add: watchable_def Channel_set_interest_def EventLoop_updateChannel_def
      Poller_updateChannel_def assertInLoopThread_def isInLoopThread_def Let_def add_entry_def
      put_channel_def)

lemma set_interest_known:
  assumes "poller_ok s" "watchable s a c" "\<not> ch_index c < 0" "threadId s = t"
  shows "Channel_set_interest t oper a s =
    Inr (set_entry a (c\<lparr>ch_events := new_events oper (ch_events c)\<rparr>) s)"
proof -
  from assms have "registered s a c" by (simp add: watchable_def registered_def)
  from slot_of_registered [OF assms(1) this] have "slot_ok s (nat (ch_index c)) a c" .
  then have "pfd_fd (pollfds s ! nat (ch_index c)) = ch_fd c \<or>
      pfd_fd (pollfds s ! nat (ch_index c)) = - ch_fd c - 1"
    "nat (ch_index c) < length (pollfds s)"
    by (auto simp: slot_ok_def real_fd_iff)
  with assms show ?thesis
    by (simp add: watchable_def Channel_set_interest_def EventLoop_updateChannel_def
        Poller_updateChannel_def assertInLoopThread_def isInLoopThread_def Let_def set_entry_def
        isNoneEvent_def put_channel_def zless_nat_conj nat_less_iff)
qed

lemma add_entry_ok:
  assumes ok: "poller_ok s" and c: "0 \<le> ch_fd c" "channels s (ch_fd c) = None"
    and a: "heap s a = Some d" "ch_index d < 0" and ev: "ch_events c \<in> legal_events"
  shows "poller_ok (add_entry a c s)"
proof (rule poller_okI)
  let ?s = "add_entry a c s" and ?c = "c\<lparr>ch_index := int (length (pollfds s))\<rparr>"
  have old: "slot_ok ?s i b e" if "slot_ok s i b e" for i b e
    using that a c by (auto simp: slot_ok_def add_entry_def nth_append)
  have new: "slot_ok ?s (length (pollfds s)) a ?c"
    using c by (simp add: slot_ok_def add_entry_def real_fd_def)
  show "\<exists>b e. slot_ok ?s i b e" if "i < length (pollfds ?s)" for i
  proof (cases "i < length (pollfds s)")
    case True
    with ok old show ?thesis by (meson poller_okE_slot)
  next
    case False
    with that have "i = length (pollfds s)" by (simp add: add_entry_def)
    with new show ?thesis by blast
  qed
  show "\<exists>i e. slot_ok ?s i b e \<and> ch_fd e = f" if "channels ?s f = Some b" for f b
  proof (cases "f = ch_fd c")
    case True
    with that have "b = a" by (simp add: add_entry_def)
    with True new have "slot_ok ?s (length (pollfds s)) b ?c \<and> ch_fd ?c = f" by simp
    then show ?thesis by blast
  next
    case False
    with that have "channels s f = Some b" by (simp add: add_entry_def)
    with ok old show ?thesis by (meson poller_okE_fd)
  qed
  show "ch_events e \<in> legal_events" if "heap ?s b = Some e" for b e
    using that ok ev by (auto simp: add_entry_def poller_ok_def split: if_splits)
qed

lemma set_entry_ok:
  assumes ok: "poller_ok s" and slot: "slot_ok s (nat (ch_index c)) a c"
    and ev: "ev \<in> legal_events"
  shows "poller_ok (set_entry a (c\<lparr>ch_events := ev\<rparr>) s)"
proof (rule poller_okI)
  let ?c = "c\<lparr>ch_events := ev\<rparr>" and ?i = "nat (ch_index c)"
  let ?s = "set_entry a ?c s"
  have fd: "pfd_fd (pollfds s ! ?i) = ch_fd c \<or> pfd_fd (pollfds s ! ?i) = - ch_fd c - 1"
    using slot by (auto simp: slot_ok_def real_fd_iff)
  have new: "slot_ok ?s ?i a ?c"
    using slot fd by (auto simp: slot_ok_def set_entry_def Let_def real_fd_def)
  have other: "slot_ok ?s i b e" if "slot_ok s i b e" "i \<noteq> ?i" for i b e
  proof -
    have "b \<noteq> a" using slot_unique [OF that(1) slot] that(2) by blast
    with that show ?thesis by (simp add: slot_ok_def)
  qed
  show "\<exists>b e. slot_ok ?s i b e" if "i < length (pollfds ?s)" for i
  proof (cases "i = ?i")
    case True
    with new show ?thesis by blast
  next
    case False
    from that have "i < length (pollfds s)" by simp
    with ok obtain b e where "slot_ok s i b e" by (rule poller_okE_slot)
    with False other show ?thesis by blast
  qed
  show "\<exists>i e. slot_ok ?s i b e \<and> ch_fd e = f" if "channels ?s f = Some b" for f b
  proof -
    from that have "channels s f = Some b" by simp
    with ok obtain i e where ie: "slot_ok s i b e" "ch_fd e = f" by (rule poller_okE_fd)
    show ?thesis
    proof (cases "i = ?i")
      case True
      with slot_unique [OF ie(1) slot] have "b = a" "e = c" by auto
      with new ie(2) have "slot_ok ?s ?i b ?c \<and> ch_fd ?c = f" by simp
      then show ?thesis by blast
    next
      case False
      with ie other show ?thesis by blast
    qed
  qed
  show "ch_events e \<in> legal_events" if "heap ?s b = Some e" for b e
    using that ok ev by (auto simp: poller_ok_def split: if_splits)
qed

text \<open>What every interest change guarantees for a channel that may change.\<close>

definition interest_set ::
  "interest_op \<Rightarrow> nat \<Rightarrow> 'cb channel \<Rightarrow> ('cb, 'z) poller_scheme \<Rightarrow> ('cb, 'z) poller_scheme" where
  "interest_set oper a c s =
     (let c' = c\<lparr>ch_events := new_events oper (ch_events c)\<rparr>
      in if ch_index c < 0 then add_entry a c' s else set_entry a c' s)"

lemma set_interest_eq:
  assumes "poller_ok s" "watchable s a c" "threadId s = t"
  shows "Channel_set_interest t oper a s = Inr (interest_set oper a c s)"
  using assms by (simp add: interest_set_def Let_def set_interest_new set_interest_known)

lemma interest_set_ok:
  assumes ok: "poller_ok s" and w: "watchable s a c"
  shows "poller_ok (interest_set oper a c s)"
proof -
  from ok w have "ch_events c \<in> legal_events" by (auto simp: poller_ok_def watchable_def)
  then have ev: "new_events oper (ch_events c) \<in> legal_events" by simp
  show ?thesis
  proof (cases "ch_index c < 0")
    case True
    with ok w ev show ?thesis
      by (auto simp: interest_set_def Let_def watchable_def intro!: add_entry_ok)
  next
    case False
    with w have "registered s a c" by (simp add: watchable_def registered_def)
    with ok have "slot_ok s (nat (ch_index c)) a c" by (rule slot_of_registered)
    with ok ev False show ?thesis by (simp add: interest_set_def Let_def set_entry_ok)
  qed
qed

text \<open>The channel stays watchable with its new mask, and is registered from then on.\<close>

lemma interest_set_channel:
  assumes "watchable s a c"
  obtains i where "heap (interest_set oper a c s) a =
      Some (c\<lparr>ch_events := new_events oper (ch_events c), ch_index := i\<rparr>)"
    "0 \<le> i" "0 \<le> ch_index c \<longrightarrow> i = ch_index c"
    "channels (interest_set oper a c s) = (channels s)(ch_fd c \<mapsto> a)"
    "\<And>b. b \<noteq> a \<Longrightarrow> heap (interest_set oper a c s) b = heap s b"
proof (cases "ch_index c < 0")
  case True
  with that [of "int (length (pollfds s))"] show thesis
    by (simp add: interest_set_def Let_def)
next
  case False
  with assms have "(channels s)(ch_fd c \<mapsto> a) = channels s" by (auto simp: watchable_def)
  with False that [of "ch_index c"] show thesis
    by (simp add: interest_set_def Let_def)
qed

lemma interest_set_frame [simp]:
  "loopId (interest_set oper a c s) = loopId s" "threadId (interest_set oper a c s) = threadId s"
  "poller.more (interest_set oper a c s) = poller.more s"
  by (simp_all add: interest_set_def Let_def)

lemma watchable_interest_set:
  assumes "watchable s a c"
  shows "\<exists>c'. watchable (interest_set oper a c s) a c' \<and> registered (interest_set oper a c s) a c'
    \<and> ch_fd c' = ch_fd c \<and> ch_events c' = new_events oper (ch_events c)"
proof -
  from interest_set_channel [OF assms] obtain i where
    "heap (interest_set oper a c s) a = Some (c\<lparr>ch_events := new_events oper (ch_events c), ch_index := i\<rparr>)"
    "0 \<le> i" "channels (interest_set oper a c s) = (channels s)(ch_fd c \<mapsto> a)" .
  with assms show ?thesis by (auto simp: watchable_def registered_def)
qed

section \<open>Removing a channel\<close>

text \<open>A channel that \<open>removeChannel\<close> accepts: registered, no events, its entry ignored.\<close>

definition removable :: "('cb, 'z) poller_scheme \<Rightarrow> nat \<Rightarrow> 'cb channel \<Rightarrow> bool" where
  "removable s a c \<longleftrightarrow> registered s a c \<and> ch_loop c = loopId s \<and> isNoneEvent c
     \<and> pfd_fd (pollfds s ! nat (ch_index c)) = - ch_fd c - 1"

text \<open>The last entry moves into the freed slot, and its channel \<open>b\<close> learns its new index.\<close>

definition drop_last :: "'cb channel \<Rightarrow> ('cb, 'z) poller_scheme \<Rightarrow> ('cb, 'z) poller_scheme" where
  "drop_last c s = s\<lparr>pollfds := butlast (pollfds s), channels := (channels s)(ch_fd c := None)\<rparr>"

definition move_last ::
  "'cb channel \<Rightarrow> nat \<Rightarrow> 'cb channel \<Rightarrow> ('cb, 'z) poller_scheme \<Rightarrow> ('cb, 'z) poller_scheme" where
  "move_last c b d s = s\<lparr>heap := (heap s)(b \<mapsto> d\<lparr>ch_index := ch_index c\<rparr>),
     pollfds := (butlast (pollfds s))[nat (ch_index c) := last (pollfds s)],
     channels := (channels s)(ch_fd c := None)\<rparr>"

text \<open>All checks pass, and what is left is the surgery on the array.\<close>

lemma remove_checks:
  assumes rm: "removable s a c" and ia: "slot_ok s i a c" and t: "threadId s = t"
  shows "EventLoop_removeChannel t a s =
    (let s1 = s\<lparr>channels := (channels s)(ch_fd c := None)\<rparr> in
     if i = length (pollfds s) - 1 then Inr (s1\<lparr>pollfds := butlast (pollfds s)\<rparr>)
     else case channels s1 (real_fd (last (pollfds s))) of
         None \<Rightarrow> Inl (Undefined ''null ChannelPtr'')
       | Some b \<Rightarrow> bindR (modify_channel b (\<lambda>d. d\<lparr>ch_index := int i\<rparr>)
           (s1\<lparr>pollfds := (pollfds s)[i := last (pollfds s), length (pollfds s) - 1 := pollfds s ! i]\<rparr>))
           (\<lambda>s2. Inr (s2\<lparr>pollfds := butlast (pollfds s2)\<rparr>)))"
proof -
  from ia have idx: "ch_index c = int i" and i: "i < length (pollfds s)" by (auto simp: slot_ok_def)
  from i have last: "int i = int (length (pollfds s)) - 1 \<longleftrightarrow> i = length (pollfds s) - 1" by auto
  have "pfd_fd (pollfds s ! i) = - ch_fd c - 1" using rm idx by (simp add: removable_def)
  moreover have "scast (pfd_events (pollfds s ! i)) = ch_events c"
    using rm ia by (simp add: removable_def slot_ok_def isNoneEvent_def kNoneEvent_def)
  moreover have "heap s a = Some c" "channels s (ch_fd c) = Some a" "isNoneEvent c" "ch_loop c = loopId s"
    using rm by (auto simp: removable_def registered_def)
  ultimately show ?thesis
    using i t
    by (simp add: EventLoop_removeChannel_def Poller_removeChannel_def assertInLoopThread_def
        isInLoopThread_def idx last Let_def real_fd_def cong: option.case_cong)
qed

lemma remove_last_eq:
  assumes "removable s a c" "slot_ok s i a c" "i = length (pollfds s) - 1" "threadId s = t"
  shows "EventLoop_removeChannel t a s = Inr (drop_last c s)"
  using remove_checks [OF assms(1,2,4)] assms(3) by (simp add: drop_last_def Let_def)

lemma remove_moved_eq:
  assumes rm: "removable s a c" and ia: "slot_ok s i a c" and t: "threadId s = t"
    and jb: "slot_ok s (length (pollfds s) - 1) b d" and i: "i \<noteq> length (pollfds s) - 1"
  shows "EventLoop_removeChannel t a s = Inr (move_last c b d s)"
proof -
  have ne: "ch_fd d \<noteq> ch_fd c" using slot_unique [OF jb ia] i by auto
  have len: "pollfds s \<noteq> []" and idx: "ch_index c = int i" using ia by (auto simp: slot_ok_def)
  have last: "real_fd (last (pollfds s)) = ch_fd d" "heap s b = Some d" "channels s (ch_fd d) = Some b"
    using jb len by (simp_all add: slot_ok_def last_conv_nth)
  show ?thesis
    unfolding remove_checks [OF rm ia t] Let_def
    using ne i last by (simp add: butlast_list_update move_last_def put_channel_def idx)
qed

lemma drop_last_ok:
  assumes ok: "poller_ok s" and ia: "slot_ok s (length (pollfds s) - 1) a c"
  shows "poller_ok (drop_last c s)"
proof (rule poller_okI)
  let ?s = "drop_last c s"
  have keep: "slot_ok ?s j b e" if "slot_ok s j b e" "j \<noteq> length (pollfds s) - 1" for j b e
  proof -
    have "ch_fd e \<noteq> ch_fd c" using slot_unique [OF that(1) ia] that(2) by blast
    moreover have "j < length (pollfds s) - 1" using slot_okD_less [OF that(1)] that(2) by linarith
    ultimately show ?thesis using that(1) by (simp add: slot_ok_def drop_last_def nth_butlast)
  qed
  show "\<exists>b e. slot_ok ?s j b e" if "j < length (pollfds ?s)" for j
  proof -
    from that have j: "j < length (pollfds s)" "j \<noteq> length (pollfds s) - 1"
      by (auto simp: drop_last_def)
    from ok j(1) obtain b e where "slot_ok s j b e" by (rule poller_okE_slot)
    with keep j(2) show ?thesis by blast
  qed
  show "\<exists>j e. slot_ok ?s j b e \<and> ch_fd e = f" if "channels ?s f = Some b" for f b
  proof -
    from that have f: "channels s f = Some b" "f \<noteq> ch_fd c"
      by (auto simp: drop_last_def split: if_splits)
    from ok f(1) obtain j e where je: "slot_ok s j b e" "ch_fd e = f" by (rule poller_okE_fd)
    with slot_unique [OF je(1) ia] f(2) have "j \<noteq> length (pollfds s) - 1" by blast
    with keep je show ?thesis by blast
  qed
  show "ch_events e \<in> legal_events" if "heap ?s b = Some e" for b e
    using that ok by (auto simp: drop_last_def poller_ok_def)
qed

lemma move_last_ok:
  assumes ok: "poller_ok s" and ia: "slot_ok s i a c"
    and jb: "slot_ok s (length (pollfds s) - 1) b d" and i: "i \<noteq> length (pollfds s) - 1"
  shows "poller_ok (move_last c b d s)"
proof (rule poller_okI)
  let ?s = "move_last c b d s" and ?d = "d\<lparr>ch_index := ch_index c\<rparr>"
  let ?n = "length (pollfds s) - 1"
  have idx: "nat (ch_index c) = i" "i < ?n" using ia i by (auto simp: slot_ok_def)
  have ne: "ch_fd d \<noteq> ch_fd c" using slot_unique [OF jb ia] i by auto
  have "pollfds s \<noteq> []" using ia by (auto simp: slot_ok_def)
  then have "last (pollfds s) = pollfds s ! ?n" by (rule last_conv_nth)
  with idx ne ia jb have moved: "slot_ok ?s i b ?d"
    by (auto simp: slot_ok_def move_last_def)
  have keep: "slot_ok ?s j x e" if "slot_ok s j x e" "j \<noteq> ?n" "j \<noteq> i" for j x e
  proof -
    have "x \<noteq> b" "ch_fd e \<noteq> ch_fd c"
      using slot_unique [OF that(1) jb] slot_unique [OF that(1) ia] that(2,3) by blast+
    moreover have "j < ?n" using slot_okD_less [OF that(1)] that(2) by linarith
    ultimately show ?thesis
      using that(1,3) idx by (simp add: slot_ok_def move_last_def nth_butlast)
  qed
  show "\<exists>x e. slot_ok ?s j x e" if "j < length (pollfds ?s)" for j
  proof (cases "j = i")
    case True
    with moved show ?thesis by blast
  next
    case False
    from that have j: "j < length (pollfds s)" "j \<noteq> ?n" by (auto simp: move_last_def)
    from ok j(1) obtain x e where "slot_ok s j x e" by (rule poller_okE_slot)
    with keep j(2) False show ?thesis by blast
  qed
  show "\<exists>j e. slot_ok ?s j x e \<and> ch_fd e = f" if "channels ?s f = Some x" for f x
  proof -
    from that have f: "channels s f = Some x" "f \<noteq> ch_fd c"
      by (auto simp: move_last_def split: if_splits)
    from ok f(1) obtain j e where je: "slot_ok s j x e" "ch_fd e = f" by (rule poller_okE_fd)
    have "j \<noteq> i" using slot_unique [OF je(1) ia] je(2) f(2) by blast
    show ?thesis
    proof (cases "j = ?n")
      case True
      with slot_unique [OF je(1) jb] have "x = b" "e = d" by auto
      with moved je(2) have "slot_ok ?s i x ?d \<and> ch_fd ?d = f" by simp
      then show ?thesis by blast
    next
      case False
      with keep je \<open>j \<noteq> i\<close> show ?thesis by blast
    qed
  qed
  show "ch_events e \<in> legal_events" if "heap ?s x = Some e" for x e
    using that ok jb by (auto simp: move_last_def poller_ok_def slot_ok_def split: if_splits)
qed

text \<open>
  What a removal guarantees: no assertion fails, the descriptor is no longer mapped, every other
  one still is, and no channel but the moved one changes, in its index only.
\<close>

lemma remove_spec:
  assumes ok: "poller_ok s" and rm: "removable s a c" and t: "threadId s = t"
  obtains s' where "EventLoop_removeChannel t a s = Inr s'" "poller_ok s'"
    "channels s' = (channels s)(ch_fd c := None)" "heap s' a = Some c"
    "\<And>b. heap s' b = heap s b \<or> (\<exists>d i. heap s b = Some d \<and> heap s' b = Some (d\<lparr>ch_index := i\<rparr>)
        \<and> 0 \<le> i \<and> 0 \<le> ch_index d)"
    "loopId s' = loopId s" "threadId s' = threadId s" "poller.more s' = poller.more s"
proof -
  from ok rm have ia: "slot_ok s (nat (ch_index c)) a c"
    by (intro slot_of_registered) (auto simp: removable_def)
  then have len: "length (pollfds s) - 1 < length (pollfds s)" by (auto simp: slot_ok_def)
  from ok len obtain b d where jb: "slot_ok s (length (pollfds s) - 1) b d" by (rule poller_okE_slot)
  show thesis
  proof (cases "nat (ch_index c) = length (pollfds s) - 1")
    case True
    have "poller_ok (drop_last c s)" using ok ia True by (simp add: drop_last_ok)
    moreover have "EventLoop_removeChannel t a s = Inr (drop_last c s)"
      by (rule remove_last_eq [OF rm ia True t])
    ultimately show thesis
      using ia by (intro that [of "drop_last c s"]) (auto simp: drop_last_def slot_ok_def)
  next
    case False
    have "poller_ok (move_last c b d s)" by (rule move_last_ok [OF ok ia jb False])
    moreover have "EventLoop_removeChannel t a s = Inr (move_last c b d s)"
      by (rule remove_moved_eq [OF rm ia t jb False])
    moreover have "b \<noteq> a" using slot_unique [OF jb ia] False by auto
    ultimately show thesis
      using slotD(1) [OF ia] slotD [OF jb] slotD(2) [OF ia]
      by (intro that [of "move_last c b d s"]) (auto simp: move_last_def)
  qed
qed

end
