(* ===== verification/Polling.thy ===== *)
theory Polling
  imports PollerInv
begin

text \<open>
  What one \<open>Poller::poll\<close> reports: exactly the registered, not ignored channels whose descriptor
  is ready, each with the events found, and a state that is still well formed. Also the contract
  of the poll set towards the loop and the connections, as a locale, and its properties.
\<close>

section \<open>Changes that keep every slot\<close>

text \<open>Marking events found, or the \<open>eventHandling_\<close> flag, changes no slot.\<close>

definition same_interest :: "'cb channel \<Rightarrow> 'cb channel \<Rightarrow> bool" where
  "same_interest c d \<longleftrightarrow> ch_loop c = ch_loop d \<and> ch_fd c = ch_fd d \<and> ch_events c = ch_events d
     \<and> ch_index c = ch_index d \<and> readCallback c = readCallback d \<and> writeCallback c = writeCallback d
     \<and> errorCallback c = errorCallback d \<and> closeCallback c = closeCallback d"

definition same_slots :: "('cb, 'z) poller_scheme \<Rightarrow> ('cb, 'z) poller_scheme \<Rightarrow> bool" where
  "same_slots s s' \<longleftrightarrow> map (\<lambda>p. (pfd_fd p, pfd_events p)) (pollfds s) = map (\<lambda>p. (pfd_fd p, pfd_events p)) (pollfds s')
     \<and> channels s = channels s' \<and> (\<forall>a. rel_option same_interest (heap s a) (heap s' a))
     \<and> loopId s = loopId s' \<and> threadId s = threadId s' \<and> poller.more s = poller.more s'"

lemma same_interest_refl [simp]: "same_interest c c"
  by (simp add: same_interest_def)

lemma same_interest_trans: "same_interest c d \<Longrightarrow> same_interest d e \<Longrightarrow> same_interest c e"
  by (simp add: same_interest_def)

lemma same_interest_marks [simp]:
  "same_interest c (c\<lparr>ch_revents := r\<rparr>)" "same_interest c (c\<lparr>eventHandling := b\<rparr>)"
  by (simp_all add: same_interest_def)

lemma rel_option_same_refl [simp]: "rel_option same_interest x x"
  by (cases x) simp_all

lemma same_slots_refl [simp]: "same_slots s s"
  by (simp add: same_slots_def)

lemma rel_option_same_trans:
  "rel_option same_interest x y \<Longrightarrow> rel_option same_interest y z \<Longrightarrow> rel_option same_interest x z"
  by (cases x; cases y; cases z) (auto intro: same_interest_trans)

lemma same_slots_trans: "same_slots s s1 \<Longrightarrow> same_slots s1 s2 \<Longrightarrow> same_slots s s2"
  unfolding same_slots_def by (simp; blast intro: rel_option_same_trans)

lemma same_slots_put_channel:
  "heap s a = Some c \<Longrightarrow> same_interest c d \<Longrightarrow> same_slots s (put_channel a d s)"
  by (simp add: same_slots_def)

lemma same_slotsD:
  assumes "same_slots s s'"
  shows "length (pollfds s') = length (pollfds s)" "channels s' = channels s"
    "i < length (pollfds s) \<Longrightarrow> pfd_fd (pollfds s' ! i) = pfd_fd (pollfds s ! i)
       \<and> pfd_events (pollfds s' ! i) = pfd_events (pollfds s ! i)"
    "heap s a = Some c \<Longrightarrow> \<exists>d. heap s' a = Some d \<and> same_interest c d"
    "heap s' a = Some d \<Longrightarrow> \<exists>c. heap s a = Some c \<and> same_interest c d"
proof -
  note eq = assms [unfolded same_slots_def]
  show len: "length (pollfds s') = length (pollfds s)" using eq by (auto dest: map_eq_imp_length_eq)
  show "channels s' = channels s" using eq by simp
  show "pfd_fd (pollfds s' ! i) = pfd_fd (pollfds s ! i)
       \<and> pfd_events (pollfds s' ! i) = pfd_events (pollfds s ! i)" if "i < length (pollfds s)"
  proof -
    have "map (\<lambda>p. (pfd_fd p, pfd_events p)) (pollfds s) ! i =
        map (\<lambda>p. (pfd_fd p, pfd_events p)) (pollfds s') ! i" using eq by simp
    with that len show ?thesis by simp
  qed
  have rel: "rel_option same_interest (heap s a) (heap s' a)" using eq by simp
  show "\<exists>d. heap s' a = Some d \<and> same_interest c d" if "heap s a = Some c"
    using rel that by (auto simp: option_rel_Some1)
  show "\<exists>c. heap s a = Some c \<and> same_interest c d" if "heap s' a = Some d"
    using rel that by (auto simp: option_rel_Some2)
qed

lemma slot_ok_same:
  assumes "same_slots s s'" and "slot_ok s i a c"
  shows "\<exists>d. slot_ok s' i a d \<and> same_interest c d"
  using same_slotsD [OF assms(1)] assms(2)
  by (fastforce simp: slot_ok_def same_interest_def real_fd_def)

lemma poller_ok_same:
  assumes same: "same_slots s s'" and ok: "poller_ok s"
  shows "poller_ok s'"
proof (rule poller_okI)
  note D = same_slotsD [OF same]
  show "\<exists>a c. slot_ok s' i a c" if "i < length (pollfds s')" for i
    using that ok D(1) slot_ok_same [OF same] by (metis poller_okE_slot)
  show "\<exists>i c. slot_ok s' i a c \<and> ch_fd c = f" if "channels s' f = Some a" for f a
  proof -
    from that D(2) have "channels s f = Some a" by simp
    with ok obtain i c where "slot_ok s i a c" "ch_fd c = f" by (rule poller_okE_fd)
    with slot_ok_same [OF same this(1)] obtain d where "slot_ok s' i a d" "ch_fd d = f"
      by (auto simp: same_interest_def)
    then show ?thesis by blast
  qed
  show "ch_events d \<in> legal_events" if "heap s' a = Some d" for a d
  proof -
    from D(5) [OF that] obtain c where c: "heap s a = Some c" "same_interest c d" by blast
    from ok c(1) have "ch_events c \<in> legal_events" unfolding poller_ok_def by blast
    with c(2) show ?thesis by (simp add: same_interest_def)
  qed
qed

section \<open>The events that poll finds\<close>

lemma sint_small: "uint (w::16 word) < 2 ^ 15 \<Longrightarrow> sint w = uint w"
proof -
  assume w: "uint w < 2 ^ 15"
  have "- (2 ^ 15) \<le> uint w" using unsigned_greater_eq [of w, where 'a = int] by (rule order_trans [rotated]) simp
  with w show ?thesis by (simp add: sint_uint signed_take_bit_int_eq_self)
qed

lemma sint_and_pos:
  fixes r m :: "16 word"
  assumes m: "uint m < 2 ^ 15"
  shows "0 < sint (r AND m) \<longleftrightarrow> r AND m \<noteq> 0"
proof -
  have "r AND m \<le> m" by (rule word_and_le1)
  then have "uint (r AND m) \<le> uint m" by (simp add: word_le_def)
  with m have "sint (r AND m) = uint (r AND m)" by (intro sint_small) simp
  moreover have "0 < uint (r AND m) \<longleftrightarrow> r AND m \<noteq> 0"
    using unsigned_greater_eq [of "r AND m", where 'a = int] by (auto simp: less_le uint_0_iff)
  ultimately show ?thesis by simp
qed

lemma polled_mask_small:
  "ev \<in> legal_events \<Longrightarrow> uint (ucast ev OR always_polled) < 2 ^ 15"
  by (auto simp: legal_events_def event_masks poll_masks always_polled_def)

text \<open>\<open>found ready c\<close>: the events a poll finds on the channel's descriptor.\<close>

definition found :: "(int \<Rightarrow> 16 word) \<Rightarrow> 'cb channel \<Rightarrow> 16 word" where
  "found ready c = ready (ch_fd c) AND (ucast (ch_events c) OR always_polled)"

lemma found_pos: "ch_events c \<in> legal_events \<Longrightarrow> 0 < sint (found ready c) \<longleftrightarrow> found ready c \<noteq> 0"
  unfolding found_def by (rule sint_and_pos [OF polled_mask_small])

text \<open>The list of active channels and the marks, for entries that are all mapped.\<close>

fun mark_ready :: "pollfd list \<Rightarrow> ('cb, 'z) poller_scheme \<Rightarrow> ('cb, 'z) poller_scheme" where
  "mark_ready [] s = s"
| "mark_ready (p # ps) s = mark_ready ps (let a = the (channels s (pfd_fd p)) in
     put_channel a ((the (heap s a))\<lparr>ch_revents := scast (pfd_revents p)\<rparr>) s)"

definition entry_mapped :: "('cb, 'z) poller_scheme \<Rightarrow> pollfd \<Rightarrow> bool" where
  "entry_mapped s p \<longleftrightarrow> 0 < sint (pfd_revents p)
     \<and> (\<exists>a c. channels s (pfd_fd p) = Some a \<and> heap s a = Some c)"

lemma getActiveChannels_eq:
  assumes "\<And>p. p \<in> set ps \<Longrightarrow> pfd_revents p \<noteq> 0 \<Longrightarrow> entry_mapped s p"
  shows "getActiveChannels ps (int (length (filter (\<lambda>p. pfd_revents p \<noteq> 0) ps))) s =
    Inr (map (\<lambda>p. the (channels s (pfd_fd p))) (filter (\<lambda>p. pfd_revents p \<noteq> 0) ps),
         mark_ready (filter (\<lambda>p. pfd_revents p \<noteq> 0) ps) s)"
  using assms
proof (induction ps arbitrary: s)
  case Nil
  then show ?case by simp
next
  case (Cons p ps)
  show ?case
  proof (cases "pfd_revents p = 0")
    case False
    with Cons.prems [of p] obtain a c where p: "0 < sint (pfd_revents p)"
      "channels s (pfd_fd p) = Some a" "heap s a = Some c"
      by (auto simp: entry_mapped_def)
    let ?s = "put_channel a (c\<lparr>ch_revents := scast (pfd_revents p)\<rparr>) s"
    have "entry_mapped ?s q" if "q \<in> set ps" "pfd_revents q \<noteq> 0" for q
      using Cons.prems [of q] that by (auto simp: entry_mapped_def)
    from Cons.IH [OF this] show ?thesis
      using False p by simp
  next
    case True
    have "getActiveChannels (p # ps) n s = getActiveChannels ps n s" if "0 \<le> n" for n
      using that True by (cases "n = 0"; cases ps) auto
    with Cons True show ?thesis by simp
  qed
qed

lemma mark_ready_same:
  "(\<And>p. p \<in> set ps \<Longrightarrow> entry_mapped s p) \<Longrightarrow> same_slots s (mark_ready ps s)"
proof (induction ps arbitrary: s)
  case (Cons p ps)
  from Cons.prems [of p] obtain a c where p: "channels s (pfd_fd p) = Some a" "heap s a = Some c"
    by (auto simp: entry_mapped_def)
  let ?s = "put_channel a (c\<lparr>ch_revents := scast (pfd_revents p)\<rparr>) s"
  have "same_slots s ?s" using p by (simp add: same_slots_put_channel)
  moreover have "entry_mapped ?s q" if "q \<in> set ps" for q
    using Cons.prems [of q] that by (auto simp: entry_mapped_def)
  then have "same_slots ?s (mark_ready ps ?s)" by (rule Cons.IH)
  ultimately show ?case using p by (simp add: same_slots_trans)
qed simp

lemma mark_ready_other:
  "(\<And>p. p \<in> set ps \<Longrightarrow> the (channels s (pfd_fd p)) \<noteq> a) \<Longrightarrow> heap (mark_ready ps s) a = heap s a"
  by (induction ps arbitrary: s) (auto simp: Let_def)

lemma mark_ready_marks:
  "distinct (map (\<lambda>p. the (channels s (pfd_fd p))) ps) \<Longrightarrow> p \<in> set ps \<Longrightarrow>
   heap (mark_ready ps s) (the (channels s (pfd_fd p))) =
     Some ((the (heap s (the (channels s (pfd_fd p)))))\<lparr>ch_revents := scast (pfd_revents p)\<rparr>)"
proof (induction ps arbitrary: s)
  case (Cons q ps)
  let ?a = "the (channels s (pfd_fd q))"
  let ?s = "put_channel ?a ((the (heap s ?a))\<lparr>ch_revents := scast (pfd_revents q)\<rparr>) s"
  have apart: "the (channels s (pfd_fd r)) \<noteq> ?a" if "r \<in> set ps" for r
  proof -
    have "(\<lambda>p. the (channels s (pfd_fd p))) q \<notin> (\<lambda>p. the (channels s (pfd_fd p))) ` set ps"
      using Cons.prems(1) by simp
    with that show ?thesis by (auto simp: image_iff)
  qed
  show ?case
  proof (cases "p = q")
    case True
    from mark_ready_other [of ps ?s ?a] apart True show ?thesis by (simp add: Let_def)
  next
    case False
    with Cons.prems(2) apart have "the (channels s (pfd_fd p)) \<noteq> ?a" by simp
    with Cons.IH [of ?s] Cons.prems False show ?thesis by (simp add: Let_def)
  qed
qed simp

section \<open>One poll\<close>

text \<open>A watched channel is registered and its entry carries its descriptor, not the ignored form.\<close>

definition watched :: "('cb, 'z) poller_scheme \<Rightarrow> nat \<Rightarrow> 'cb channel \<Rightarrow> bool" where
  "watched s a c \<longleftrightarrow> registered s a c \<and> pfd_fd (pollfds s ! nat (ch_index c)) = ch_fd c"

definition ignored :: "nat \<Rightarrow> ('cb, 'z) poller_scheme \<Rightarrow> bool" where
  "ignored a s \<longleftrightarrow> (\<exists>c. registered s a c \<and> pfd_fd (pollfds s ! nat (ch_index c)) = - ch_fd c - 1)"

definition polled_state :: "(int \<Rightarrow> 16 word) \<Rightarrow> ('cb, 'z) poller_scheme \<Rightarrow> ('cb, 'z) poller_scheme" where
  "polled_state ready s = s\<lparr>pollfds := map (poll_entry ready) (pollfds s)\<rparr>"

lemma poll_entry_simps [simp]:
  "pfd_fd (poll_entry ready p) = pfd_fd p" "pfd_events (poll_entry ready p) = pfd_events p"
  by (simp_all add: poll_entry_def)

lemma same_slots_polled: "same_slots s (polled_state ready s)"
  by (simp add: same_slots_def polled_state_def)

text \<open>The entry of slot \<open>i\<close> has events exactly when its channel is watched and events are found.\<close>

lemma slot_watched: "slot_ok s i a c \<Longrightarrow> watched s a c \<longleftrightarrow> pfd_fd (pollfds s ! i) = ch_fd c"
  by (auto simp: slot_ok_def watched_def registered_def)

lemma slot_revents:
  assumes "slot_ok s i a c"
  shows "pfd_revents (poll_entry ready (pollfds s ! i)) = (if watched s a c then found ready c else 0)"
proof -
  from assms have "pfd_fd (pollfds s ! i) = ch_fd c \<or> pfd_fd (pollfds s ! i) = - ch_fd c - 1"
    "0 \<le> ch_fd c" "pfd_events (pollfds s ! i) = ucast (ch_events c)"
    by (auto simp: slot_ok_def real_fd_iff)
  then show ?thesis
    by (auto simp: slot_watched [OF assms] poll_entry_def found_def)
qed

lemma polled_entries:
  assumes ok: "poller_ok s" and p: "p \<in> set (map (poll_entry ready) (pollfds s))" "pfd_revents p \<noteq> 0"
  obtains i a c where "slot_ok s i a c" "p = poll_entry ready (pollfds s ! i)" "watched s a c"
    "pfd_fd p = ch_fd c" "pfd_revents p = found ready c" "found ready c \<noteq> 0" "0 < sint (pfd_revents p)"
proof -
  from p(1) obtain i where i: "i < length (pollfds s)" "p = poll_entry ready (pollfds s ! i)"
    by (auto simp: in_set_conv_nth)
  from ok i(1) obtain a c where slot: "slot_ok s i a c" by (rule poller_okE_slot)
  from slot_revents [OF slot, of ready] i p(2) have w: "watched s a c" "pfd_revents p = found ready c"
    by (auto split: if_splits)
  from ok slot have "ch_events c \<in> legal_events" unfolding poller_ok_def slot_ok_def by blast
  with w p(2) have "0 < sint (pfd_revents p)" by (simp add: found_pos)
  with that slot i w p(2) show thesis by (simp add: slot_watched [OF slot])
qed

lemma channels_of_entries_distinct:
  assumes ok: "poller_ok s"
  shows "distinct (map (\<lambda>p. the (channels s (pfd_fd p)))
    (filter (\<lambda>p. pfd_revents p \<noteq> 0) (map (poll_entry ready) (pollfds s))))"
proof -
  let ?f = "\<lambda>p. the (channels s (real_fd p))"
  have real: "real_fd (poll_entry ready p) = real_fd p" for p by (simp add: real_fd_def)
  have "distinct (map ?f (map (poll_entry ready) (pollfds s)))"
  proof (clarsimp simp: distinct_conv_nth real)
    fix i j
    assume ij: "i < length (pollfds s)" "j < length (pollfds s)" "i \<noteq> j"
      "?f (pollfds s ! i) = ?f (pollfds s ! j)"
    from ok ij(1,2) obtain a c b d where "slot_ok s i a c" "slot_ok s j b d"
      by (meson poller_okE_slot)
    moreover from this ij(4) have "a = b" by (simp add: slot_ok_def)
    ultimately show False using slot_unique ij(3) by blast
  qed
  then have "distinct (map ?f (filter (\<lambda>p. pfd_revents p \<noteq> 0) (map (poll_entry ready) (pollfds s))))"
    by (rule distinct_map_filter)
  moreover have "map ?f (filter (\<lambda>p. pfd_revents p \<noteq> 0) (map (poll_entry ready) (pollfds s))) =
      map (\<lambda>p. the (channels s (pfd_fd p))) (filter (\<lambda>p. pfd_revents p \<noteq> 0) (map (poll_entry ready) (pollfds s)))"
    by (rule map_cong) (auto simp: real_fd_def poll_entry_def)
  ultimately show ?thesis by simp
qed

definition ready_channels :: "(int \<Rightarrow> 16 word) \<Rightarrow> ('cb, 'z) poller_scheme \<Rightarrow> nat set" where
  "ready_channels ready s = {a. \<exists>c. watched s a c \<and> found ready c \<noteq> 0}"

lemma poll_spec:
  assumes ok: "poller_ok s"
  obtains active s' where "Poller_poll (PollReady ready) s = Inr (active, s')" "same_slots s s'"
    "distinct active" "set active = ready_channels ready s"
    "\<And>a c. a \<in> set active \<Longrightarrow> heap s a = Some c \<Longrightarrow>
       heap s' a = Some (c\<lparr>ch_revents := scast (found ready c)\<rparr>)"
proof -
  let ?s0 = "polled_state ready s"
  define ps where "ps = filter (\<lambda>p. pfd_revents p \<noteq> 0) (map (poll_entry ready) (pollfds s))"
  let ?ch = "\<lambda>p. the (channels s (pfd_fd p))"
  have s0: "channels ?s0 = channels s" "heap ?s0 = heap s" by (simp_all add: polled_state_def)
  have mapped: "entry_mapped ?s0 p" if "p \<in> set (map (poll_entry ready) (pollfds s))" "pfd_revents p \<noteq> 0" for p
    by (rule polled_entries [OF ok that]) (auto simp: entry_mapped_def s0 slot_ok_def)
  have poll: "Poller_poll (PollReady ready) s = Inr (map ?ch ps, mark_ready ps ?s0)"
  proof (cases "ps = []")
    case True
    then show ?thesis by (simp add: Poller_poll_def Let_def ps_def polled_state_def)
  next
    case False
    with getActiveChannels_eq [of "map (poll_entry ready) (pollfds s)" ?s0, OF mapped] show ?thesis
      by (simp add: Poller_poll_def Let_def ps_def [symmetric] s0 polled_state_def [symmetric])
  qed
  have dist: "distinct (map ?ch ps)" unfolding ps_def by (rule channels_of_entries_distinct [OF ok])
  have "same_slots ?s0 (mark_ready ps ?s0)"
    by (rule mark_ready_same) (use mapped in \<open>simp add: ps_def\<close>)
  then have same: "same_slots s (mark_ready ps ?s0)"
    by (rule same_slots_trans [OF same_slots_polled])
  have fwd: "\<exists>c. watched s (?ch p) c \<and> found ready c \<noteq> 0 \<and> pfd_revents p = found ready c" if "p \<in> set ps" for p
  proof -
    from that have "p \<in> set (map (poll_entry ready) (pollfds s))" "pfd_revents p \<noteq> 0" by (simp_all add: ps_def)
    from polled_entries [OF ok this] obtain i a c where slot: "slot_ok s i a c" "watched s a c"
      "pfd_fd p = ch_fd c" "pfd_revents p = found ready c" "found ready c \<noteq> 0" .
    from slot(1,3) have "?ch p = a" by (simp add: slot_ok_def)
    with slot show ?thesis by auto
  qed
  have bwd: "a \<in> set (map ?ch ps)" if w: "watched s a c" and f: "found ready c \<noteq> 0" for a c
  proof -
    from w have "registered s a c" by (simp add: watched_def)
    with ok have slot: "slot_ok s (nat (ch_index c)) a c" by (rule slot_of_registered)
    let ?p = "poll_entry ready (pollfds s ! nat (ch_index c))"
    have "pfd_revents ?p = found ready c" using slot_revents [OF slot] w by simp
    with f slot_okD_less [OF slot] have "?p \<in> set ps" by (simp add: ps_def)
    moreover have "a = ?ch ?p" using w by (simp add: watched_def registered_def)
    ultimately show ?thesis unfolding set_map by (intro image_eqI)
  qed
  have "set (map ?ch ps) = ready_channels ready s"
    using fwd bwd by (fastforce simp: ready_channels_def)
  moreover have "heap (mark_ready ps ?s0) a = Some (c\<lparr>ch_revents := scast (found ready c)\<rparr>)"
    if a: "a \<in> set (map ?ch ps)" and c: "heap s a = Some c" for a c
  proof -
    from a obtain p where p: "p \<in> set ps" "a = ?ch p" by auto
    from fwd [OF p(1)] c p(2) have "pfd_revents p = found ready c" by (auto simp: watched_def registered_def)
    with mark_ready_marks [of ?s0 ps p] dist p c show ?thesis by (simp add: s0)
  qed
  ultimately show thesis using that poll same dist by blast
qed

section \<open>The contract of the interest set\<close>

text \<open>
  What the owner of a channel relies on: an interest change on its channel succeeds, keeps the
  poller well formed and the channel its own; and, as the code has it, a channel that poll
  skips (\<open>quiet\<close>) stays skipped.
\<close>

locale interest_contract =
  fixes ok :: "'s \<Rightarrow> bool"
    and client :: "nat \<Rightarrow> 's \<Rightarrow> bool"
    and quiet :: "nat \<Rightarrow> 's \<Rightarrow> bool"
    and change :: "interest_op \<Rightarrow> nat \<Rightarrow> 's \<Rightarrow> 's res"
  assumes change_ok: "ok s \<Longrightarrow> client a s \<Longrightarrow> okR (\<lambda>s'. ok s' \<and> client a s') (change oper a s)"
    and change_quiet: "ok s \<Longrightarrow> client a s \<Longrightarrow> quiet a s \<Longrightarrow> change oper a s = Inr s' \<Longrightarrow> quiet a s'"
begin

lemma interest_run:
  "ok s \<Longrightarrow> client a s \<Longrightarrow> okR (\<lambda>s'. ok s' \<and> client a s') (foldR (\<lambda>oper. change oper a) ops s)"
  by (rule foldR_okR [where I = "\<lambda>s. ok s \<and> client a s"]) (auto intro: change_ok)

lemma quiet_run:
  assumes "ok s" "client a s" "quiet a s"
  shows "okR (\<lambda>s'. ok s' \<and> client a s' \<and> quiet a s') (foldR (\<lambda>oper. change oper a) ops s)"
proof (rule foldR_okR [where I = "\<lambda>s. ok s \<and> client a s \<and> quiet a s"])
  fix oper s
  assume "ok s \<and> client a s \<and> quiet a s"
  then show "okR (\<lambda>s. ok s \<and> client a s \<and> quiet a s) (change oper a s)"
    using change_ok [of s a oper] change_quiet [of s a oper] by (auto elim!: okR_E)
qed (use assms in simp)

end

lemma ignored_interest_set:
  assumes ok: "poller_ok s" and w: "watchable s a c" and ig: "ignored a s"
  shows "ignored a (interest_set oper a c s)"
proof -
  from ig w have reg: "registered s a c" and fd: "pfd_fd (pollfds s ! nat (ch_index c)) = - ch_fd c - 1"
    by (auto simp: ignored_def registered_def watchable_def)
  from ok reg have slot: "slot_ok s (nat (ch_index c)) a c" by (rule slot_of_registered)
  let ?c = "c\<lparr>ch_events := new_events oper (ch_events c)\<rparr>"
  have "interest_set oper a c s = set_entry a ?c s"
    using slotD(2) [OF slot] by (simp add: interest_set_def Let_def)
  moreover have "registered (set_entry a ?c s) a ?c" using reg by (simp add: registered_def)
  moreover have "pfd_fd (pollfds (set_entry a ?c s) ! nat (ch_index ?c)) = - ch_fd ?c - 1"
    using slot_okD_less [OF slot] fd by (simp add: set_entry_def Let_def)
  ultimately show ?thesis unfolding ignored_def by metis
qed

lemma ignored_when_none:
  assumes ok: "poller_ok s" and reg: "registered s a c" and none: "new_events oper (ch_events c) = kNoneEvent"
  shows "ignored a (interest_set oper a c s)"
proof -
  from ok reg have slot: "slot_ok s (nat (ch_index c)) a c" by (rule slot_of_registered)
  let ?c = "c\<lparr>ch_events := new_events oper (ch_events c)\<rparr>"
  have "interest_set oper a c s = set_entry a ?c s"
    using slotD(2) [OF slot] by (simp add: interest_set_def Let_def)
  moreover have "registered (set_entry a ?c s) a ?c" using reg by (simp add: registered_def)
  moreover have "pfd_fd (pollfds (set_entry a ?c s) ! nat (ch_index ?c)) = - ch_fd ?c - 1"
    using slot_okD_less [OF slot] none by (simp add: set_entry_def Let_def isNoneEvent_def)
  ultimately show ?thesis unfolding ignored_def by metis
qed

lemma ignored_not_ready:
  assumes ok: "poller_ok s" and ig: "ignored a s"
  shows "a \<notin> ready_channels ready s"
proof
  assume "a \<in> ready_channels ready s"
  then obtain c where c: "watched s a c" by (auto simp: ready_channels_def)
  then have "registered s a c" by (simp add: watched_def)
  with ok have "slot_ok s (nat (ch_index c)) a c" by (rule slot_of_registered)
  then have "0 \<le> ch_fd c" by (simp add: slot_ok_def)
  moreover have "ch_fd c = - ch_fd c - 1"
    using c ig by (auto simp: ignored_def watched_def registered_def)
  ultimately show False by linarith
qed

interpretation polls: interest_contract
  "\<lambda>s. poller_ok s \<and> threadId s = t" "\<lambda>a s. \<exists>c. watchable s a c" ignored "Channel_set_interest t"
  for t :: int
proof unfold_locales
  fix s :: "('a, 'b) poller_scheme" and a oper
  assume s: "poller_ok s \<and> threadId s = t" and "\<exists>c. watchable s a c"
  then obtain c where w: "watchable s a c" by blast
  from s w have eq: "Channel_set_interest t oper a s = Inr (interest_set oper a c s)"
    by (simp add: set_interest_eq)
  have "poller_ok (interest_set oper a c s)" using s w by (simp add: interest_set_ok)
  then show "okR (\<lambda>s'. (poller_ok s' \<and> threadId s' = t) \<and> (\<exists>c. watchable s' a c)) (Channel_set_interest t oper a s)"
    using s watchable_interest_set [OF w, of oper] by (auto simp: eq)
  show "ignored a s'" if "ignored a s" "Channel_set_interest t oper a s = Inr s'" for s'
    using that s w ignored_interest_set [of s a c oper] by (simp add: eq)
qed

section \<open>Properties\<close>

text \<open>C12. In a well-formed state \<open>poll\<close> returns without failing an assertion, lists each channel at
  most once, lists exactly the watched channels on whose descriptor the kernel found a requested or
  always-reported event, stores those events in the channel, and leaves the poller well formed.\<close>

theorem poll_reports_ready:
  assumes "poller_ok s"
  shows "okR (\<lambda>(active, s'). poller_ok s' \<and> distinct active \<and> set active = ready_channels ready s
      \<and> (\<forall>a c. a \<in> ready_channels ready s \<and> heap s a = Some c \<longrightarrow>
           heap s' a = Some (c\<lparr>ch_revents := scast (found ready c)\<rparr>)))
    (Poller_poll (PollReady ready) s)"
  by (rule poll_spec [OF assms, of ready]) (use assms in \<open>auto intro: poller_ok_same\<close>)

definition demo_channel :: "int \<Rightarrow> string channel" where
  "demo_channel f = new_channel 0 f"

definition demo_poller :: "string poller" where
  "demo_poller = \<lparr>loopId = 0, threadId = 7, heap = [1 \<mapsto> demo_channel 3, 2 \<mapsto> demo_channel 4],
     pollfds = [], channels = Map.empty\<rparr>"

lemma demo_poller_ok: "poller_ok demo_poller" "watchable demo_poller 1 (demo_channel 3)"
  by (auto simp: poller_ok_def demo_poller_def slot_ok_def watchable_def demo_channel_def new_channel_def
      legal_events_def kNoneEvent_def split: if_splits)

definition demo_reading :: "string poller" where
  "demo_reading = interest_set EnableReading 1 (demo_channel 3) demo_poller"

lemma demo_reading_ok: "poller_ok demo_reading"
  unfolding demo_reading_def by (rule interest_set_ok [OF demo_poller_ok])

lemma demo_reading_eq: "demo_reading = \<lparr>loopId = 0, threadId = 7,
    heap = [1 \<mapsto> (demo_channel 3)\<lparr>ch_events := kReadEvent, ch_index := 0\<rparr>, 2 \<mapsto> demo_channel 4],
    pollfds = [\<lparr>pfd_fd = 3, pfd_events = 3, pfd_revents = 0\<rparr>], channels = [3 \<mapsto> 1]\<rparr>"
  by (simp add: demo_reading_def interest_set_def add_entry_def demo_poller_def demo_channel_def new_channel_def
      Let_def event_masks poll_masks fun_upd_twist)

lemma poll_reports_ready_witness:
  "okR (\<lambda>(active, s'). distinct active \<and> set active = ready_channels (\<lambda>_. 1) demo_reading)
    (Poller_poll (PollReady (\<lambda>_. 1)) demo_reading)"
  by (rule okR_mono [OF poll_reports_ready [OF demo_reading_ok, of "\<lambda>_. 1"]]) auto

text \<open>C27. Changing the interest of a channel that is registered, or new with a descriptor of its own,
  never fails an assertion of \<open>updateChannel\<close>: the poller stays well formed, the channel is mapped
  under its descriptor with the new mask, and no other channel or mapping changes.\<close>

theorem set_interest_total:
  assumes "poller_ok s" and "watchable s a c"
  shows "okR (\<lambda>s'. poller_ok s' \<and> channels s' = (channels s)(ch_fd c \<mapsto> a)
      \<and> (\<exists>c'. watchable s' a c' \<and> ch_events c' = new_events oper (ch_events c) \<and> ch_fd c' = ch_fd c)
      \<and> (\<forall>b. b \<noteq> a \<longrightarrow> heap s' b = heap s b))
    (Channel_set_interest (threadId s) oper a s)"
proof -
  from interest_set_channel [OF assms(2), of oper] have
    "channels (interest_set oper a c s) = (channels s)(ch_fd c \<mapsto> a)"
    "\<forall>b. b \<noteq> a \<longrightarrow> heap (interest_set oper a c s) b = heap s b" by (blast, blast)
  with watchable_interest_set [OF assms(2), of oper] interest_set_ok [OF assms, of oper] show ?thesis
    by (auto simp: set_interest_eq [OF assms refl])
qed

lemma set_interest_total_witness:
  "okR (\<lambda>s'. poller_ok s' \<and> channels s' = [3 \<mapsto> 1]) (Channel_set_interest 7 EnableReading 1 demo_poller)"
  using set_interest_total [OF demo_poller_ok, of EnableReading]
  by (auto simp: demo_poller_def demo_channel_def new_channel_def elim!: okR_mono)

text \<open>C13. Removing a registered channel that asks for nothing and whose entry is ignored never fails
  an assertion: its descriptor is unmapped, all other descriptors keep their channels, the swap
  with the last entry repairs the moved channel's index (the poller stays well formed), and no
  channel changes in anything but its index.\<close>

theorem remove_channel_total:
  assumes "poller_ok s" and "removable s a c"
  shows "okR (\<lambda>s'. poller_ok s' \<and> channels s' = (channels s)(ch_fd c := None)
      \<and> length (pollfds s') = length (pollfds s) - 1
      \<and> (\<forall>b. heap s' b = heap s b
           \<or> (\<exists>d i. heap s b = Some d \<and> heap s' b = Some (d\<lparr>ch_index := i\<rparr>))))
    (EventLoop_removeChannel (threadId s) a s)"
proof -
  from assms have ia: "slot_ok s (nat (ch_index c)) a c"
    by (intro slot_of_registered) (auto simp: removable_def)
  then have "length (pollfds s) - 1 < length (pollfds s)" by (auto simp: slot_ok_def)
  with assms(1) obtain b d where jb: "slot_ok s (length (pollfds s) - 1) b d" by (rule poller_okE_slot)
  show ?thesis
  proof (cases "nat (ch_index c) = length (pollfds s) - 1")
    case True
    then have "poller_ok (drop_last c s)" using assms(1) ia by (simp add: drop_last_ok)
    then show ?thesis
      by (simp add: remove_last_eq [OF assms(2) ia True refl] drop_last_def)
  next
    case False
    then have "poller_ok (move_last c b d s)" by (rule move_last_ok [OF assms(1) ia jb])
    then show ?thesis
      using slotD(1) [OF jb] by (auto simp: remove_moved_eq [OF assms(2) ia refl jb False] move_last_def)
  qed
qed

definition demo_two :: "string poller" where
  "demo_two = \<lparr>loopId = 0, threadId = 7,
     heap = [1 \<mapsto> (demo_channel 3)\<lparr>ch_events := kNoneEvent, ch_index := 0\<rparr>,
             2 \<mapsto> (demo_channel 4)\<lparr>ch_events := kReadEvent, ch_index := 1\<rparr>],
     pollfds = [\<lparr>pfd_fd = -4, pfd_events = 0, pfd_revents = 0\<rparr>, \<lparr>pfd_fd = 4, pfd_events = 3, pfd_revents = 0\<rparr>],
     channels = [3 \<mapsto> 1, 4 \<mapsto> 2]\<rparr>"

lemma demo_two_ok: "poller_ok demo_two"
proof (rule poller_okI)
  have s0: "slot_ok demo_two 0 1 ((demo_channel 3)\<lparr>ch_events := kNoneEvent, ch_index := 0\<rparr>)"
    and s1: "slot_ok demo_two 1 2 ((demo_channel 4)\<lparr>ch_events := kReadEvent, ch_index := 1\<rparr>)"
    by (simp_all add: slot_ok_def demo_two_def demo_channel_def new_channel_def real_fd_def event_masks poll_masks)
  show "\<exists>a c. slot_ok demo_two i a c" if "i < length (pollfds demo_two)" for i
  proof -
    from that have "i = 0 \<or> i = 1" by (auto simp: demo_two_def)
    with s0 s1 show ?thesis by blast
  qed
  show "\<exists>i c. slot_ok demo_two i a c \<and> ch_fd c = f" if "channels demo_two f = Some a" for f a
  proof -
    from that have "f = 4 \<and> a = 2 \<or> f = 3 \<and> a = 1" by (auto simp: demo_two_def split: if_splits)
    moreover have "ch_fd ((demo_channel 3)\<lparr>ch_events := kNoneEvent, ch_index := 0\<rparr>) = 3"
      "ch_fd ((demo_channel 4)\<lparr>ch_events := kReadEvent, ch_index := 1\<rparr>) = 4"
      by (simp_all add: demo_channel_def new_channel_def)
    ultimately show ?thesis using s0 s1 by metis
  qed
  show "ch_events c \<in> legal_events" if "heap demo_two a = Some c" for a c
    using that by (auto simp: demo_two_def legal_events_def split: if_splits)
qed

lemma remove_channel_total_witness:
  "okR (\<lambda>s'. poller_ok s' \<and> channels s' = [4 \<mapsto> 2]) (EventLoop_removeChannel 7 1 demo_two)"
proof -
  have "removable demo_two 1 ((demo_channel 3)\<lparr>ch_events := kNoneEvent, ch_index := 0\<rparr>)"
    by (simp add: removable_def registered_def demo_two_def demo_channel_def new_channel_def isNoneEvent_def)
  from remove_channel_total [OF demo_two_ok this] have
    "okR (\<lambda>s'. poller_ok s' \<and> channels s' = (channels demo_two)(3 := None)) (EventLoop_removeChannel 7 1 demo_two)"
    by (auto simp: demo_two_def demo_channel_def new_channel_def elim!: okR_mono)
  moreover have "(channels demo_two)(3 := None) = [4 \<mapsto> 2]"
    by (auto simp: demo_two_def fun_upd_def)
  ultimately show ?thesis by simp
qed

text \<open>C35. Once the interest of a registered channel has become empty, whether by \<open>disableAll\<close> or by
  \<open>disableWriting\<close> after \<open>enableWriting\<close> (which dropped the read interest), its entry keeps the
  ignored descriptor for good: no later \<open>enableReading\<close> or \<open>enableWriting\<close> makes \<open>poll\<close> report it.\<close>

theorem empty_interest_is_final:
  assumes ok: "poller_ok s" and w: "watchable s a c" and reg: "0 \<le> ch_index c"
    and none: "new_events oper (ch_events c) = kNoneEvent"
  shows "okR (\<lambda>s'. \<forall>ready. okR (\<lambda>(active, _). a \<notin> set active) (Poller_poll (PollReady ready) s'))
    (foldR (\<lambda>oper. Channel_set_interest (threadId s) oper a) (oper # ops) s)"
proof -
  let ?s = "interest_set oper a c s"
  from w reg have "registered s a c" by (simp add: watchable_def registered_def)
  with ok none have "ignored a ?s" by (intro ignored_when_none)
  moreover have "poller_ok ?s \<and> threadId ?s = threadId s" using ok w by (simp add: interest_set_ok)
  moreover have "\<exists>c. watchable ?s a c" using watchable_interest_set [OF w] by blast
  ultimately have "okR (\<lambda>s'. (poller_ok s' \<and> threadId s' = threadId s) \<and> (\<exists>c. watchable s' a c) \<and> ignored a s')
      (foldR (\<lambda>oper. Channel_set_interest (threadId s) oper a) ops ?s)"
    by (intro polls.quiet_run)
  moreover have "okR (\<lambda>(active, _). a \<notin> set active) (Poller_poll (PollReady ready) s')"
    if "poller_ok s'" "ignored a s'" for s' ready
    by (rule poll_spec [OF that(1), of ready]) (use ignored_not_ready [OF that, of ready] in auto)
  ultimately show ?thesis
    by (auto simp: set_interest_eq [OF ok w refl] elim!: okR_mono)
qed

lemma empty_interest_is_final_witness:
  "okR (\<lambda>s'. \<forall>ready. okR (\<lambda>(active, _). 1 \<notin> set active) (Poller_poll (PollReady ready) s'))
    (foldR (\<lambda>oper. Channel_set_interest 7 oper 1) [DisableAll, EnableReading] demo_reading)"
proof -
  let ?c = "(demo_channel 3)\<lparr>ch_events := kReadEvent, ch_index := 0\<rparr>"
  have "watchable demo_reading 1 ?c" "0 \<le> ch_index ?c"
    by (simp_all add: demo_reading_eq watchable_def demo_channel_def new_channel_def)
  from empty_interest_is_final [OF demo_reading_ok this, of DisableAll "[EnableReading]"] show ?thesis
    by (simp add: demo_reading_eq)
qed

end
