(* ===== verification/Loops.thy ===== *)
theory Loops
  imports Polling
begin

text \<open>
  The \<open>EventLoop\<close> (\<open>EventLoop.h\<close>, \<open>EventLoop.cpp\<close>) on top of the poller: the flags, the \<open>eventfd\<close>
  that wakes it, the queue of functors and the loop itself. The closures that the sources hand
  around (\<open>utils/Callbacks.h\<close>) are named by two datatypes; what running one means is an argument
  of the operations that run them (\<open>call\<close> for a channel's callback, \<open>run\<close> for a functor).
  Timers come in theory TimerQueues, the constructor in theory Servers.
\<close>

section \<open>The closures\<close>

text \<open>
  \<open>callback\<close>: the read callbacks bound in the constructors of \<open>EventLoop\<close>, \<open>TimerQueue\<close>,
  \<open>Acceptor\<close> and \<open>TcpConnection\<close>. \<open>task\<close>: the functors given to \<open>runInLoop\<close> and \<open>queueInLoop\<close>;
  \<open>'u\<close> names the functions of the program that uses the library. Two lambdas capture a variable
  of the enclosing call by reference: they carry the address of that variable.
\<close>

datatype callback = WakeupRead | TimerRead | AcceptorRead | ConnectionRead nat

datatype 'u task =
    UserTask 'u
  | AddTimerInLoop (timer_ref: nat)
  | SendInLoop (conn: nat) (message_ref: nat)
  | ShutdownInLoop (conn: nat)
  | ConnectDestroyed (conn: nat)
  | AcceptorListen

section \<open>State\<close>

text \<open>
  \<open>eventCount\<close> is the kernel's counter behind \<open>wakeupFd_\<close>; \<open>clock i\<close> is what the i-th next call of
  \<open>gettimeofday\<close> will store, and \<open>last_reading\<close> the time it told last.
\<close>

record 'u evloop = "callback poller" +
  looping :: bool
  quit_flag :: bool
  callingPendingFunctors :: bool
  wakeupFd :: int
  wakeupChannel :: nat
  eventCount :: nat
  pendingFunctors :: "'u task list"
  clock :: "nat \<Rightarrow> int \<times> int"
  last_reading :: timestamp

definition current_time :: "('u, 'z) evloop_scheme \<Rightarrow> (timestamp \<times> ('u, 'z) evloop_scheme) res" where
  "current_time s =
     bindR (timestamp_now (clock s 0)) (\<lambda>now.
     Inr (now, s\<lparr>clock := \<lambda>i. clock s (Suc i), last_reading := now\<rparr>))"

section \<open>Waking the loop\<close>

text \<open>
  A write of 1 to the non-blocking \<open>eventfd\<close> fails once the counter has reached its maximum; a
  read returns the counter and clears it, and fails when it is 0. Both failures are only logged.
\<close>

definition eventfd_max :: nat where
  "eventfd_max = 2 ^ 64 - 2"

definition wakeup :: "('u, 'z) evloop_scheme \<Rightarrow> ('u, 'z) evloop_scheme" where
  "wakeup s = (if eventCount s + 1 \<le> eventfd_max then s\<lparr>eventCount := eventCount s + 1\<rparr> else s)"

definition EventLoop_handleRead :: "('u, 'z) evloop_scheme \<Rightarrow> ('u, 'z) evloop_scheme" where
  "EventLoop_handleRead s = s\<lparr>eventCount := 0\<rparr>"

definition push_functor :: "'u task \<Rightarrow> ('u, 'z) evloop_scheme \<Rightarrow> ('u, 'z) evloop_scheme" where
  "push_functor f s = s\<lparr>pendingFunctors := pendingFunctors s @ [f]\<rparr>"

definition queueInLoop :: "int \<Rightarrow> 'u task \<Rightarrow> ('u, 'z) evloop_scheme \<Rightarrow> ('u, 'z) evloop_scheme" where
  "queueInLoop t f s =
     (let s1 = push_functor f s
      in if \<not> isInLoopThread t s1 \<or> callingPendingFunctors s1 then wakeup s1 else s1)"

text \<open>\<open>body\<close> is what calling the functor \<open>f\<close> does.\<close>

definition runInLoop ::
  "int \<Rightarrow> 'u task \<Rightarrow> (('u, 'z) evloop_scheme \<Rightarrow> ('u, 'z) evloop_scheme res)
   \<Rightarrow> ('u, 'z) evloop_scheme \<Rightarrow> ('u, 'z) evloop_scheme res" where
  "runInLoop t f body s = (if isInLoopThread t s then body s else Inr (queueInLoop t f s))"

definition EventLoop_quit :: "int \<Rightarrow> ('u, 'z) evloop_scheme \<Rightarrow> ('u, 'z) evloop_scheme" where
  "EventLoop_quit t s =
     (let s1 = s\<lparr>quit_flag := True\<rparr> in if \<not> isInLoopThread t s1 then wakeup s1 else s1)"

section \<open>The loop\<close>

definition take_functors :: "('u, 'z) evloop_scheme \<Rightarrow> 'u task list \<times> ('u, 'z) evloop_scheme" where
  "take_functors s =
     (pendingFunctors s, s\<lparr>callingPendingFunctors := True, pendingFunctors := []\<rparr>)"

text \<open>\<open>release\<close> destroys the vector of functors, and with it what the closures own.\<close>

definition doPendingFunctors ::
  "('u task \<Rightarrow> ('u, 'z) evloop_scheme \<Rightarrow> ('u, 'z) evloop_scheme res)
   \<Rightarrow> ('u task list \<Rightarrow> ('u, 'z) evloop_scheme \<Rightarrow> ('u, 'z) evloop_scheme)
   \<Rightarrow> ('u, 'z) evloop_scheme \<Rightarrow> ('u, 'z) evloop_scheme res" where
  "doPendingFunctors run release s =
     (let (functors, s1) = take_functors s in
      bindR (foldR run functors s1) (\<lambda>s2.
      Inr (release functors (s2\<lparr>callingPendingFunctors := False\<rparr>))))"

definition handle_active ::
  "(callback \<Rightarrow> timestamp \<Rightarrow> ('u, 'z) evloop_scheme \<Rightarrow> ('u, 'z) evloop_scheme res)
   \<Rightarrow> nat \<Rightarrow> ('u, 'z) evloop_scheme \<Rightarrow> ('u, 'z) evloop_scheme res" where
  "handle_active call a s = bindR (current_time s) (\<lambda>(now, s1). handleEvent call now a s1)"

definition loop_body ::
  "(callback \<Rightarrow> timestamp \<Rightarrow> ('u, 'z) evloop_scheme \<Rightarrow> ('u, 'z) evloop_scheme res)
   \<Rightarrow> ('u task \<Rightarrow> ('u, 'z) evloop_scheme \<Rightarrow> ('u, 'z) evloop_scheme res)
   \<Rightarrow> ('u task list \<Rightarrow> ('u, 'z) evloop_scheme \<Rightarrow> ('u, 'z) evloop_scheme)
   \<Rightarrow> poll_outcome \<Rightarrow> ('u, 'z) evloop_scheme \<Rightarrow> ('u, 'z) evloop_scheme res" where
  "loop_body call run release outcome s =
     bindR (Poller_poll outcome s) (\<lambda>(active, s1).
     bindR (foldR (handle_active call) active s1) (\<lambda>s2.
     doPendingFunctors run release s2))"

text \<open>
  The \<open>while\<close> loop, over the outcomes of the successive polls: \<open>True\<close> with the state when it ended,
  \<open>False\<close> with the state in which it waits for a further poll.
\<close>

fun loop_while ::
  "(callback \<Rightarrow> timestamp \<Rightarrow> ('u, 'z) evloop_scheme \<Rightarrow> ('u, 'z) evloop_scheme res)
   \<Rightarrow> ('u task \<Rightarrow> ('u, 'z) evloop_scheme \<Rightarrow> ('u, 'z) evloop_scheme res)
   \<Rightarrow> ('u task list \<Rightarrow> ('u, 'z) evloop_scheme \<Rightarrow> ('u, 'z) evloop_scheme)
   \<Rightarrow> poll_outcome list \<Rightarrow> ('u, 'z) evloop_scheme \<Rightarrow> (bool \<times> ('u, 'z) evloop_scheme) res" where
  "loop_while call run release [] s = Inr (quit_flag s, s)"
| "loop_while call run release (outcome # outcomes) s =
     (if quit_flag s then Inr (True, s)
      else bindR (loop_body call run release outcome s) (loop_while call run release outcomes))"

definition EventLoop_loop ::
  "(callback \<Rightarrow> timestamp \<Rightarrow> ('u, 'z) evloop_scheme \<Rightarrow> ('u, 'z) evloop_scheme res)
   \<Rightarrow> ('u task \<Rightarrow> ('u, 'z) evloop_scheme \<Rightarrow> ('u, 'z) evloop_scheme res)
   \<Rightarrow> ('u task list \<Rightarrow> ('u, 'z) evloop_scheme \<Rightarrow> ('u, 'z) evloop_scheme)
   \<Rightarrow> int \<Rightarrow> poll_outcome list \<Rightarrow> ('u, 'z) evloop_scheme \<Rightarrow> (bool \<times> ('u, 'z) evloop_scheme) res" where
  "EventLoop_loop call run release t outcomes s =
     bindR (assertR ''!looping_'' (\<not> looping s)) (\<lambda>_.
     bindR (assertInLoopThread t s) (\<lambda>_.
     bindR (loop_while call run release outcomes (s\<lparr>looping := True, quit_flag := False\<rparr>)) (\<lambda>(ended, s1).
     Inr (ended, if ended then s1\<lparr>looping := False\<rparr> else s1))))"

definition EventLoop_dtor :: "('u, 'z) evloop_scheme \<Rightarrow> unit res" where
  "EventLoop_dtor s = assertR ''!looping_'' (\<not> looping s)"

section \<open>The contract of the loop\<close>

text \<open>
  What the loop relies on, for callbacks \<open>call\<close>, functors run by \<open>run\<close> and destroyed by \<open>release\<close>, and
  what it keeps in turn. \<open>inv ds fs s\<close> is the invariant while the functors \<open>ds\<close> have been called and
  \<open>fs\<close> are still to be called; \<open>live a s\<close> says that the channel \<open>a\<close> may be dispatched. \<open>E\<close> are the
  faults that may end the program.
\<close>

locale reactor =
  fixes E :: "fault set"
    and inv :: "'u task list \<Rightarrow> 'u task list \<Rightarrow> ('u, 'z) evloop_scheme \<Rightarrow> bool"
    and live :: "nat \<Rightarrow> ('u, 'z) evloop_scheme \<Rightarrow> bool"
    and call :: "callback \<Rightarrow> timestamp \<Rightarrow> ('u, 'z) evloop_scheme \<Rightarrow> ('u, 'z) evloop_scheme res"
    and run :: "'u task \<Rightarrow> ('u, 'z) evloop_scheme \<Rightarrow> ('u, 'z) evloop_scheme res"
    and release :: "'u task list \<Rightarrow> ('u, 'z) evloop_scheme \<Rightarrow> ('u, 'z) evloop_scheme"
  assumes polled: "inv [] [] s \<Longrightarrow>
      safeR E (\<lambda>(active, s'). inv [] [] s' \<and> distinct active \<and> (\<forall>a \<in> set active. live a s')) (Poller_poll outcome s)"
    and event: "inv [] [] s \<Longrightarrow> live a s \<Longrightarrow>
      safeR E (\<lambda>s'. inv [] [] s' \<and> (\<forall>b. b \<noteq> a \<longrightarrow> live b s \<longrightarrow> live b s')) (handle_active call a s)"
    and taken: "inv [] [] s \<Longrightarrow> inv [] (pendingFunctors s) (snd (take_functors s))"
    and called: "inv ds (f # fs) s \<Longrightarrow> safeR E (inv (ds @ [f]) fs) (run f s)"
    and released: "inv fs [] s \<Longrightarrow> inv [] [] (release fs (s\<lparr>callingPendingFunctors := False\<rparr>))"
    and flags: "inv [] [] s \<Longrightarrow> inv [] [] (s\<lparr>looping := b, quit_flag := q\<rparr>)"
begin

lemma dispatch_safe:
  assumes "inv [] [] s" and "distinct active" and "\<forall>a \<in> set active. live a s"
  shows "safeR E (inv [] []) (foldR (handle_active call) active s)"
proof -
  have "safeR E (\<lambda>s'. inv [] [] s' \<and> (\<forall>a \<in> set []. live a s')) (foldR (handle_active call) active s)"
  proof (rule foldR_safeR_split [where I = "\<lambda>ys zs s. inv [] [] s \<and> (\<forall>a \<in> set zs. live a s)"])
    fix ys x zs s
    assume act: "active = ys @ x # zs" and s: "inv [] [] s \<and> (\<forall>a \<in> set (x # zs). live a s)"
    have "\<forall>b \<in> set zs. b \<noteq> x" using assms(2) act by auto
    then show "safeR E (\<lambda>s'. inv [] [] s' \<and> (\<forall>a \<in> set zs. live a s')) (handle_active call x s)"
      using event [of s x] s by (auto elim!: safeR_mono)
  qed (use assms in auto)
  then show ?thesis by simp
qed

lemma drain_safe:
  assumes "inv [] [] s"
  shows "safeR E (inv [] []) (doPendingFunctors run release s)"
proof -
  have "safeR E (inv (pendingFunctors s) []) (foldR run (pendingFunctors s) (snd (take_functors s)))"
    using taken [OF assms] called by (rule foldR_safeR_split)
  then show ?thesis
    by (auto simp: doPendingFunctors_def take_functors_def elim!: safeR_mono intro: released)
qed

lemma body_safe: "inv [] [] s \<Longrightarrow> safeR E (inv [] []) (loop_body call run release outcome s)"
  unfolding loop_body_def safeR_bindR
  by (rule safeR_mono [OF polled]) (auto elim!: safeR_mono [OF dispatch_safe] intro: drain_safe)

lemma while_safe:
  "inv [] [] s \<Longrightarrow> safeR E (\<lambda>(_, s'). inv [] [] s') (loop_while call run release outcomes s)"
proof (induction outcomes arbitrary: s)
  case (Cons outcome outcomes)
  then show ?case by (auto intro: safeR_mono [OF body_safe])
qed simp

lemma loop_safe:
  assumes "inv [] [] s" and "\<not> looping s" and "threadId s = t"
  shows "safeR E (\<lambda>(_, s'). inv [] [] s') (EventLoop_loop call run release t outcomes s)"
proof -
  have "safeR E (\<lambda>(ended, s'). inv [] [] s')
      (loop_while call run release outcomes (s\<lparr>looping := True, quit_flag := False\<rparr>))"
    by (rule while_safe) (rule flags [OF assms(1)])
  moreover have "inv [] [] (s'\<lparr>looping := False\<rparr>)" if "inv [] [] s'" for s'
    using flags [OF that, where b = False and q = "quit_flag s'"] by simp
  ultimately show ?thesis
    using assms(2,3) by (auto simp: EventLoop_loop_def assertInLoopThread_def isInLoopThread_def
        elim!: safeR_mono)
qed

end

end
