(* ===== verification/Wakeups.thy ===== *)
theory Wakeups
  imports Loops
begin

text \<open>
  The loop thread step by step, and the other threads that queue functors, wake the loop and quit it between two of
  its steps. A round of the loop, as theory \<open>Loops\<close> has it, is a run of these steps. Also what queueing, waking and
  quitting leave alone.
\<close>

section \<open>What waking and queueing leave alone\<close>

lemma wakeup_simps [simp]:
  "0 < eventCount (wakeup s)" "pendingFunctors (wakeup s) = pendingFunctors s"
  "callingPendingFunctors (wakeup s) = callingPendingFunctors s" "quit_flag (wakeup s) = quit_flag s"
  "threadId (wakeup s) = threadId s" "heap (wakeup s) = heap s" "pollfds (wakeup s) = pollfds s"
  "channels (wakeup s) = channels s" "loopId (wakeup s) = loopId s" "looping (wakeup s) = looping s"
  "clock (wakeup s) = clock s" "last_reading (wakeup s) = last_reading s" "evloop.more (wakeup s) = evloop.more s"
  "wakeupFd (wakeup s) = wakeupFd s" "wakeupChannel (wakeup s) = wakeupChannel s"
  by (auto simp: wakeup_def eventfd_max_def)

lemma push_functor_simps [simp]:
  "pendingFunctors (push_functor f s) = pendingFunctors s @ [f]"
  "eventCount (push_functor f s) = eventCount s" "quit_flag (push_functor f s) = quit_flag s"
  "callingPendingFunctors (push_functor f s) = callingPendingFunctors s"
  "threadId (push_functor f s) = threadId s" "heap (push_functor f s) = heap s"
  "pollfds (push_functor f s) = pollfds s" "channels (push_functor f s) = channels s"
  "loopId (push_functor f s) = loopId s" "looping (push_functor f s) = looping s"
  "clock (push_functor f s) = clock s" "last_reading (push_functor f s) = last_reading s" "evloop.more (push_functor f s) = evloop.more s"
  "wakeupFd (push_functor f s) = wakeupFd s" "wakeupChannel (push_functor f s) = wakeupChannel s"
  by (simp_all add: push_functor_def)

lemma queueInLoop_simps [simp]:
  "pendingFunctors (queueInLoop t f s) = pendingFunctors s @ [f]"
  "callingPendingFunctors (queueInLoop t f s) = callingPendingFunctors s"
  "quit_flag (queueInLoop t f s) = quit_flag s" "threadId (queueInLoop t f s) = threadId s"
  "heap (queueInLoop t f s) = heap s" "pollfds (queueInLoop t f s) = pollfds s"
  "channels (queueInLoop t f s) = channels s" "loopId (queueInLoop t f s) = loopId s"
  "looping (queueInLoop t f s) = looping s" "clock (queueInLoop t f s) = clock s" "last_reading (queueInLoop t f s) = last_reading s"
  "evloop.more (queueInLoop t f s) = evloop.more s"
  "wakeupFd (queueInLoop t f s) = wakeupFd s" "wakeupChannel (queueInLoop t f s) = wakeupChannel s"
  by (simp_all add: queueInLoop_def Let_def)

lemma queueInLoop_wakes:
  "\<not> isInLoopThread t s \<or> callingPendingFunctors s \<Longrightarrow> 0 < eventCount (queueInLoop t f s)"
  by (simp add: queueInLoop_def Let_def isInLoopThread_def)

lemma queueInLoop_keeps_count: "0 < eventCount s \<Longrightarrow> 0 < eventCount (queueInLoop t f s)"
  by (simp add: queueInLoop_def Let_def)

section \<open>The loop and the other threads\<close>

text \<open>
  Where the loop thread is: at the head of its loop, in \<open>poll\<close>, in the callbacks of the active channels (those
  left), in \<open>doPendingFunctors\<close> (the functors called and those left), out of the loop, or stopped by a fault.
\<close>

datatype 'u phase = Waiting | Polling | Handling "nat list" | Calling "'u task list" "'u task list" | Over | Crashed fault

inductive loop_own ::
  "(callback \<Rightarrow> timestamp \<Rightarrow> ('u, 'z) evloop_scheme \<Rightarrow> ('u, 'z) evloop_scheme res)
   \<Rightarrow> ('u task \<Rightarrow> ('u, 'z) evloop_scheme \<Rightarrow> ('u, 'z) evloop_scheme res)
   \<Rightarrow> ('u task list \<Rightarrow> ('u, 'z) evloop_scheme \<Rightarrow> ('u, 'z) evloop_scheme)
   \<Rightarrow> 'u phase \<times> ('u, 'z) evloop_scheme \<Rightarrow> 'u phase \<times> ('u, 'z) evloop_scheme \<Rightarrow> bool"
  for call run release where
  ended: "quit_flag s \<Longrightarrow> loop_own call run release (Waiting, s) (Over, s\<lparr>looping := False\<rparr>)"
| goes_on: "\<not> quit_flag s \<Longrightarrow> loop_own call run release (Waiting, s) (Polling, s)"
| polled: "Poller_poll outcome s = Inr (active, s') \<Longrightarrow> loop_own call run release (Polling, s) (Handling active, s')"
| poll_fails: "Poller_poll outcome s = Inl e \<Longrightarrow> loop_own call run release (Polling, s) (Crashed e, s)"
| handled: "handle_active call a s = Inr s' \<Longrightarrow> loop_own call run release (Handling (a # as), s) (Handling as, s')"
| handle_fails: "handle_active call a s = Inl e \<Longrightarrow> loop_own call run release (Handling (a # as), s) (Crashed e, s)"
| taken: "take_functors s = (fs, s') \<Longrightarrow> loop_own call run release (Handling [], s) (Calling [] fs, s')"
| called: "run f s = Inr s' \<Longrightarrow> loop_own call run release (Calling ds (f # fs), s) (Calling (ds @ [f]) fs, s')"
| call_fails: "run f s = Inl e \<Longrightarrow> loop_own call run release (Calling ds (f # fs), s) (Crashed e, s)"
| released: "loop_own call run release (Calling ds [], s) (Waiting, release ds (s\<lparr>callingPendingFunctors := False\<rparr>))"

inductive_cases loop_ownE [consumes 1, case_names ended goes_on polled poll_fails handled handle_fails taken called
  call_fails released]: "loop_own call run release x y"

text \<open>The steps of the loop thread, and those of the others, which may come at any time.\<close>

inductive loop_step ::
  "(callback \<Rightarrow> timestamp \<Rightarrow> ('u, 'z) evloop_scheme \<Rightarrow> ('u, 'z) evloop_scheme res)
   \<Rightarrow> ('u task \<Rightarrow> ('u, 'z) evloop_scheme \<Rightarrow> ('u, 'z) evloop_scheme res)
   \<Rightarrow> ('u task list \<Rightarrow> ('u, 'z) evloop_scheme \<Rightarrow> ('u, 'z) evloop_scheme)
   \<Rightarrow> 'u phase \<times> ('u, 'z) evloop_scheme \<Rightarrow> 'u phase \<times> ('u, 'z) evloop_scheme \<Rightarrow> bool"
  for call run release where
  own: "loop_own call run release x y \<Longrightarrow> loop_step call run release x y"
| pushes: "loop_step call run release (p, s) (p, push_functor (UserTask u) s)"
| wakes: "loop_step call run release (p, s) (p, wakeup s)"
| quits: "loop_step call run release (p, s) (p, s\<lparr>quit_flag := True\<rparr>)"

inductive_cases loop_stepE [consumes 1, case_names own pushes wakes quits]: "loop_step call run release x y"

text \<open>Unless the loop is over or the program has ended, the loop thread can go on; \<open>poll\<close> returns at its timeout at
  the latest.\<close>

lemma own_ready: "p \<noteq> Over \<Longrightarrow> \<forall>e. p \<noteq> Crashed e \<Longrightarrow> \<exists>y. loop_own call run release (p, s) y"
proof (cases p)
  case Waiting
  then show ?thesis using loop_own.ended [of s] loop_own.goes_on [of s] by blast
next
  case Polling
  obtain active s' where "Poller_poll PollFails s = Inr (active, s')" by (simp add: Poller_poll_def)
  with Polling show ?thesis using loop_own.polled by blast
next
  case (Handling as)
  show ?thesis
  proof (cases as)
    case Nil
    obtain fs s' where "take_functors s = (fs, s')" by fastforce
    with Nil Handling show ?thesis using loop_own.taken by blast
  next
    case (Cons a bs)
    then show ?thesis using Handling loop_own.handled loop_own.handle_fails by (cases "handle_active call a s") blast+
  qed
next
  case (Calling ds fs)
  show ?thesis
  proof (cases fs)
    case Nil
    then show ?thesis using Calling loop_own.released by blast
  next
    case (Cons f gs)
    then show ?thesis using Calling loop_own.called loop_own.call_fails by (cases "run f s") blast+
  qed
qed auto

section \<open>A round is a run\<close>

lemma foldR_steps:
  assumes "foldR (handle_active call) as s = Inr s'"
  shows "(loop_own call run release)\<^sup>*\<^sup>* (Handling as, s) (Handling [], s')"
  using assms
proof (induction as arbitrary: s)
  case (Cons a as)
  then obtain s1 where s1: "handle_active call a s = Inr s1" "foldR (handle_active call) as s1 = Inr s'" by (auto simp: res_simps)
  from loop_own.handled [OF s1(1)] Cons.IH [OF s1(2)] show ?case by (rule converse_rtranclp_into_rtranclp)
qed simp

lemma functor_steps:
  assumes "foldR run fs s = Inr s'"
  shows "(loop_own call run release)\<^sup>*\<^sup>* (Calling ds fs, s) (Calling (ds @ fs) [], s')"
  using assms
proof (induction fs arbitrary: ds s)
  case (Cons f fs)
  then obtain s1 where s1: "run f s = Inr s1" "foldR run fs s1 = Inr s'" by (auto simp: res_simps)
  have "loop_own call run release (Calling ds (f # fs), s) (Calling (ds @ [f]) fs, s1)" by (rule loop_own.called) (rule s1(1))
  moreover have "(loop_own call run release)\<^sup>*\<^sup>* (Calling (ds @ [f]) fs, s1) (Calling (ds @ f # fs) [], s')"
    using Cons.IH [OF s1(2), of "ds @ [f]"] by simp
  ultimately show ?case by (rule converse_rtranclp_into_rtranclp)
qed simp

lemma round_steps:
  assumes "loop_body call run release outcome s = Inr s'" and "\<not> quit_flag s"
  shows "(loop_own call run release)\<^sup>*\<^sup>* (Waiting, s) (Waiting, s')"
proof -
  from assms(1) obtain active x s2 where s: "Poller_poll outcome s = Inr (active, x)" "foldR (handle_active call) active x = Inr s2"
    "doPendingFunctors run release s2 = Inr s'" by (auto simp: loop_body_def res_simps)
  obtain fs s3 where t: "take_functors s2 = (fs, s3)" by fastforce
  with s(3) obtain s4 where "foldR run fs s3 = Inr s4" "s' = release fs (s4\<lparr>callingPendingFunctors := False\<rparr>)"
    by (auto simp: doPendingFunctors_def res_simps)
  note s1 = s(1,2) t this
  let ?step = "loop_own call run release"
  have "?step\<^sup>*\<^sup>* (Waiting, s) (Handling active, x)" using loop_own.goes_on [OF assms(2)] loop_own.polled [OF s1(1)] by (meson converse_rtranclp_into_rtranclp r_into_rtranclp)
  also have "?step\<^sup>*\<^sup>* (Handling active, x) (Handling [], s2)" by (rule foldR_steps [OF s1(2)])
  also have "?step\<^sup>*\<^sup>* (Handling [], s2) (Calling [] fs, s3)" using s1(3) by (blast intro: loop_own.taken)
  also have "?step\<^sup>*\<^sup>* (Calling [] fs, s3) (Calling fs [], s4)" using functor_steps [OF s1(4), of call release "[]"] by simp
  also have "?step\<^sup>*\<^sup>* (Calling fs [], s4) (Waiting, s')" unfolding s1(5) by (blast intro: loop_own.released)
  finally show ?thesis .
qed

lemma round_shared:
  assumes "loop_body call run release outcome s = Inr s'" and "\<not> quit_flag s"
  shows "(loop_step call run release)\<^sup>*\<^sup>* (Waiting, s) (Waiting, s')"
  using round_steps [OF assms] by (rule rtranclp_mono [THEN predicate2D, rotated]) (blast intro: loop_step.own)

end
