(* ===== verification/TimerQueues.thy ===== *)
theory TimerQueues
  imports Wakeups "HOL-Library.Product_Lexorder"
begin

text \<open>
  Timers (\<open>time/Timer.h\<close>, \<open>time/Timer.cpp\<close>) and the \<open>TimerQueue\<close> of a loop (\<open>TimerQueue.h\<close>,
  \<open>TimerQueue.cpp\<close>) with the calls of \<open>EventLoop\<close> that add timers: a \<open>std::set\<close> of entries ordered by
  time and address, one \<open>timerfd\<close> armed for the first of them. The lemmas about them are in theory
  TimerProps.
\<close>

section \<open>Timers\<close>

record 'u timer =
  timer_callback :: 'u
  expiration :: timestamp
  interval :: double
  repeating :: bool

definition new_timer :: "'u \<Rightarrow> timestamp \<Rightarrow> double \<Rightarrow> 'u timer" where
  "new_timer cb when delta =
     \<lparr>timer_callback = cb, expiration = when, interval = delta, repeating = double_positive delta\<rparr>"

definition timer_restart :: "timestamp \<Rightarrow> 'u timer \<Rightarrow> 'u timer res" where
  "timer_restart now tm =
     (if repeating tm
      then bindR (addTime now (interval tm)) (\<lambda>e. Inr (tm\<lparr>expiration := e\<rparr>))
      else Inr (tm\<lparr>expiration := invalid_timestamp\<rparr>))"

section \<open>std::set\<close>

text \<open>The elements of the set in its order, each once.\<close>

definition set_insert :: "'a::linorder \<Rightarrow> 'a list \<Rightarrow> bool \<times> 'a list" where
  "set_insert x xs = (if x \<in> set xs then (False, xs) else (True, insort x xs))"

definition set_lower_bound :: "'a::linorder \<Rightarrow> 'a list \<Rightarrow> 'a list \<times> 'a list" where
  "set_lower_bound x xs = (takeWhile (\<lambda>y. y < x) xs, dropWhile (\<lambda>y. y < x) xs)"

section \<open>State\<close>

text \<open>
  \<open>timer_heap\<close> holds the \<open>Timer\<close> objects by address (0 is the null pointer), and \<open>malloc i\<close> is the
  address that the i-th next allocation returns. \<open>timerfd_due\<close> is the time, in microseconds, at which
  the kernel's one-shot timer expires, \<open>timerfd_ticks\<close> its unread expirations. \<open>timer_vars\<close> holds
  the local variable \<open>timer\<close> of every call of \<open>addTimer\<close> that has not returned; a call is named by
  the timer it made.
\<close>

type_synonym entry = "timestamp \<times> nat"

record 'u tqloop = "'u evloop" +
  timerfd :: int
  timerfdChannel :: nat
  timer_heap :: "nat \<rightharpoonup> 'u timer"
  timers :: "entry list"
  timerfd_due :: "int option"
  timerfd_ticks :: nat
  timer_vars :: "nat \<rightharpoonup> nat"
  malloc :: "nat \<Rightarrow> nat"

definition get_timer :: "nat \<Rightarrow> ('u, 'z) tqloop_scheme \<Rightarrow> 'u timer res" where
  "get_timer a s = (case timer_heap s a of None \<Rightarrow> Inl (Undefined ''dangling timer'') | Some tm \<Rightarrow> Inr tm)"

section \<open>The timerfd\<close>

definition howMuchTimeFromNow ::
  "timestamp \<Rightarrow> ('u, 'z) tqloop_scheme \<Rightarrow> ((int \<times> int) \<times> ('u, 'z) tqloop_scheme) res" where
  "howMuchTimeFromNow when s =
     bindR (current_time s) (\<lambda>(now, s1).
     bindR (chk64 (microSecondsSinceEpoch when - microSecondsSinceEpoch now)) (\<lambda>us.
     let microseconds = (if us < 100 then 100 else us) in
     Inr ((microseconds sdiv kMicroSecondsPerSecond, microseconds smod kMicroSecondsPerSecond * 1000), s1)))"

text \<open>\<open>timerfd_settime\<close> rejects a timespec whose fields are out of range (the failure is only
  logged); zero disarms; otherwise the timer expires that long after the present.\<close>

definition timespec_valid :: "int \<times> int \<Rightarrow> bool" where
  "timespec_valid ts \<longleftrightarrow> 0 \<le> fst ts \<and> 0 \<le> snd ts \<and> snd ts < 10 ^ 9"

definition timerfd_settime :: "int \<times> int \<Rightarrow> ('u, 'z) tqloop_scheme \<Rightarrow> ('u, 'z) tqloop_scheme" where
  "timerfd_settime ts s = (if timespec_valid ts
     then s\<lparr>timerfd_due := (if ts = (0, 0) then None
              else Some (microSecondsSinceEpoch (last_reading s) + fst ts * 10 ^ 6 + snd ts div 1000)),
            timerfd_ticks := 0\<rparr>
     else s)"

definition resetTimerfd :: "timestamp \<Rightarrow> ('u, 'z) tqloop_scheme \<Rightarrow> ('u, 'z) tqloop_scheme res" where
  "resetTimerfd when s =
     bindR (howMuchTimeFromNow when s) (\<lambda>(ts, s1). Inr (timerfd_settime ts s1))"

definition readTimerfd :: "('u, 'z) tqloop_scheme \<Rightarrow> ('u, 'z) tqloop_scheme" where
  "readTimerfd s = s\<lparr>timerfd_ticks := 0\<rparr>"

section \<open>TimerQueue\<close>

text \<open>\<open>r\<close> is what \<open>timerfd_create\<close> returns, -1 when it fails; the channel object is at \<open>a\<close>.\<close>

definition createTimerfd :: "int \<Rightarrow> int res" where
  "createTimerfd r = bindR (assertR ''timerfd >= 0'' (0 \<le> r)) (\<lambda>_. Inr r)"

definition TimerQueue_ctor ::
  "int \<Rightarrow> int \<Rightarrow> nat \<Rightarrow> ('u, 'z) tqloop_scheme \<Rightarrow> ('u, 'z) tqloop_scheme res" where
  "TimerQueue_ctor t r a s =
     bindR (createTimerfd r) (\<lambda>f.
     let s1 = put_channel a (setReadCallBack TimerRead (new_channel (loopId s) f))
       (s\<lparr>timerfd := f, timerfdChannel := a, timers := [], timer_heap := Map.empty,
          timerfd_due := None, timerfd_ticks := 0, timer_vars := Map.empty\<rparr>)
     in Channel_set_interest t EnableReading a s1)"

definition TimerQueue_insert ::
  "nat \<Rightarrow> ('u, 'z) tqloop_scheme \<Rightarrow> (bool \<times> ('u, 'z) tqloop_scheme) res" where
  "TimerQueue_insert a s =
     bindR (get_timer a s) (\<lambda>tm.
     let when = expiration tm;
         earliestChanged = (timers s = [] \<or> when < fst (hd (timers s)));
         (inserted, ts) = set_insert (when, a) (timers s) in
     bindR (assertR ''result.second'' inserted) (\<lambda>_.
     Inr (earliestChanged, s\<lparr>timers := ts\<rparr>)))"

definition addTimerInLoop :: "int \<Rightarrow> nat \<Rightarrow> ('u, 'z) tqloop_scheme \<Rightarrow> ('u, 'z) tqloop_scheme res" where
  "addTimerInLoop t a s =
     bindR (assertInLoopThread t s) (\<lambda>_.
     bindR (TimerQueue_insert a s) (\<lambda>(earliestChanged, s1).
     if earliestChanged
     then bindR (get_timer a s1) (\<lambda>tm. resetTimerfd (expiration tm) s1)
     else Inr s1))"

text \<open>The lambda of \<open>addTimer\<close> captures its local variable by reference; \<open>v\<close> is the variable's address.\<close>

definition add_captured_timer :: "int \<Rightarrow> nat \<Rightarrow> ('u, 'z) tqloop_scheme \<Rightarrow> ('u, 'z) tqloop_scheme res" where
  "add_captured_timer t v s = (case timer_vars s v of
      None \<Rightarrow> Inl (Undefined ''reference to a variable of a call that has returned'')
    | Some a \<Rightarrow> addTimerInLoop t a s)"

text \<open>A \<open>TimerId\<close> holds the address of its timer.\<close>

definition TimerId :: "nat \<Rightarrow> nat" where
  [simp]: "TimerId timer = timer"

definition TimerQueue_addTimer ::
  "int \<Rightarrow> 'u \<Rightarrow> timestamp \<Rightarrow> double \<Rightarrow> ('u, 'z) tqloop_scheme \<Rightarrow> (nat \<times> ('u, 'z) tqloop_scheme) res" where
  "TimerQueue_addTimer t cb when delta s =
     (let a = malloc s 0;
          s1 = s\<lparr>malloc := \<lambda>i. malloc s (Suc i),
                 timer_heap := (timer_heap s)(a \<mapsto> new_timer cb when delta),
                 timer_vars := (timer_vars s)(a \<mapsto> a)\<rparr>;
          timerid = TimerId a in
      bindR (runInLoop t (AddTimerInLoop a) (add_captured_timer t a) s1) (\<lambda>s2.
      Inr (timerid, s2\<lparr>timer_vars := (timer_vars s2)(a := None)\<rparr>)))"

definition getExpired ::
  "timestamp \<Rightarrow> ('u, 'z) tqloop_scheme \<Rightarrow> (entry list \<times> ('u, 'z) tqloop_scheme) res" where
  "getExpired now s =
     (let sentry = (now, 0); (expired, rest) = set_lower_bound sentry (timers s) in
      bindR (assertR ''it == timers_.end() || now < it->first'' (rest = [] \<or> now < fst (hd rest))) (\<lambda>_.
      Inr (expired, s\<lparr>timers := rest\<rparr>)))"

definition rearm :: "timestamp \<Rightarrow> entry \<Rightarrow> ('u, 'z) tqloop_scheme \<Rightarrow> ('u, 'z) tqloop_scheme res" where
  "rearm now e s =
     bindR (get_timer (snd e) s) (\<lambda>tm.
     if repeating tm
     then bindR (timer_restart now tm) (\<lambda>tm'.
          bindR (TimerQueue_insert (snd e) (s\<lparr>timer_heap := (timer_heap s)(snd e \<mapsto> tm')\<rparr>)) (\<lambda>(_, s1).
          Inr s1))
     else Inr s)"

definition TimerQueue_reset ::
  "entry list \<Rightarrow> timestamp \<Rightarrow> ('u, 'z) tqloop_scheme \<Rightarrow> ('u, 'z) tqloop_scheme res" where
  "TimerQueue_reset expired now s =
     bindR (foldR (rearm now) expired s) (\<lambda>s1.
     bindR (if timers s1 \<noteq> []
            then bindR (get_timer (snd (hd (timers s1))) s1) (\<lambda>tm. Inr (expiration tm))
            else Inr invalid_timestamp) (\<lambda>nextExpire.
     if timestamp_valid nextExpire then resetTimerfd nextExpire s1 else Inr s1))"

text \<open>\<open>user u\<close> is the code of the function named \<open>u\<close>.\<close>

definition run_timer ::
  "('u \<Rightarrow> ('u, 'z) tqloop_scheme \<Rightarrow> ('u, 'z) tqloop_scheme res) \<Rightarrow> entry
   \<Rightarrow> ('u, 'z) tqloop_scheme \<Rightarrow> ('u, 'z) tqloop_scheme res" where
  "run_timer user e s = bindR (get_timer (snd e) s) (\<lambda>tm. user (timer_callback tm) s)"

definition TimerQueue_handleRead ::
  "('u \<Rightarrow> ('u, 'z) tqloop_scheme \<Rightarrow> ('u, 'z) tqloop_scheme res) \<Rightarrow> int
   \<Rightarrow> ('u, 'z) tqloop_scheme \<Rightarrow> ('u, 'z) tqloop_scheme res" where
  "TimerQueue_handleRead user t s =
     bindR (assertInLoopThread t s) (\<lambda>_.
     bindR (current_time s) (\<lambda>(now, s1).
     bindR (getExpired now (readTimerfd s1)) (\<lambda>(expired, s2).
     bindR (foldR (run_timer user) expired s2) (\<lambda>s3.
     TimerQueue_reset expired now s3))))"

section \<open>EventLoop::runAt, runAfter and runEvery\<close>

definition runAt ::
  "int \<Rightarrow> timestamp \<Rightarrow> 'u \<Rightarrow> ('u, 'z) tqloop_scheme \<Rightarrow> (nat \<times> ('u, 'z) tqloop_scheme) res" where
  "runAt t when cb s = TimerQueue_addTimer t cb when (Fin 0 0) s"

definition runAfter ::
  "int \<Rightarrow> double \<Rightarrow> 'u \<Rightarrow> ('u, 'z) tqloop_scheme \<Rightarrow> (nat \<times> ('u, 'z) tqloop_scheme) res" where
  "runAfter t delay cb s =
     bindR (current_time s) (\<lambda>(now, s1).
     bindR (addTime now delay) (\<lambda>when. TimerQueue_addTimer t cb when (Fin 0 0) s1))"

definition runEvery ::
  "int \<Rightarrow> double \<Rightarrow> 'u \<Rightarrow> ('u, 'z) tqloop_scheme \<Rightarrow> (nat \<times> ('u, 'z) tqloop_scheme) res" where
  "runEvery t delta cb s =
     bindR (current_time s) (\<lambda>(now, s1).
     bindR (addTime now delta) (\<lambda>when. TimerQueue_addTimer t cb when delta s1))"

end
