(* ===== verification/TimerProps.thy ===== *)
theory TimerProps
  imports TimerQueues "HOL-Library.Multiset"
begin

text \<open>
  What the timer queue guarantees: the set of entries stays ordered and agrees with the timers, the
  expired ones are exactly those before the present, the repeating ones come back one interval
  later, and the timerfd is due for the earliest entry. Also the two ways it breaks.
\<close>

section \<open>Sorted sets\<close>

lemma lower_bound_filter:
  fixes x :: "'a::linorder"
  shows "sorted_wrt (<) xs \<Longrightarrow> set_lower_bound x xs = (filter (\<lambda>y. y < x) xs, filter (\<lambda>y. \<not> y < x) xs)"
proof (induction xs)
  case (Cons y ys)
  show ?case
  proof (cases "y < x")
    case True
    with Cons show ?thesis by (simp add: set_lower_bound_def)
  next
    case False
    with Cons.prems have "\<forall>z \<in> set (y # ys). \<not> z < x" by auto
    then have "filter (\<lambda>y. y < x) (y # ys) = []" "filter (\<lambda>y. \<not> y < x) (y # ys) = y # ys"
      by (simp_all add: filter_empty_conv filter_id_conv)
    moreover have "set_lower_bound x (y # ys) = ([], y # ys)" using False by (simp add: set_lower_bound_def)
    ultimately show ?thesis by (simp only:)
  qed
qed (simp add: set_lower_bound_def)

lemma set_insert_new:
  fixes x :: "'a::linorder"
  assumes "sorted_wrt (<) xs" "x \<notin> set xs"
  shows "set_insert x xs = (True, insort x xs)" "sorted_wrt (<) (insort x xs)"
  using assms by (simp_all add: set_insert_def strict_sorted_iff sorted_insort distinct_insort)

lemma hd_least:
  fixes xs :: "'a::linorder list"
  shows "sorted_wrt (<) xs \<Longrightarrow> y \<in> set xs \<Longrightarrow> hd xs \<le> y"
  by (cases xs) auto

lemma entry_less_null: "(e :: entry) < (now, 0) \<longleftrightarrow> fst e < now"
  by (cases e) (auto simp: less_prod_def)

lemma entry_le_fst: "(d :: entry) \<le> e \<Longrightarrow> fst d \<le> fst e"
  by (cases d; cases e) (auto simp: less_eq_prod_def)

section \<open>Invariant\<close>

text \<open>
  Times are positive and small enough (some 146,000 years) that no sum leaves 64 bits; the
  interval of a repeating timer is such a number of microseconds too.
\<close>

definition small_time :: "timestamp \<Rightarrow> bool" where
  "small_time t \<longleftrightarrow> 0 < microSecondsSinceEpoch t \<and> microSecondsSinceEpoch t \<le> 2 ^ 62"

definition clock_ok :: "('u, 'z) evloop_scheme \<Rightarrow> bool" where
  "clock_ok s \<longleftrightarrow> (\<forall>i. \<exists>x. timestamp_now (clock s i) = Inr (Timestamp x) \<and> 0 < x \<and> x \<le> 2 ^ 61)"

definition timer_small :: "'u timer \<Rightarrow> bool" where
  "timer_small tm \<longleftrightarrow> small_time (expiration tm) \<and> (repeating tm \<longrightarrow>
     (\<exists>d. double_to_int64 (double_mul (interval tm) (Fin kMicroSecondsPerSecond 0)) = Inr d \<and> 0 \<le> d \<and> d \<le> 2 ^ 61))"

definition entry_ok :: "('u, 'z) tqloop_scheme \<Rightarrow> entry \<Rightarrow> bool" where
  "entry_ok s e \<longleftrightarrow> (\<exists>tm. timer_heap s (snd e) = Some tm \<and> expiration tm = fst e \<and> timer_small tm)"

definition timers_ok :: "('u, 'z) tqloop_scheme \<Rightarrow> bool" where
  "timers_ok s \<longleftrightarrow> sorted_wrt (<) (timers s) \<and> distinct (map snd (timers s)) \<and> (\<forall>e \<in> set (timers s). entry_ok s e)"

text \<open>The allocator returns addresses of no live timer, each once, and never the null pointer.\<close>

definition alloc_ok :: "('u, 'z) tqloop_scheme \<Rightarrow> bool" where
  "alloc_ok s \<longleftrightarrow> inj (malloc s) \<and> (\<forall>i. malloc s i \<noteq> 0 \<and> timer_heap s (malloc s i) = None)"

definition tq_ok :: "int \<Rightarrow> ('u, 'z) tqloop_scheme \<Rightarrow> bool" where
  "tq_ok t s \<longleftrightarrow> threadId s = t \<and> clock_ok s \<and> alloc_ok s \<and> timers_ok s"

lemma clock_okE:
  assumes "clock_ok s"
  obtains x where "current_time s = Inr (Timestamp x, s\<lparr>clock := \<lambda>i. clock s (Suc i), last_reading := Timestamp x\<rparr>)"
    "0 < x" "x \<le> 2 ^ 61"
    "clock_ok (s\<lparr>clock := \<lambda>i. clock s (Suc i), last_reading := Timestamp x\<rparr>)"
proof -
  from assms obtain x where "timestamp_now (clock s 0) = Inr (Timestamp x)" "0 < x" "x \<le> 2 ^ 61"
    unfolding clock_ok_def by blast
  with assms that [of x] show thesis by (simp add: current_time_def clock_ok_def)
qed

text \<open>What the operations of the queue may change.\<close>

definition timer_frame :: "('u, 'z) tqloop_scheme \<Rightarrow> ('u, 'z) tqloop_scheme \<Rightarrow> bool" where
  "timer_frame s s' \<longleftrightarrow> (\<exists>c l H L d n V M. s' = s\<lparr>clock := c, last_reading := l, timer_heap := H, timers := L,
     timerfd_due := d, timerfd_ticks := n, timer_vars := V, malloc := M\<rparr>)"

lemma timer_frameI: "s' = s\<lparr>clock := c, last_reading := l, timer_heap := H, timers := L,
     timerfd_due := d, timerfd_ticks := n, timer_vars := V, malloc := M\<rparr> \<Longrightarrow> timer_frame s s'"
  unfolding timer_frame_def by blast

lemma timer_frame_refl: "timer_frame s s"
  by (rule timer_frameI [where c = "clock s" and l = "last_reading s" and H = "timer_heap s" and L = "timers s"
      and d = "timerfd_due s" and n = "timerfd_ticks s" and V = "timer_vars s" and M = "malloc s"]) simp

lemma timer_frame_trans: "timer_frame s s1 \<Longrightarrow> timer_frame s1 s2 \<Longrightarrow> timer_frame s s2"
  unfolding timer_frame_def by (elim exE) (intro exI, simp)

section \<open>Arming the timerfd\<close>

text \<open>\<open>due_for when now\<close>: the time at which a timer set at \<open>now\<close> for \<open>when\<close> expires.\<close>

definition due_for :: "timestamp \<Rightarrow> timestamp \<Rightarrow> int" where
  "due_for when now = max (microSecondsSinceEpoch when) (microSecondsSinceEpoch now + 100)"

lemma split_microseconds:
  fixes us :: int
  assumes "0 < us"
  shows "0 \<le> us sdiv kMicroSecondsPerSecond" "0 \<le> us smod kMicroSecondsPerSecond * 1000"
    "us smod kMicroSecondsPerSecond * 1000 < 10 ^ 9"
    "us sdiv kMicroSecondsPerSecond * 10 ^ 6 + us smod kMicroSecondsPerSecond * 1000 div 1000 = us"
proof -
  have eq: "us sdiv kMicroSecondsPerSecond = us div 10 ^ 6" "us smod kMicroSecondsPerSecond = us mod 10 ^ 6"
    using assms by (simp_all add: kMicroSecondsPerSecond_def signed_divide_int_def signed_modulo_int_def
        sgn_if minus_div_mult_eq_mod)
  show "0 \<le> us sdiv kMicroSecondsPerSecond" "0 \<le> us smod kMicroSecondsPerSecond * 1000"
    "us smod kMicroSecondsPerSecond * 1000 < 10 ^ 9"
    using assms unfolding eq by (simp_all add: pos_imp_zdiv_nonneg_iff)
  show "us sdiv kMicroSecondsPerSecond * 10 ^ 6 + us smod kMicroSecondsPerSecond * 1000 div 1000 = us"
    unfolding eq by simp
qed

lemma resetTimerfd_spec:
  assumes "clock_ok s" and "small_time when"
  obtains x where "resetTimerfd when s = Inr (s\<lparr>clock := \<lambda>i. clock s (Suc i),
      last_reading := Timestamp x, timerfd_due := Some (due_for when (Timestamp x)), timerfd_ticks := 0\<rparr>)"
    "0 < x" "x \<le> 2 ^ 61"
    "clock_ok (s\<lparr>clock := \<lambda>i. clock s (Suc i), last_reading := Timestamp x\<rparr>)"
proof -
  from assms(1) obtain x where x: "current_time s =
      Inr (Timestamp x, s\<lparr>clock := \<lambda>i. clock s (Suc i), last_reading := Timestamp x\<rparr>)" "0 < x" "x \<le> 2 ^ 61"
    "clock_ok (s\<lparr>clock := \<lambda>i. clock s (Suc i), last_reading := Timestamp x\<rparr>)"
    by (rule clock_okE)
  let ?d = "microSecondsSinceEpoch when - x"
  let ?us = "if ?d < 100 then 100 else ?d"
  have d: "in_int64 ?d" using assms(2) x(2,3) by (simp add: in_int64_def small_time_def)
  have us: "0 < ?us" by simp
  note m = split_microseconds [OF us]
  let ?ts = "(?us sdiv kMicroSecondsPerSecond, ?us smod kMicroSecondsPerSecond * 1000)"
  have valid: "timespec_valid ?ts" using m(1-3) unfolding timespec_valid_def fst_conv snd_conv by blast
  have nz: "?ts \<noteq> (0, 0)" using m(4) us by auto
  have "x + ?us = due_for when (Timestamp x)" by (simp add: due_for_def)
  then have due: "x + fst ?ts * 10 ^ 6 + snd ?ts div 1000 = due_for when (Timestamp x)"
    using m(4) unfolding fst_conv snd_conv by linarith
  have "howMuchTimeFromNow when s = Inr (?ts, s\<lparr>clock := \<lambda>i. clock s (Suc i), last_reading := Timestamp x\<rparr>)"
    using x(1) d by (simp add: howMuchTimeFromNow_def Let_def)
  then have "resetTimerfd when s = Inr (timerfd_settime ?ts (s\<lparr>clock := \<lambda>i. clock s (Suc i), last_reading := Timestamp x\<rparr>))"
    by (simp only: resetTimerfd_def bindR.simps prod.case)
  also have "timerfd_settime ?ts (s\<lparr>clock := \<lambda>i. clock s (Suc i), last_reading := Timestamp x\<rparr>) =
      s\<lparr>clock := \<lambda>i. clock s (Suc i), last_reading := Timestamp x,
        timerfd_due := Some (due_for when (Timestamp x)), timerfd_ticks := 0\<rparr>"
    unfolding timerfd_settime_def if_P [OF valid] if_not_P [OF nz] using due by simp
  finally show thesis using that x by blast
qed

section \<open>Inserting and taking out\<close>

lemma insert_spec:
  assumes ok: "timers_ok s" and tm: "timer_heap s a = Some tm" "timer_small tm"
    and new: "a \<notin> snd ` set (timers s)"
  shows "TimerQueue_insert a s = Inr (timers s = [] \<or> expiration tm < fst (hd (timers s)),
      s\<lparr>timers := insort (expiration tm, a) (timers s)\<rparr>)"
    "timers_ok (s\<lparr>timers := insort (expiration tm, a) (timers s)\<rparr>)"
proof -
  have notin: "(expiration tm, a) \<notin> set (timers s)" using new by force
  have sorted: "sorted_wrt (<) (timers s)" using ok by (simp add: timers_ok_def)
  note ins = set_insert_new [OF sorted notin]
  show "TimerQueue_insert a s = Inr (timers s = [] \<or> expiration tm < fst (hd (timers s)),
      s\<lparr>timers := insort (expiration tm, a) (timers s)\<rparr>)"
    using tm ins(1) by (simp add: TimerQueue_insert_def get_timer_def Let_def)
  have "mset (map snd (insort (expiration tm, a) (timers s))) = mset (a # map snd (timers s))"
    by (simp add: mset_insort)
  then have "distinct (map snd (insort (expiration tm, a) (timers s)))"
    using ok new by (metis distinct.simps(2) mset_eq_imp_distinct_iff set_map timers_ok_def)
  with ok tm ins(2) show "timers_ok (s\<lparr>timers := insort (expiration tm, a) (timers s)\<rparr>)"
    by (auto simp: timers_ok_def entry_ok_def set_insort_key)
qed

lemma getExpired_spec:
  assumes "timers_ok s" and "now \<notin> fst ` set (timers s)"
  shows "getExpired now s = Inr (filter (\<lambda>e. fst e < now) (timers s),
      s\<lparr>timers := filter (\<lambda>e. now < fst e) (timers s)\<rparr>)"
proof -
  let ?rest = "filter (\<lambda>e. \<not> fst e < now) (timers s)"
  have lb: "set_lower_bound (now, 0) (timers s) = (filter (\<lambda>e. fst e < now) (timers s), ?rest)"
    using assms(1) by (simp add: timers_ok_def lower_bound_filter entry_less_null)
  have rest: "?rest = filter (\<lambda>e. now < fst e) (timers s)"
    using assms(2) by (intro filter_cong) force+
  have "?rest = [] \<or> now < fst (hd ?rest)"
    unfolding rest using hd_in_set [of "filter (\<lambda>e. now < fst e) (timers s)"] by auto
  then show ?thesis unfolding getExpired_def Let_def lb prod.case rest by simp
qed

lemma getExpired_equal:
  assumes "timers_ok s" and "now \<in> fst ` set (timers s)"
  shows "getExpired now s = Inl (AssertFailed ''it == timers_.end() || now < it->first'')"
proof -
  let ?rest = "filter (\<lambda>e. \<not> fst e < now) (timers s)"
  have lb: "set_lower_bound (now, 0) (timers s) = (filter (\<lambda>e. fst e < now) (timers s), ?rest)"
    using assms(1) by (simp add: timers_ok_def lower_bound_filter entry_less_null)
  from assms(2) obtain e where e: "e \<in> set ?rest" "fst e = now" by auto
  have "sorted_wrt (<) ?rest" using assms(1) by (simp add: timers_ok_def sorted_wrt_filter)
  with e have "hd ?rest \<le> e" by (intro hd_least)
  with e(2) have "fst (hd ?rest) \<le> now" using entry_le_fst by blast
  moreover have "?rest \<noteq> []" using e(1) by (metis list.set(1) empty_iff)
  ultimately have "\<not> (?rest = [] \<or> now < fst (hd ?rest))" by (simp only: not_less de_Morgan_disj simp_thms)
  then show ?thesis unfolding getExpired_def Let_def lb prod.case by simp
qed

section \<open>Adding a timer from the loop's thread\<close>

lemma clock_ok_cong: "clock s' = clock s \<Longrightarrow> clock_ok s' = clock_ok s"
  by (simp add: clock_ok_def)

lemma timers_ok_cong: "timers s' = timers s \<Longrightarrow> timer_heap s' = timer_heap s \<Longrightarrow> timers_ok s' = timers_ok s"
  by (simp add: timers_ok_def entry_ok_def)

lemma alloc_ok_cong: "malloc s' = malloc s \<Longrightarrow> timer_heap s' = timer_heap s \<Longrightarrow> alloc_ok s' = alloc_ok s"
  by (simp add: alloc_ok_def)

lemma entry_in_heap: "timers_ok s \<Longrightarrow> e \<in> set (timers s) \<Longrightarrow> timer_heap s (snd e) \<noteq> None"
  by (auto simp: timers_ok_def entry_ok_def)

text \<open>A new object leaves the entries as they are.\<close>

lemma timers_ok_alloc:
  "timers_ok s \<Longrightarrow> timer_heap s a = None \<Longrightarrow> timers_ok (s\<lparr>timer_heap := (timer_heap s)(a \<mapsto> tm)\<rparr>)"
  by (fastforce simp: timers_ok_def entry_ok_def)

definition grows :: "('u, 'z) tqloop_scheme \<Rightarrow> ('u, 'z) tqloop_scheme \<Rightarrow> bool" where
  "grows s s' \<longleftrightarrow> timer_heap s \<subseteq>\<^sub>m timer_heap s' \<and> set (timers s) \<subseteq> set (timers s')
     \<and> (\<forall>e \<in> set (timers s') - set (timers s). timer_heap s (snd e) = None)"

lemma grows_refl [simp]: "grows s s"
  by (simp add: grows_def)

lemma grows_trans:
  assumes "grows s s1" and "grows s1 s2"
  shows "grows s s2"
proof -
  have "timer_heap s a = None" if "timer_heap s1 a = None" for a
    using assms(1) that by (cases "timer_heap s a") (auto simp: grows_def map_le_def dom_def)
  with assms show ?thesis unfolding grows_def by (blast intro: map_le_trans)
qed

lemma grows_cong:
  "timer_heap s' = timer_heap s \<Longrightarrow> timers s' = timers s \<Longrightarrow> grows s0 s' = grows s0 s"
  "timer_heap s' = timer_heap s \<Longrightarrow> timers s' = timers s \<Longrightarrow> grows s' s0 = grows s s0"
  by (simp_all add: grows_def)

lemma addTimer_spec:
  assumes ok: "tq_ok t s" and tm: "timer_small (new_timer cb when delta)"
  shows "okR (\<lambda>(timerid, s'). timerid = malloc s 0 \<and> tq_ok t s' \<and> grows s s'
      \<and> set (timers s') = insert (when, timerid) (set (timers s))
      \<and> timer_heap s' timerid = Some (new_timer cb when delta)
      \<and> timerfd_due s' = (if timers s = [] \<or> when < fst (hd (timers s))
          then Some (due_for when (last_reading s')) else timerfd_due s)
      \<and> pendingFunctors s' = pendingFunctors s \<and> timers s' = insort (when, timerid) (timers s)
      \<and> timer_frame s s' \<and> malloc s' = (\<lambda>i. malloc s (Suc i)))
    (TimerQueue_addTimer t cb when delta s)"
proof -
  let ?a = "malloc s 0" and ?tm = "new_timer cb when delta"
  let ?s1 = "s\<lparr>malloc := \<lambda>i. malloc s (Suc i), timer_heap := (timer_heap s)(?a \<mapsto> ?tm),
    timer_vars := (timer_vars s)(?a \<mapsto> ?a)\<rparr>"
  from ok have fresh: "timer_heap s ?a = None" by (simp add: tq_ok_def alloc_ok_def)
  have exp: "expiration ?tm = when" by (simp add: new_timer_def)
  have "timers_ok ?s1"
    using timers_ok_alloc [OF _ fresh, of ?tm] ok by (simp add: tq_ok_def timers_ok_def entry_ok_def)
  moreover have "?a \<notin> snd ` set (timers ?s1)"
    using entry_in_heap [of s] ok fresh by (force simp: tq_ok_def)
  moreover have "timer_heap ?s1 ?a = Some ?tm" by simp
  ultimately have ins: "TimerQueue_insert ?a ?s1 = Inr (timers s = [] \<or> when < fst (hd (timers s)),
      ?s1\<lparr>timers := insort (when, ?a) (timers s)\<rparr>)"
    and ok2: "timers_ok (?s1\<lparr>timers := insort (when, ?a) (timers s)\<rparr>)"
    using insert_spec [of ?s1 ?a ?tm] tm by (simp_all add: exp)
  let ?s2 = "?s1\<lparr>timers := insort (when, ?a) (timers s)\<rparr>"
  have "\<And>i. malloc s (Suc i) \<noteq> ?a" "inj (\<lambda>i. malloc s (Suc i))"
    using ok by (auto simp: tq_ok_def alloc_ok_def inj_def)
  then have alloc: "alloc_ok ?s2" using ok by (simp add: tq_ok_def alloc_ok_def)
  have grow: "grows s ?s2"
    using fresh by (auto simp: grows_def map_le_def set_insort_key)
  have clk: "clock_ok ?s2" using ok by (simp add: tq_ok_def clock_ok_def)
  have thr: "threadId s = t" using ok by (simp add: tq_ok_def)
  have run: "TimerQueue_addTimer t cb when delta s =
      bindR (if timers s = [] \<or> when < fst (hd (timers s)) then resetTimerfd when ?s2 else Inr ?s2) (\<lambda>s3.
      Inr (?a, s3\<lparr>timer_vars := (timer_vars s3)(?a := None)\<rparr>))"
    using ins thr by (simp add: TimerQueue_addTimer_def Let_def runInLoop_def isInLoopThread_def
        add_captured_timer_def addTimerInLoop_def assertInLoopThread_def get_timer_def exp)
  show ?thesis
  proof (cases "timers s = [] \<or> when < fst (hd (timers s))")
    case True
    have "small_time when" using tm by (simp add: timer_small_def exp)
    with clk obtain x where x: "resetTimerfd when ?s2 = Inr (?s2\<lparr>clock := \<lambda>i. clock ?s2 (Suc i),
        last_reading := Timestamp x, timerfd_due := Some (due_for when (Timestamp x)), timerfd_ticks := 0\<rparr>)"
      "clock_ok (?s2\<lparr>clock := \<lambda>i. clock ?s2 (Suc i), last_reading := Timestamp x\<rparr>)"
      by (rule resetTimerfd_spec)
    let ?s3 = "?s2\<lparr>clock := \<lambda>i. clock ?s2 (Suc i), last_reading := Timestamp x,
      timerfd_due := Some (due_for when (Timestamp x)), timerfd_ticks := 0,
      timer_vars := (timer_vars ?s2)(?a := None)\<rparr>"
    have "tq_ok t ?s3"
      using x(2) ok2 alloc thr by (simp add: tq_ok_def clock_ok_def timers_ok_def entry_ok_def alloc_ok_def)
    moreover have "grows s ?s3" using grow by (simp add: grows_def)
    moreover have "TimerQueue_addTimer t cb when delta s = Inr (?a, ?s3)"
      unfolding run if_P [OF True] x(1) by simp
    moreover have "timer_frame s ?s3"
      by (rule timer_frameI [where c = "\<lambda>i. clock s (Suc i)" and l = "Timestamp x" and H = "timer_heap ?s3" and L = "timers ?s3"
          and d = "timerfd_due ?s3" and n = 0 and V = "timer_vars ?s3" and M = "malloc ?s3"]) simp
    ultimately show ?thesis using True by (simp add: set_insort_key)
  next
    case False
    let ?s3 = "?s2\<lparr>timer_vars := (timer_vars ?s2)(?a := None)\<rparr>"
    have "tq_ok t ?s3"
      using clk ok2 alloc thr by (simp add: tq_ok_def clock_ok_def timers_ok_def entry_ok_def alloc_ok_def)
    moreover have "grows s ?s3" using grow by (simp add: grows_def)
    moreover have "TimerQueue_addTimer t cb when delta s = Inr (?a, ?s3)"
      unfolding run if_not_P [OF False] by simp
    moreover have "timer_frame s ?s3"
      by (rule timer_frameI [where c = "clock s" and l = "last_reading s" and H = "timer_heap ?s3" and L = "timers ?s3"
          and d = "timerfd_due s" and n = "timerfd_ticks s" and V = "timer_vars ?s3" and M = "malloc ?s3"]) simp
    ultimately show ?thesis using False by (simp add: set_insort_key)
  qed
qed

section \<open>Restarting the expired timers\<close>

text \<open>The entries that the expired repeating timers come back with.\<close>

definition renewed :: "('u, 'z) tqloop_scheme \<Rightarrow> timestamp \<Rightarrow> entry list \<Rightarrow> entry set" where
  "renewed s now es = {(when, a). a \<in> snd ` set es \<and> (\<exists>tm. timer_heap s a = Some tm \<and> repeating tm
     \<and> addTime now (interval tm) = Inr when)}"

lemma restart_small:
  assumes "timer_small tm" "repeating tm" "0 < x" "x \<le> 2 ^ 61"
  obtains e where "addTime (Timestamp x) (interval tm) = Inr e" "timer_small (tm\<lparr>expiration := e\<rparr>)"
    "timer_restart (Timestamp x) tm = Inr (tm\<lparr>expiration := e\<rparr>)"
proof -
  from assms(1,2) obtain d where d: "double_to_int64 (double_mul (interval tm) (Fin kMicroSecondsPerSecond 0)) = Inr d"
    "0 \<le> d" "d \<le> 2 ^ 61" by (auto simp: timer_small_def)
  have "in_int64 (x + d)" using assms(3,4) d(2,3) by (simp add: in_int64_def)
  with d have "addTime (Timestamp x) (interval tm) = Inr (Timestamp (x + d))" by (simp add: addTime_def)
  moreover have "timer_small (tm\<lparr>expiration := Timestamp (x + d)\<rparr>)"
    using assms d by (simp add: timer_small_def small_time_def)
  ultimately show thesis using that assms(2) by (simp add: timer_restart_def)
qed

lemma rearm_all:
  assumes "timers_ok s" and "distinct (map snd es)"
    and "\<And>e. e \<in> set es \<Longrightarrow> snd e \<notin> snd ` set (timers s) \<and> (\<exists>tm. timer_heap s (snd e) = Some tm \<and> timer_small tm)"
    and now: "now = Timestamp x" "0 < x" "x \<le> 2 ^ 61"
  shows "\<exists>s'. foldR (rearm now) es s = Inr s' \<and> timers_ok s' \<and> dom (timer_heap s') = dom (timer_heap s)
    \<and> set (timers s') = set (timers s) \<union> renewed s now es
    \<and> s' = s\<lparr>timer_heap := timer_heap s', timers := timers s'\<rparr>"
  using assms(1-3)
proof (induction es arbitrary: s)
  case Nil
  then show ?case by (simp add: renewed_def)
next
  case (Cons e es)
  obtain w a where e: "e = (w, a)" by (cases e)
  from Cons.prems(3) [of e] e obtain tm where tm: "a \<notin> snd ` set (timers s)" "timer_heap s a = Some tm" "timer_small tm"
    by auto
  have a_es: "a \<notin> snd ` set es" using Cons.prems(2) e by auto
  show ?case
  proof (cases "repeating tm")
    case False
    then have "renewed s now (e # es) = renewed s now es"
      using tm(2) e by (auto simp: renewed_def)
    moreover have "foldR (rearm now) (e # es) s = foldR (rearm now) es s"
      using tm(2) False e by (simp add: rearm_def get_timer_def)
    ultimately show ?thesis using Cons.IH [of s] Cons.prems by simp
  next
    case True
    with tm(3) now obtain w' where w': "addTime now (interval tm) = Inr w'" "timer_small (tm\<lparr>expiration := w'\<rparr>)"
      "timer_restart now tm = Inr (tm\<lparr>expiration := w'\<rparr>)" by (metis restart_small)
    let ?tm = "tm\<lparr>expiration := w'\<rparr>"
    let ?s1 = "s\<lparr>timer_heap := (timer_heap s)(a \<mapsto> ?tm)\<rparr>"
    let ?s2 = "?s1\<lparr>timers := insort (w', a) (timers s)\<rparr>"
    have "timers_ok ?s1"
      using Cons.prems(1) tm(1) by (force simp: timers_ok_def entry_ok_def)
    then have ins: "snd ` set (timers ?s1) = snd ` set (timers s)"
      "TimerQueue_insert a ?s1 = Inr (timers s = [] \<or> w' < fst (hd (timers s)), ?s2)" "timers_ok ?s2"
      using insert_spec [of ?s1 a ?tm] tm(1) w'(2) by simp_all
    have step: "rearm now e s = Inr ?s2"
      using tm(2) True e w'(3) ins(2) by (simp add: rearm_def get_timer_def)
    have hyp: "snd d \<notin> snd ` set (timers ?s2) \<and> (\<exists>tm. timer_heap ?s2 (snd d) = Some tm \<and> timer_small tm)"
      if "d \<in> set es" for d
    proof -
      have "snd d \<noteq> a" using that a_es by auto
      with Cons.prems(3) [of d] that show ?thesis by (auto simp: set_insort_key)
    qed
    have dist: "distinct (map snd es)" using Cons.prems(2) by simp
    from Cons.IH [OF ins(3) dist hyp] obtain s' where s': "foldR (rearm now) es ?s2 = Inr s'"
      "timers_ok s'" "dom (timer_heap s') = dom (timer_heap ?s2)"
      "set (timers s') = set (timers ?s2) \<union> renewed ?s2 now es"
      "s' = ?s2\<lparr>timer_heap := timer_heap s', timers := timers s'\<rparr>" by blast
    have "renewed ?s2 now es = renewed s now es"
      using a_es unfolding renewed_def by (intro Collect_cong) (auto split: if_splits)
    moreover have "renewed s now (e # es) = insert (w', a) (renewed s now es)"
      using tm(2) True w'(1) e by (auto simp: renewed_def)
    ultimately have "set (timers s') = set (timers s) \<union> renewed s now (e # es)"
      using s'(4) by (simp add: set_insort_key)
    moreover have "dom (timer_heap s') = dom (timer_heap s)" using s'(3) tm(2) by auto
    moreover have "s' = s\<lparr>timer_heap := timer_heap s', timers := timers s'\<rparr>"
      using s'(5) by simp
    ultimately show ?thesis using step s'(1,2) by (intro exI [of _ s']) simp
  qed
qed

text \<open>Setting the timerfd after the restarts.\<close>

lemma reset_spec:
  assumes ok: "tq_ok t s" and es: "distinct (map snd es)"
    "\<And>e. e \<in> set es \<Longrightarrow> snd e \<notin> snd ` set (timers s) \<and> (\<exists>tm. timer_heap s (snd e) = Some tm \<and> timer_small tm)"
    and now: "now = Timestamp x" "0 < x" "x \<le> 2 ^ 61"
  shows "okR (\<lambda>s'. tq_ok t s' \<and> set (timers s') = set (timers s) \<union> renewed s now es
      \<and> (timers s' \<noteq> [] \<longrightarrow> timerfd_due s' = Some (due_for (fst (hd (timers s'))) (last_reading s')))
      \<and> timer_frame s s' \<and> malloc s' = malloc s)
    (TimerQueue_reset es now s)"
proof -
  have tok: "timers_ok s" using ok by (simp add: tq_ok_def)
  from rearm_all [OF tok es now] obtain s1 where s1: "foldR (rearm now) es s = Inr s1" "timers_ok s1"
    "dom (timer_heap s1) = dom (timer_heap s)" "set (timers s1) = set (timers s) \<union> renewed s now es"
    "s1 = s\<lparr>timer_heap := timer_heap s1, timers := timers s1\<rparr>" by blast
  have eq: "clock s1 = clock s" "malloc s1 = malloc s" "threadId s1 = threadId s"
    by (subst s1(5), simp)+
  have "timer_heap s1 a = None \<longleftrightarrow> timer_heap s a = None" for a using s1(3) by (metis domIff)
  then have "alloc_ok s1"
    using ok unfolding alloc_ok_def tq_ok_def eq by simp
  then have ok1: "tq_ok t s1"
    using ok s1(2) eq by (simp add: tq_ok_def clock_ok_def)
  have frame: "timer_frame s s1"
    by (rule timer_frameI [where c = "clock s" and l = "last_reading s" and H = "timer_heap s1" and L = "timers s1"
        and d = "timerfd_due s" and n = "timerfd_ticks s" and V = "timer_vars s" and M = "malloc s"]) (subst s1(5), simp)
  show ?thesis
  proof (cases "timers s1 = []")
    case True
    then have "TimerQueue_reset es now s = Inr s1"
      by (simp add: TimerQueue_reset_def s1(1) timestamp_valid_def invalid_timestamp_def)
    with True ok1 s1(4) frame eq show ?thesis by simp
  next
    case False
    then have "entry_ok s1 (hd (timers s1))" using s1(2) by (simp add: timers_ok_def)
    then obtain tm where tm: "timer_heap s1 (snd (hd (timers s1))) = Some tm"
      "expiration tm = fst (hd (timers s1))" "timer_small tm" by (auto simp: entry_ok_def)
    then have small: "small_time (fst (hd (timers s1)))" by (auto simp: timer_small_def)
    have "clock_ok s1" using ok1 by (simp add: tq_ok_def)
    from resetTimerfd_spec [OF this small] obtain y where
      y: "resetTimerfd (fst (hd (timers s1))) s1 = Inr (s1\<lparr>clock := \<lambda>i. clock s1 (Suc i),
          last_reading := Timestamp y, timerfd_due := Some (due_for (fst (hd (timers s1))) (Timestamp y)),
          timerfd_ticks := 0\<rparr>)"
      "clock_ok (s1\<lparr>clock := \<lambda>i. clock s1 (Suc i), last_reading := Timestamp y\<rparr>)" by blast
    have "timestamp_valid (expiration tm)" using small tm(2) by (simp add: timestamp_valid_def small_time_def)
    then have "TimerQueue_reset es now s = resetTimerfd (fst (hd (timers s1))) s1"
      using False tm(1) by (simp add: TimerQueue_reset_def s1(1) get_timer_def tm(2))
    moreover have "tq_ok t (s1\<lparr>clock := \<lambda>i. clock s1 (Suc i),
          last_reading := Timestamp y, timerfd_due := Some (due_for (fst (hd (timers s1))) (Timestamp y)),
          timerfd_ticks := 0\<rparr>)"
      using ok1 y(2) by (simp add: tq_ok_def clock_ok_def timers_ok_def entry_ok_def alloc_ok_def)
    moreover have "timer_frame s1 (s1\<lparr>clock := \<lambda>i. clock s1 (Suc i),
          last_reading := Timestamp y, timerfd_due := Some (due_for (fst (hd (timers s1))) (Timestamp y)),
          timerfd_ticks := 0\<rparr>)"
      by (rule timer_frameI [where c = "\<lambda>i. clock s1 (Suc i)" and l = "Timestamp y" and H = "timer_heap s1" and L = "timers s1"
          and d = "Some (due_for (fst (hd (timers s1))) (Timestamp y))" and n = 0 and V = "timer_vars s1" and M = "malloc s1"]) simp
    ultimately show ?thesis using y(1) s1(4) eq timer_frame_trans [OF frame] by simp
  qed
qed

section \<open>One alarm\<close>

text \<open>While their functions run, the expired timers stay out of the set and keep their objects.\<close>

lemma expired_apart:
  assumes tok: "timers_ok s" and s2: "timer_heap s2 = timer_heap s" "timers s2 = filter (\<lambda>e. now < fst e) (timers s)"
    and grow: "grows s2 s3" and e: "e \<in> set (timers s)" "fst e < now"
  shows "snd e \<notin> snd ` set (timers s3)" "timer_heap s3 (snd e) = timer_heap s (snd e)"
    "\<exists>tm. timer_heap s3 (snd e) = Some tm \<and> timer_small tm"
proof -
  from tok e(1) obtain tm where tm: "timer_heap s (snd e) = Some tm" "timer_small tm"
    by (auto simp: timers_ok_def entry_ok_def)
  then have "timer_heap s3 (snd e) = Some tm"
    using grow s2(1) by (auto simp: grows_def map_le_def dom_def)
  with tm show "timer_heap s3 (snd e) = timer_heap s (snd e)"
    "\<exists>tm. timer_heap s3 (snd e) = Some tm \<and> timer_small tm" by simp_all
  show "snd e \<notin> snd ` set (timers s3)"
  proof
    assume "snd e \<in> snd ` set (timers s3)"
    then obtain d where d: "d \<in> set (timers s3)" "snd d = snd e" by force
    show False
    proof (cases "d \<in> set (timers s2)")
      case True
      then have "d \<in> set (timers s)" "now < fst d" by (simp_all add: s2(2))
      with d(2) e(1) tok have "d = e" by (auto simp: timers_ok_def distinct_map dest: inj_onD)
      with e(2) \<open>now < fst d\<close> show False by (auto dest: less_asym)
    next
      case False
      with d(1) grow have "timer_heap s2 (snd d) = None" unfolding grows_def by blast
      with d(2) s2(1) tm(1) show False by simp
    qed
  qed
qed

definition alarm_effect :: "timestamp \<Rightarrow> ('u, 'z) tqloop_scheme \<Rightarrow> ('u, 'z) tqloop_scheme \<Rightarrow> bool" where
  "alarm_effect now s s' \<longleftrightarrow> (\<forall>e \<in> set (timers s). now < fst e \<longrightarrow> e \<in> set (timers s'))
     \<and> (\<forall>e \<in> set (timers s). \<forall>tm. fst e < now \<longrightarrow> timer_heap s (snd e) = Some tm \<longrightarrow>
          (if repeating tm then \<exists>w. addTime now (interval tm) = Inr w \<and> (w, snd e) \<in> set (timers s')
           else snd e \<notin> snd ` set (timers s')))
     \<and> (timers s' \<noteq> [] \<longrightarrow> timerfd_due s' = Some (due_for (fst (hd (timers s'))) (last_reading s')))"

lemma alarm_effectI:
  assumes tok: "timers_ok s" and s2: "timer_heap s2 = timer_heap s" "timers s2 = filter (\<lambda>e. now < fst e) (timers s)"
    and grow: "grows s2 s3" and x: "now = Timestamp x" "0 < x" "x \<le> 2 ^ 61"
    and s4: "set (timers s4) = set (timers s3) \<union> renewed s3 now (filter (\<lambda>e. fst e < now) (timers s))"
      "timers s4 \<noteq> [] \<longrightarrow> timerfd_due s4 = Some (due_for (fst (hd (timers s4))) (last_reading s4))"
  shows "alarm_effect now s s4"
proof -
  let ?es = "filter (\<lambda>e. fst e < now) (timers s)"
  note apart = expired_apart [OF tok s2 grow]
  have "if repeating tm then \<exists>w. addTime now (interval tm) = Inr w \<and> (w, snd e) \<in> set (timers s4)
        else snd e \<notin> snd ` set (timers s4)"
    if e: "e \<in> set (timers s)" "fst e < now" and tm: "timer_heap s (snd e) = Some tm" for e tm
  proof (cases "repeating tm")
    case True
    have "timer_small tm" using tok e(1) tm by (auto simp: timers_ok_def entry_ok_def)
    from restart_small [OF this True x(2,3)] x(1) obtain w where w: "addTime now (interval tm) = Inr w" by metis
    have "snd e \<in> snd ` set ?es" using e by simp
    with True apart(2) [OF e] tm w have "(w, snd e) \<in> renewed s3 now ?es" by (auto simp: renewed_def)
    with True s4(1) w show ?thesis by auto
  next
    case False
    then have "(w, snd e) \<notin> renewed s3 now ?es" for w
      using apart(2) [OF e] tm by (simp add: renewed_def)
    with False apart(1) [OF e] s4(1) show ?thesis by force
  qed
  moreover have "\<forall>e \<in> set (timers s). now < fst e \<longrightarrow> e \<in> set (timers s4)"
    using grow s4(1) s2(2) by (auto simp: grows_def)
  ultimately show ?thesis using s4(2) unfolding alarm_effect_def by blast
qed

section \<open>The functions that timers run\<close>

text \<open>
  What the queue relies on when it calls a timer's function: the function keeps the queue well
  formed and only adds timers to it.
\<close>

locale timer_functions =
  fixes user :: "'u \<Rightarrow> ('u, 'z) tqloop_scheme \<Rightarrow> ('u, 'z) tqloop_scheme res"
    and t :: int
  assumes user_ok: "tq_ok t s \<Longrightarrow> okR (\<lambda>s'. tq_ok t s' \<and> grows s s') (user u s)"
begin

lemma run_expired:
  assumes "tq_ok t s" and "\<And>e. e \<in> set es \<Longrightarrow> timer_heap s (snd e) \<noteq> None"
  shows "okR (\<lambda>s'. tq_ok t s' \<and> grows s s') (foldR (run_timer user) es s)"
proof (rule foldR_okR [where I = "\<lambda>s'. tq_ok t s' \<and> grows s s'"])
  fix e s1
  assume e: "e \<in> set es" and s1: "tq_ok t s1 \<and> grows s s1"
  from assms(2) [OF e] obtain tm where "timer_heap s (snd e) = Some tm" by blast
  with s1 have "timer_heap s1 (snd e) = Some tm" by (auto simp: grows_def map_le_def dom_def)
  then have run: "run_timer user e s1 = user (timer_callback tm) s1"
    by (simp add: run_timer_def get_timer_def)
  show "okR (\<lambda>s'. tq_ok t s' \<and> grows s s') (run_timer user e s1)"
    unfolding run
    by (rule okR_mono [OF user_ok]) (use s1 in \<open>auto intro: grows_trans\<close>)
qed (use assms(1) in simp)

lemma handleRead_spec:
  assumes ok: "tq_ok t s" and now: "timestamp_now (clock s 0) = Inr now"
    and apart: "now \<notin> fst ` set (timers s)"
  shows "okR (\<lambda>s'. tq_ok t s' \<and> alarm_effect now s s') (TimerQueue_handleRead user t s)"
proof -
  have thr: "threadId s = t" and clk: "clock_ok s" and tok: "timers_ok s" and aok: "alloc_ok s"
    using ok by (simp_all add: tq_ok_def)
  obtain x where x: "now = Timestamp x" "0 < x" "x \<le> 2 ^ 61"
    using clk now unfolding clock_ok_def by (metis Inr_inject)
  let ?es = "filter (\<lambda>e. fst e < now) (timers s)"
  let ?s1 = "readTimerfd (s\<lparr>clock := \<lambda>i. clock s (Suc i), last_reading := now\<rparr>)"
  define s2 where "s2 = ?s1\<lparr>timers := filter (\<lambda>e. now < fst e) (timers s)\<rparr>"
  have eq2: "timer_heap s2 = timer_heap s" "timers s2 = filter (\<lambda>e. now < fst e) (timers s)"
    by (simp_all add: s2_def readTimerfd_def)
  have "timers_ok ?s1" using tok by (simp add: timers_ok_def entry_ok_def readTimerfd_def)
  from getExpired_spec [OF this, of now] apart have expired: "getExpired now ?s1 = Inr (?es, s2)"
    by (simp add: s2_def readTimerfd_def)
  have s2: "tq_ok t s2"
    using thr clk tok aok
    by (auto simp: s2_def tq_ok_def clock_ok_def timers_ok_def entry_ok_def alloc_ok_def readTimerfd_def
        sorted_wrt_filter distinct_map_filter)
  have es_heap: "timer_heap s2 (snd e) \<noteq> None" if "e \<in> set ?es" for e
    unfolding eq2 using that entry_in_heap [OF tok] by simp
  have step: "TimerQueue_handleRead user t s = bindR (foldR (run_timer user) ?es s2) (TimerQueue_reset ?es now)"
    using thr now expired
    by (simp add: TimerQueue_handleRead_def assertInLoopThread_def isInLoopThread_def current_time_def)
  have dist: "distinct (map snd ?es)" using tok by (simp add: timers_ok_def distinct_map_filter)
  show ?thesis
    unfolding step okR_bindR
  proof (rule okR_mono [OF run_expired [OF s2 es_heap]], assumption)
    fix s3
    assume s3: "tq_ok t s3 \<and> grows s2 s3"
    then have grow: "grows s2 s3" by simp
    have hyp: "snd e \<notin> snd ` set (timers s3) \<and> (\<exists>tm. timer_heap s3 (snd e) = Some tm \<and> timer_small tm)"
      if "e \<in> set ?es" for e
      using expired_apart [OF tok eq2 grow, of e] that by simp
    show "okR (\<lambda>s'. tq_ok t s' \<and> alarm_effect now s s') (TimerQueue_reset ?es now s3)"
      by (rule okR_mono [OF reset_spec [OF conjunct1 [OF s3] dist hyp x]], assumption)
        (use alarm_effectI [OF tok eq2 grow x] in blast)
  qed
qed

end

end
