(* ===== verification/Alarms.thy ===== *)
theory Alarms
  imports TimerProps
begin

text \<open>
  The contract \<open>timer_functions\<close> holds of what the library itself offers to a timer's function
  (queueing a functor, adding a further timer), and the properties of the timer queue.
\<close>

section \<open>Functions that keep the contract\<close>

lemma tq_ok_queueInLoop: "tq_ok t s \<Longrightarrow> tq_ok t (queueInLoop u f s) \<and> grows s (queueInLoop u f s)"
  by (simp add: tq_ok_def clock_ok_def timers_ok_def entry_ok_def alloc_ok_def grows_def
      queueInLoop_def push_functor_def wakeup_def Let_def)

interpretation queueing: timer_functions "\<lambda>u s. Inr (queueInLoop t (UserTask u) s)" t
  for t :: int
  by unfold_locales (simp add: tq_ok_queueInLoop)

lemma tq_ok_tick:
  assumes "tq_ok t s"
  obtains x where "current_time s = Inr (Timestamp x, s\<lparr>clock := \<lambda>i. clock s (Suc i), last_reading := Timestamp x\<rparr>)"
    "0 < x" "x \<le> 2 ^ 61" "tq_ok t (s\<lparr>clock := \<lambda>i. clock s (Suc i), last_reading := Timestamp x\<rparr>)"
proof -
  from assms have "clock_ok s" by (simp add: tq_ok_def)
  then obtain x where "current_time s = Inr (Timestamp x, s\<lparr>clock := \<lambda>i. clock s (Suc i), last_reading := Timestamp x\<rparr>)"
    "0 < x" "x \<le> 2 ^ 61" "clock_ok (s\<lparr>clock := \<lambda>i. clock s (Suc i), last_reading := Timestamp x\<rparr>)"
    by (rule clock_okE)
  with assms that [of x] show thesis
    by (simp add: tq_ok_def clock_ok_def timers_ok_def entry_ok_def alloc_ok_def)
qed

lemma one_shot_small: "0 < x \<Longrightarrow> x \<le> 2 ^ 62 \<Longrightarrow> timer_small (new_timer cb (Timestamp x) (Fin 0 0))"
  by (simp add: timer_small_def new_timer_def small_time_def)

lemma runAfter_spec:
  assumes ok: "tq_ok t s" and d: "double_to_int64 (double_mul delay (Fin kMicroSecondsPerSecond 0)) = Inr d"
    "0 \<le> d" "d \<le> 2 ^ 61"
  shows "okR (\<lambda>(_, s'). tq_ok t s' \<and> grows s s') (runAfter t delay cb s)"
proof -
  from ok obtain x where x: "current_time s =
      Inr (Timestamp x, s\<lparr>clock := \<lambda>i. clock s (Suc i), last_reading := Timestamp x\<rparr>)" "0 < x" "x \<le> 2 ^ 61"
    "tq_ok t (s\<lparr>clock := \<lambda>i. clock s (Suc i), last_reading := Timestamp x\<rparr>)" by (rule tq_ok_tick)
  let ?s = "s\<lparr>clock := \<lambda>i. clock s (Suc i), last_reading := Timestamp x\<rparr>"
  have "in_int64 (x + d)" using x(2,3) d(2,3) by (simp add: in_int64_def)
  then have "addTime (Timestamp x) delay = Inr (Timestamp (x + d))" by (simp add: addTime_def d(1))
  then have run: "runAfter t delay cb s = TimerQueue_addTimer t cb (Timestamp (x + d)) (Fin 0 0) ?s"
    by (simp add: runAfter_def x(1))
  have "timer_small (new_timer cb (Timestamp (x + d)) (Fin 0 0))"
    using x(2,3) d(2,3) by (intro one_shot_small) simp_all
  from addTimer_spec [OF x(4) this] show ?thesis
    unfolding run by (rule okR_mono) (auto simp: grows_def)
qed

lemma second_in_us: "double_to_int64 (double_mul (Fin 1 0) (Fin kMicroSecondsPerSecond 0)) = Inr 1000000"
  by (simp add: kMicroSecondsPerSecond_def double_round_def excess_bits_def nbits.simps
      round_half_even_def in_int64_def)

text \<open>A timer function that sets itself again, one second later.\<close>

interpretation chaining: timer_functions
  "\<lambda>u s. bindR (runAfter t (Fin 1 0) u s) (\<lambda>(_, s'). Inr s')" t
  for t :: int
proof unfold_locales
  fix s :: "('u, 'z) tqloop_scheme" and u
  assume "tq_ok t s"
  from runAfter_spec [OF this second_in_us, of u] show "okR (\<lambda>s'. tq_ok t s' \<and> grows s s')
      (bindR (runAfter t (Fin 1 0) u s) (\<lambda>(_, s'). Inr s'))"
    by (auto elim: okR_mono)
qed

section \<open>Properties\<close>

text \<open>C29. What an alarm takes out of the queue: all entries before the present, in their order, and
  the later ones stay; but when an entry's time is exactly the present, the assertion after
  \<open>lower_bound\<close> fails (the sentry \<open>{now, null}\<close> sorts before it) and the program stops.\<close>

theorem expired_entries:
  assumes "timers_ok s"
  shows "getExpired now s = (if now \<in> fst ` set (timers s)
    then Inl (AssertFailed ''it == timers_.end() || now < it->first'')
    else Inr (filter (\<lambda>e. fst e < now) (timers s), s\<lparr>timers := filter (\<lambda>e. now < fst e) (timers s)\<rparr>))"
  using getExpired_spec [OF assms, of now] getExpired_equal [OF assms, of now] by simp

definition demo_timers :: "string tqloop" where
  "demo_timers = \<lparr>loopId = 0, threadId = 7, heap = Map.empty, pollfds = [], channels = Map.empty,
     looping = True, quit_flag = False, callingPendingFunctors = False, wakeupFd = 5,
     wakeupChannel = 1, eventCount = 0, pendingFunctors = [], clock = \<lambda>i. (1600000000, 0),
     last_reading = Timestamp 0, timerfd = 6, timerfdChannel = 2,
     timer_heap = [90 \<mapsto> new_timer ''tick'' (Timestamp 1500000000000000) (Fin 1 0),
                   80 \<mapsto> new_timer ''late'' (Timestamp 1700000000000000) (Fin 0 0)],
     timers = [(Timestamp 1500000000000000, 90), (Timestamp 1700000000000000, 80)],
     timerfd_due = None, timerfd_ticks = 1, timer_vars = Map.empty, malloc = \<lambda>i. 100 + i\<rparr>"

lemma demo_timers_ok: "tq_ok 7 demo_timers" "timers_ok demo_timers"
proof -
  have "timer_small (new_timer ''tick'' (Timestamp 1500000000000000) (Fin 1 0))"
    using second_in_us by (simp add: timer_small_def new_timer_def small_time_def)
  moreover have "timer_small (new_timer ''late'' (Timestamp 1700000000000000) (Fin 0 0))"
    by (rule one_shot_small) simp_all
  ultimately show ok: "timers_ok demo_timers"
    by (simp add: timers_ok_def entry_ok_def demo_timers_def new_timer_def less_prod_def)
  have "clock_ok demo_timers"
    by (simp add: clock_ok_def demo_timers_def timestamp_now_def kMicroSecondsPerSecond_def in_int64_def)
  moreover have "alloc_ok demo_timers" by (simp add: alloc_ok_def demo_timers_def inj_def)
  ultimately show "tq_ok 7 demo_timers" using ok by (simp add: tq_ok_def demo_timers_def)
qed

lemma expired_entries_witness:
  "getExpired (Timestamp 1500000000000000) demo_timers =
     Inl (AssertFailed ''it == timers_.end() || now < it->first'')"
  using expired_entries [OF demo_timers_ok(2), of "Timestamp 1500000000000000"]
  by (simp add: demo_timers_def)

text \<open>C30. The time handed to \<open>timerfd_settime\<close> is a valid \<open>timespec\<close> and never zero (which would
  disarm): the microseconds that remain, but at least 100.\<close>

theorem time_until_expiry:
  assumes "clock_ok s" and "small_time when"
  shows "okR (\<lambda>(ts, s'). timespec_valid ts \<and> fst ts * 10 ^ 6 + snd ts div 1000 =
      max 100 (microSecondsSinceEpoch when - microSecondsSinceEpoch (last_reading s')))
    (howMuchTimeFromNow when s)"
proof -
  from assms(1) obtain x where x: "current_time s =
      Inr (Timestamp x, s\<lparr>clock := \<lambda>i. clock s (Suc i), last_reading := Timestamp x\<rparr>)" "0 < x" "x \<le> 2 ^ 61"
    by (rule clock_okE)
  let ?d = "microSecondsSinceEpoch when - x"
  have "0 < (if ?d < 100 then 100 else ?d)" by simp
  note m = split_microseconds [OF this]
  have "in_int64 ?d" using assms(2) x(2,3) by (simp add: in_int64_def small_time_def)
  with x(1) m show ?thesis
    by (simp add: howMuchTimeFromNow_def Let_def timespec_valid_def del: power_numeral power_numeral_even power_numeral_odd)
qed

lemma time_until_expiry_witness:
  "okR (\<lambda>(ts, s'). timespec_valid ts \<and> fst ts * 10 ^ 6 + snd ts div 1000 =
      max 100 (1500000000000000 - microSecondsSinceEpoch (last_reading s')))
    (howMuchTimeFromNow (Timestamp 1500000000000000) demo_timers)"
  using time_until_expiry [of demo_timers "Timestamp 1500000000000000"] demo_timers_ok(1)
  by (simp add: tq_ok_def small_time_def)

text \<open>C28. Adding a timer from the loop's own thread: it is in the queue when the call returns, nothing
  else changed there, and if it became the earliest the timerfd is due for it.\<close>

theorem addTimer_in_loop:
  assumes "tq_ok t s" and "timer_small (new_timer cb when delta)"
  shows "okR (\<lambda>(timerid, s'). tq_ok t s' \<and> set (timers s') = insert (when, timerid) (set (timers s))
      \<and> timer_heap s' timerid = Some (new_timer cb when delta)
      \<and> timerfd_due s' = (if timers s = [] \<or> when < fst (hd (timers s))
          then Some (due_for when (last_reading s')) else timerfd_due s))
    (TimerQueue_addTimer t cb when delta s)"
  by (rule okR_mono [OF addTimer_spec [OF assms]]) auto

lemma addTimer_in_loop_witness:
  "okR (\<lambda>(timerid, s'). tq_ok 7 s' \<and> set (timers s') = insert (Timestamp 10, timerid) (set (timers demo_timers))
      \<and> timer_heap s' timerid = Some (new_timer ''f'' (Timestamp 10) (Fin 0 0))
      \<and> timerfd_due s' = Some (due_for (Timestamp 10) (last_reading s')))
    (TimerQueue_addTimer 7 ''f'' (Timestamp 10) (Fin 0 0) demo_timers)"
proof -
  have "timer_small (new_timer ''f'' (Timestamp 10) (Fin 0 0))" by (rule one_shot_small) simp_all
  from addTimer_in_loop [OF demo_timers_ok(1) this] show ?thesis
    by (rule okR_mono) (auto simp: demo_timers_def)
qed

text \<open>C15. One alarm, with timer functions that keep the queue's contract: later entries stay, an
  expired repeating timer is in the queue again one interval after the present, an expired
  one-shot timer is gone, and the timerfd is due for the earliest entry.\<close>

theorem alarm_handled:
  assumes "\<And>u s. tq_ok t s \<Longrightarrow> okR (\<lambda>s'. tq_ok t s' \<and> grows s s') (user u s)"
    and "tq_ok t s" and "timestamp_now (clock s 0) = Inr now" and "now \<notin> fst ` set (timers s)"
  shows "okR (\<lambda>s'. tq_ok t s' \<and> alarm_effect now s s') (TimerQueue_handleRead user t s)"
  using timer_functions.handleRead_spec [OF timer_functions.intro [OF assms(1)] assms(2-4)] .

lemma alarm_handled_witness:
  "okR (\<lambda>s'. tq_ok 7 s' \<and> alarm_effect (Timestamp 1600000000000000) demo_timers s')
    (TimerQueue_handleRead (\<lambda>u s. Inr (queueInLoop 7 (UserTask u) s)) 7 demo_timers)"
proof (rule alarm_handled)
  show "okR (\<lambda>s'. tq_ok 7 s' \<and> grows s s') (Inr (queueInLoop 7 (UserTask u) s))"
    if "tq_ok 7 s" for u :: string and s :: "string tqloop"
    using that by (rule queueing.user_ok)
qed (simp_all add: demo_timers_ok, simp_all add: demo_timers_def timestamp_now_def
    kMicroSecondsPerSecond_def in_int64_def)

text \<open>Adding a timer from another thread: the functor queued for the loop refers to the local
  variable of a call that has already returned, so running it is undefined behaviour.\<close>

lemma addTimer_other_thread_dangles:
  assumes "t \<noteq> threadId s"
  shows "okR (\<lambda>(timerid, s'). pendingFunctors s' = pendingFunctors s @ [AddTimerInLoop timerid]
      \<and> add_captured_timer (threadId s') timerid s' =
          Inl (Undefined ''reference to a variable of a call that has returned''))
    (TimerQueue_addTimer t cb when delta s)"
  using assms
  by (simp add: TimerQueue_addTimer_def Let_def runInLoop_def isInLoopThread_def queueInLoop_def
      push_functor_def wakeup_def add_captured_timer_def)

lemma addTimer_other_thread_dangles_witness:
  "okR (\<lambda>(timerid, s'). pendingFunctors s' = [AddTimerInLoop timerid]
      \<and> add_captured_timer (threadId s') timerid s' =
          Inl (Undefined ''reference to a variable of a call that has returned''))
    (TimerQueue_addTimer 9 ''f'' (Timestamp 10) (Fin 0 0) demo_timers)"
  using addTimer_other_thread_dangles [of 9 demo_timers "''f''" "Timestamp 10" "Fin 0 0"]
  by (simp add: demo_timers_def)

end
