(* ===== verification/Inet.thy ===== *)
theory Inet
  imports Decimals
begin

unbundle bit_operations_syntax

text \<open>
  Sockets and addresses (\<open>net/SocketsOps.h\<close>, \<open>net/SocketsOps.cpp\<close>, \<open>net/InetAddress.h\<close>,
  \<open>net/InetAddress.cpp\<close>, \<open>net/Socket.h\<close>, \<open>net/Socket.cpp\<close>). The outcome of a system call is an argument
  of the wrapper that makes it; \<open>be\<close> tells whether the host is big-endian.
\<close>

section \<open>Byte order\<close>

definition to_bytes :: "nat \<Rightarrow> nat \<Rightarrow> nat list" where
  "to_bytes k n = map (\<lambda>i. n div 256 ^ i mod 256) [0..<k]"

fun of_bytes :: "nat list \<Rightarrow> nat" where
  "of_bytes [] = 0"
| "of_bytes (b # bs) = b + 256 * of_bytes bs"

definition byteswap :: "nat \<Rightarrow> nat \<Rightarrow> nat" where
  "byteswap k n = of_bytes (rev (to_bytes k n))"

definition hostToNetwork64 :: "bool \<Rightarrow> 64 word \<Rightarrow> 64 word" where
  "hostToNetwork64 be w = (if be then w else of_nat (byteswap 8 (unat w)))"

definition hostToNetwork32 :: "bool \<Rightarrow> 32 word \<Rightarrow> 32 word" where
  "hostToNetwork32 be w = (if be then w else of_nat (byteswap 4 (unat w)))"

definition hostToNetwork16 :: "bool \<Rightarrow> 16 word \<Rightarrow> 16 word" where
  "hostToNetwork16 be w = (if be then w else of_nat (byteswap 2 (unat w)))"

definition networkToHost64 :: "bool \<Rightarrow> 64 word \<Rightarrow> 64 word" where
  "networkToHost64 be w = (if be then w else of_nat (byteswap 8 (unat w)))"

definition networkToHost32 :: "bool \<Rightarrow> 32 word \<Rightarrow> 32 word" where
  "networkToHost32 be w = (if be then w else of_nat (byteswap 4 (unat w)))"

definition networkToHost16 :: "bool \<Rightarrow> 16 word \<Rightarrow> 16 word" where
  "networkToHost16 be w = (if be then w else of_nat (byteswap 2 (unat w)))"

lemma length_to_bytes [simp]: "length (to_bytes k n) = k"
  by (simp add: to_bytes_def)

lemma to_bytes_Suc: "to_bytes (Suc k) n = n mod 256 # to_bytes k (n div 256)"
proof -
  have "map (\<lambda>i. n div 256 ^ i mod 256) [1..<Suc k] = map (\<lambda>i. n div 256 ^ Suc i mod 256) [0..<k]"
    by (simp add: map_Suc_upt [symmetric] o_def del: upt_Suc)
  then show ?thesis
    by (simp add: to_bytes_def upt_rec [of 0 "Suc k"] div_mult2_eq del: upt_Suc)
qed

lemma to_bytes_bound: "b \<in> set (to_bytes k n) \<Longrightarrow> b < 256"
  by (auto simp: to_bytes_def)

lemma of_to_bytes: "n < 256 ^ k \<Longrightarrow> of_bytes (to_bytes k n) = n"
proof (induction k arbitrary: n)
  case 0
  then show ?case by (simp add: to_bytes_def)
next
  case (Suc k)
  then have "n div 256 < 256 ^ k" by (simp add: less_mult_imp_div_less mult.commute)
  with Suc.IH show ?case by (simp add: to_bytes_Suc)
qed

lemma to_of_bytes: "(\<And>b. b \<in> set bs \<Longrightarrow> b < 256) \<Longrightarrow> to_bytes (length bs) (of_bytes bs) = bs"
proof (induction bs)
  case Nil
  then show ?case by (simp add: to_bytes_def)
next
  case (Cons b bs)
  from Cons.prems [of b] have "b < 256" by simp
  with Cons show ?case by (simp add: to_bytes_Suc)
qed

lemma of_bytes_bound: "(\<And>b. b \<in> set bs \<Longrightarrow> b < 256) \<Longrightarrow> of_bytes bs < 256 ^ length bs"
proof (induction bs)
  case (Cons b bs)
  from Cons.prems [of b] Cons.IH Cons.prems have "b < 256" "of_bytes bs < 256 ^ length bs" by auto
  then show ?case by simp
qed simp

lemma byteswap_bound: "byteswap k n < 256 ^ k"
  using of_bytes_bound [of "rev (to_bytes k n)"] by (simp add: byteswap_def to_bytes_bound)

lemma byteswap_byteswap: "n < 256 ^ k \<Longrightarrow> byteswap k (byteswap k n) = n"
  using to_of_bytes [of "rev (to_bytes k n)"] by (simp add: byteswap_def to_bytes_bound of_to_bytes)

lemma swap_word:
  fixes w :: "'a::len word"
  assumes "256 ^ k = (2::nat) ^ LENGTH('a)"
  shows "(of_nat (byteswap k (unat (of_nat (byteswap k (unat w)) :: 'a word))) :: 'a word) = w"
proof -
  have "byteswap k (unat w) < 2 ^ LENGTH('a)" using byteswap_bound [of k] assms by metis
  then have "unat (of_nat (byteswap k (unat w)) :: 'a word) = byteswap k (unat w)"
    by (simp add: unat_of_nat)
  moreover have "unat w < 256 ^ k" unfolding assms by (rule unsigned_less)
  ultimately show ?thesis by (simp add: byteswap_byteswap)
qed

lemma network_host_16 [simp]: "networkToHost16 be (hostToNetwork16 be w) = w"
  by (simp add: networkToHost16_def hostToNetwork16_def swap_word)

lemma network_host_32 [simp]: "networkToHost32 be (hostToNetwork32 be w) = w"
  by (simp add: networkToHost32_def hostToNetwork32_def swap_word)

lemma network_host_64 [simp]: "networkToHost64 be (hostToNetwork64 be w) = w"
  by (simp add: networkToHost64_def hostToNetwork64_def swap_word)

lemma host_network_16 [simp]: "hostToNetwork16 be (networkToHost16 be w) = w"
  by (simp add: networkToHost16_def hostToNetwork16_def swap_word)

lemma host_network_32 [simp]: "hostToNetwork32 be (networkToHost32 be w) = w"
  by (simp add: networkToHost32_def hostToNetwork32_def swap_word)

section \<open>Addresses\<close>

text \<open>\<open>sin_port\<close> and \<open>s_addr\<close> are in network byte order.\<close>

record sockaddr_in =
  sin_family :: "16 word"
  sin_port :: "16 word"
  s_addr :: "32 word"

definition AF_INET :: "16 word" where
  "AF_INET = 2"

definition kInaddrAny :: "32 word" where
  "kInaddrAny = 0"

text \<open>
  \<open>inet_ntop\<close> and \<open>inet_pton\<close> for IPv4: four decimal numbers up to 255 without leading zeros, between
  dots.
\<close>

definition dotted :: "nat list \<Rightarrow> string" where
  "dotted bs = concat (map decimal (take 1 bs)) @ concat (map (\<lambda>b. ''.'' @ decimal b) (drop 1 bs))"

definition inet_ntop :: "bool \<Rightarrow> 32 word \<Rightarrow> string" where
  "inet_ntop be a = dotted (rev (to_bytes 4 (unat (networkToHost32 be a))))"

fun split_dots :: "string \<Rightarrow> string list" where
  "split_dots [] = [[]]"
| "split_dots (c # cs) = (if c = CHR ''.'' then [] # split_dots cs
     else (case split_dots cs of [] \<Rightarrow> [[c]] | p # ps \<Rightarrow> (c # p) # ps))"

definition octet :: "string \<Rightarrow> nat option" where
  "octet s = (if s \<noteq> [] \<and> list_all is_digit s \<and> (1 < length s \<longrightarrow> hd s \<noteq> CHR ''0'') \<and> undecimal s \<le> 255
     then Some (undecimal s) else None)"

definition inet_pton :: "bool \<Rightarrow> string \<Rightarrow> 32 word option" where
  "inet_pton be s = (let os = map octet (split_dots s) in
     if length os = 4 \<and> None \<notin> set os
     then Some (hostToNetwork32 be (of_nat (of_bytes (rev (map the os))))) else None)"

definition toHostPort :: "bool \<Rightarrow> nat \<Rightarrow> sockaddr_in \<Rightarrow> string" where
  "toHostPort be buf_size addr =
     (let host = inet_ntop be (s_addr addr);
          port = networkToHost16 be (sin_port addr)
      in snprintf buf_size (host @ '':'' @ decimal (unat port)))"

definition fromHostPort :: "bool \<Rightarrow> string \<Rightarrow> 16 word \<Rightarrow> sockaddr_in \<Rightarrow> sockaddr_in res" where
  "fromHostPort be ip port addr =
     (let addr1 = addr\<lparr>sin_family := AF_INET, sin_port := hostToNetwork16 be port\<rparr> in
      case inet_pton be ip of
        None \<Rightarrow> Inl (Aborted ''sockets::fromHostPort'')
      | Some a \<Rightarrow> Inr (addr1\<lparr>s_addr := a\<rparr>))"

definition zero_sockaddr :: sockaddr_in where
  "zero_sockaddr = \<lparr>sin_family = 0, sin_port = 0, s_addr = 0\<rparr>"

definition InetAddress_port :: "bool \<Rightarrow> 16 word \<Rightarrow> sockaddr_in" where
  "InetAddress_port be port = zero_sockaddr\<lparr>sin_family := AF_INET, sin_port := networkToHost16 be port,
     s_addr := networkToHost32 be kInaddrAny\<rparr>"

definition InetAddress_ip_port :: "bool \<Rightarrow> string \<Rightarrow> 16 word \<Rightarrow> sockaddr_in res" where
  "InetAddress_ip_port be ip port = fromHostPort be (takeWhile (\<lambda>c. c \<noteq> CHR 0x00) ip) port zero_sockaddr"

definition InetAddress_toHostPort :: "bool \<Rightarrow> sockaddr_in \<Rightarrow> string" where
  "InetAddress_toHostPort be addr = toHostPort be 32 addr"

section \<open>Printing and parsing addresses\<close>

definition join_dots :: "string list \<Rightarrow> string" where
  "join_dots ps = concat (take 1 ps) @ concat (map (\<lambda>p. ''.'' @ p) (drop 1 ps))"

lemma dotted_join: "dotted bs = join_dots (map decimal bs)"
  by (cases bs) (simp_all add: dotted_def join_dots_def comp_def)

lemma split_dots_not_Nil [simp]: "split_dots s \<noteq> []"
  by (induction s) (auto split: list.splits)

lemma join_split: "join_dots (split_dots s) = s"
proof (induction s)
  case (Cons c s)
  then show ?case by (cases "split_dots s") (auto simp: join_dots_def)
qed (simp add: join_dots_def)

lemma split_no_dot: "CHR ''.'' \<notin> set s \<Longrightarrow> split_dots s = [s]"
  by (induction s) auto

lemma split_prefix: "CHR ''.'' \<notin> set p \<Longrightarrow> split_dots (p @ CHR ''.'' # s) = p # split_dots s"
  by (induction p) auto

lemma split_join:
  assumes "ps \<noteq> []" and "\<And>p. p \<in> set ps \<Longrightarrow> CHR ''.'' \<notin> set p"
  shows "split_dots (join_dots ps) = ps"
proof -
  have tail: "split_dots (p @ concat (map (\<lambda>p. ''.'' @ p) qs)) = p # qs"
    if "\<And>q. q \<in> set (p # qs) \<Longrightarrow> CHR ''.'' \<notin> set q" for p qs
    using that
  proof (induction qs arbitrary: p)
    case Nil
    then show ?case by (simp add: split_no_dot)
  next
    case (Cons q qs)
    then have "split_dots (q @ concat (map (\<lambda>p. ''.'' @ p) qs)) = q # qs" by simp
    with Cons.prems show ?case by (simp add: split_prefix)
  qed
  from assms obtain p qs where "ps = p # qs" by (cases ps) auto
  with assms(2) tail [of p qs] show ?thesis by (simp add: join_dots_def)
qed

lemma digit_digit_value: "is_digit c \<Longrightarrow> digit (digit_value c) = c"
  by (auto simp: is_digit_def digit_value_def digit_def)

lemma digit_value_less: "is_digit c \<Longrightarrow> digit_value c < 10"
  by (auto simp: is_digit_def digit_value_def)

lemma decimal_snoc: "0 < u \<Longrightarrow> v < 10 \<Longrightarrow> decimal (10 * u + v) = decimal u @ [digit v]"
  by (subst decimal.simps) simp

lemma decimal_undecimal:
  "s \<noteq> [] \<Longrightarrow> list_all is_digit s \<Longrightarrow> (1 < length s \<longrightarrow> hd s \<noteq> CHR ''0'') \<Longrightarrow> decimal (undecimal s) = s"
proof (induction s rule: rev_induct)
  case (snoc c t)
  then have c: "is_digit c" by simp
  show ?case
  proof (cases "t = []")
    case True
    with digit_value_less [OF c] show ?thesis
      by (simp add: undecimal_def decimal.simps [of "digit_value c"] digit_digit_value [OF c])
  next
    case False
    with snoc have hd: "hd t \<noteq> CHR ''0''" and t: "decimal (undecimal t) = t" by auto
    have "undecimal t \<noteq> 0"
    proof
      assume "undecimal t = 0"
      with t have "t = ''0''" by (simp add: decimal.simps [of 0] digit_def)
      with hd show False by simp
    qed
    with t digit_value_less [OF c] show ?thesis
      by (simp add: undecimal_snoc decimal_snoc digit_digit_value [OF c])
  qed
qed simp

lemma hd_decimal: "0 < n \<Longrightarrow> hd (decimal n) \<noteq> CHR ''0''"
proof (induction n rule: decimal.induct)
  case (1 n)
  show ?case
  proof (cases "n < 10")
    case True
    with 1(2) have "n = 1 \<or> n = 2 \<or> n = 3 \<or> n = 4 \<or> n = 5 \<or> n = 6 \<or> n = 7 \<or> n = 8 \<or> n = 9" by presburger
    then show ?thesis by (auto simp: decimal.simps [of n] digit_def)
  next
    case False
    with 1 have "hd (decimal (n div 10)) \<noteq> CHR ''0''" by simp
    with False show ?thesis by (subst decimal.simps) simp
  qed
qed

lemma octet_decimal: "n \<le> 255 \<Longrightarrow> octet (decimal n) = Some n"
proof -
  assume n: "n \<le> 255"
  have "hd (decimal n) \<noteq> CHR ''0''" if "1 < length (decimal n)"
  proof (rule hd_decimal)
    show "0 < n" using that by (cases "n = 0") (simp_all add: decimal.simps [of 0])
  qed
  with n show ?thesis by (auto simp: octet_def list_all_iff decimal_digits)
qed

lemma octet_Some: "octet s = Some n \<Longrightarrow> decimal n = s \<and> n < 256"
  by (auto simp: octet_def decimal_undecimal split: if_splits)

lemma no_dot_decimal: "CHR ''.'' \<notin> set (decimal n)"
  using decimal_digits [of "CHR ''.''" n] by (auto simp: is_digit_def)

lemma inet_pton_ntop: "inet_pton be (inet_ntop be a) = Some a"
proof -
  define bs where "bs = rev (to_bytes 4 (unat (networkToHost32 be a)))"
  have bound: "b \<in> set bs \<Longrightarrow> b \<le> 255" for b
    using to_bytes_bound [of b 4] by (fastforce simp: bs_def)
  have len: "length bs = 4" by (simp add: bs_def)
  have "split_dots (inet_ntop be a) = map decimal bs"
    unfolding inet_ntop_def bs_def [symmetric] dotted_join
    using len by (intro split_join) (auto simp: no_dot_decimal)
  then have os: "map octet (split_dots (inet_ntop be a)) = map Some bs"
    using bound by (auto simp: octet_decimal)
  have "unat (networkToHost32 be a) < 256 ^ 4"
    using unsigned_less [where 'a = nat, of "networkToHost32 be a"] by simp
  then have "of_bytes (rev bs) = unat (networkToHost32 be a)" by (simp add: bs_def of_to_bytes)
  with len show ?thesis by (simp add: inet_pton_def os comp_def)
qed

lemma inet_ntop_pton:
  assumes "inet_pton be s = Some a"
  shows "inet_ntop be a = s"
proof -
  define bs where "bs = map the (map octet (split_dots s))"
  from assms have len: "length (split_dots s) = 4" and none: "None \<notin> set (map octet (split_dots s))"
    and a: "a = hostToNetwork32 be (of_nat (of_bytes (rev bs)))"
    by (auto simp: inet_pton_def bs_def Let_def split: if_splits)
  have each: "decimal (the (octet p)) = p \<and> the (octet p) < 256" if "p \<in> set (split_dots s)" for p
  proof -
    from none that obtain n where "octet p = Some n" by (cases "octet p") force+
    with octet_Some [OF this] show ?thesis by simp
  qed
  have bytes: "b < 256" if "b \<in> set (rev bs)" for b using each that by (auto simp: bs_def)
  have "length (rev bs) = 4" using len by (simp add: bs_def)
  then have "to_bytes 4 (of_bytes (rev bs)) = rev bs" using to_of_bytes [of "rev bs"] bytes by simp
  moreover have "of_bytes (rev bs) < 2 ^ 32"
    using of_bytes_bound [of "rev bs"] bytes \<open>length (rev bs) = 4\<close> by simp
  then have "unat (networkToHost32 be a) = of_bytes (rev bs)" by (simp add: a unat_of_nat)
  ultimately have "inet_ntop be a = join_dots (map decimal bs)"
    by (simp add: inet_ntop_def dotted_join)
  also have "map decimal bs = split_dots s"
    using each by (simp add: bs_def comp_def map_idI)
  finally show ?thesis by (simp add: join_split)
qed

lemma length_inet_ntop: "length (inet_ntop be a) \<le> 15"
proof -
  define bs where "bs = rev (to_bytes 4 (unat (networkToHost32 be a)))"
  have len: "length (decimal b) \<le> 3" if "b \<in> set bs" for b
    using to_bytes_bound [of b 4] that by (intro length_decimal) (fastforce simp: bs_def)+
  have "length bs = 4" by (simp add: bs_def)
  then obtain a1 a2 a3 a4 where bs: "bs = [a1, a2, a3, a4]"
    by (auto simp: length_Suc_conv eval_nat_numeral)
  have "length (inet_ntop be a) = length (dotted bs)" by (simp add: inet_ntop_def bs_def)
  also have "\<dots> \<le> 15" using len [of a1] len [of a2] len [of a3] len [of a4] by (simp add: bs dotted_def)
  finally show ?thesis .
qed

section \<open>Socket calls\<close>

text \<open>
  A failing system call returns a negative number and sets \<open>errno\<close>. The wrappers that end in
  \<open>OrDie\<close>, and \<open>close\<close>, \<open>getLocalAddr\<close>, abort the program then.
\<close>

datatype 'a sysres = Success 'a | Errno int

definition or_die :: "string \<Rightarrow> 'a sysres \<Rightarrow> 'a res" where
  "or_die who r = (case r of Success a \<Rightarrow> Inr a | Errno e \<Rightarrow> Inl (Aborted who))"

definition createNonblockingOrDie :: "int sysres \<Rightarrow> int res" where
  "createNonblockingOrDie r = or_die ''sockets::createNonblockingOrDie'' r"

definition bindOrDie :: "unit sysres \<Rightarrow> unit res" where
  "bindOrDie r = or_die ''sockets::bindOrDie'' r"

definition listenOrDie :: "unit sysres \<Rightarrow> unit res" where
  "listenOrDie r = or_die ''sockets::listenOrDie'' r"

text \<open>\<open>Socket\<close>'s own operations pass the call on.\<close>

definition Socket_bindAddress :: "unit sysres \<Rightarrow> unit res" where
  [simp]: "Socket_bindAddress r = bindOrDie r"

definition Socket_listen :: "unit sysres \<Rightarrow> unit res" where
  [simp]: "Socket_listen r = listenOrDie r"

definition sockets_close :: "unit sysres \<Rightarrow> unit res" where
  "sockets_close r = or_die ''sockets::close'' r"

definition getLocalAddr :: "sockaddr_in sysres \<Rightarrow> sockaddr_in res" where
  "getLocalAddr r = or_die ''sockets::getLocalAddr'' r"

definition getSocketError :: "int sysres \<Rightarrow> int" where
  "getSocketError r = (case r of Success optval \<Rightarrow> optval | Errno e \<Rightarrow> e)"

definition O_NONBLOCK :: "32 word" where "O_NONBLOCK = 0x800"
definition FD_CLOEXEC :: "32 word" where "FD_CLOEXEC = 1"

text \<open>The status flags and the descriptor flags that \<open>fcntl\<close> reads, and writes back.\<close>

definition setNonBlockAndCloseOnExec :: "32 word \<times> 32 word \<Rightarrow> 32 word \<times> 32 word" where
  "setNonBlockAndCloseOnExec fl = (fst fl OR O_NONBLOCK, snd fl OR FD_CLOEXEC)"

text \<open>The Linux numbers of the errors that \<open>accept\<close> distinguishes.\<close>

definition expected_errors :: "int list" where
  "expected_errors = [11 \<comment> \<open>EAGAIN\<close>, 103 \<comment> \<open>ECONNABORTED\<close>, 4 \<comment> \<open>EINTR\<close>, 71 \<comment> \<open>EPROTO\<close>,
     1 \<comment> \<open>EPERM\<close>, 24 \<comment> \<open>EMFILE\<close>]"

definition unexpected_errors :: "int list" where
  "unexpected_errors = [9 \<comment> \<open>EBADF\<close>, 14 \<comment> \<open>EFAULT\<close>, 22 \<comment> \<open>EINVAL\<close>, 23 \<comment> \<open>ENFILE\<close>,
     105 \<comment> \<open>ENOBUFS\<close>, 12 \<comment> \<open>ENOMEM\<close>, 88 \<comment> \<open>ENOTSOCK\<close>, 95 \<comment> \<open>EOPNOTSUPP\<close>]"

text \<open>The result is the return value, \<open>errno\<close> if it failed, and the address the kernel filled in.\<close>

definition sockets_accept :: "(int \<times> sockaddr_in) sysres \<Rightarrow> sockaddr_in \<Rightarrow> (int \<times> int option \<times> sockaddr_in) res" where
  "sockets_accept r addr = (case r of
      Success (connfd, peer) \<Rightarrow> Inr (connfd, None, peer)
    | Errno savedErrno \<Rightarrow>
        if savedErrno \<in> set expected_errors then Inr (-1, Some savedErrno, addr)
        else if savedErrno \<in> set unexpected_errors then Inl (Aborted ''unexpected error of ::accept'')
        else Inl (Aborted ''unknown error of ::accept''))"

definition Socket_accept :: "(int \<times> sockaddr_in) sysres \<Rightarrow> sockaddr_in \<Rightarrow> (int \<times> sockaddr_in) res" where
  "Socket_accept r peeraddr =
     bindR (sockets_accept r zero_sockaddr) (\<lambda>(connfd, _, addr).
     Inr (connfd, if 0 \<le> connfd then addr else peeraddr))"

lemma accept_spec:
  "Socket_accept r peeraddr = (case r of
      Success (connfd, peer) \<Rightarrow> Inr (connfd, if 0 \<le> connfd then peer else peeraddr)
    | Errno e \<Rightarrow> if e \<in> {1, 4, 11, 24, 71, 103} then Inr (-1, peeraddr)
        else Inl (Aborted (if e \<in> set unexpected_errors then ''unexpected error of ::accept''
          else ''unknown error of ::accept'')))"
  by (auto simp: Socket_accept_def sockets_accept_def expected_errors_def split: sysres.split)

section \<open>Properties\<close>

text \<open>C36. An address made from a printed IP and a port prints as exactly these again, and every
  address with the IPv4 family is made by what it prints as: \<open>fromHostPort\<close> and \<open>toHostPort\<close>
  are inverse, on either byte order, and the 32 byte buffer never cuts the text.\<close>

theorem hostport_roundtrip:
  "(case InetAddress_ip_port be ip port of
      Inl e \<Rightarrow> e = Aborted ''sockets::fromHostPort''
    | Inr addr \<Rightarrow> sin_family addr = AF_INET
        \<and> InetAddress_toHostPort be addr = takeWhile (\<lambda>c. c \<noteq> CHR 0x00) ip @ '':'' @ decimal (unat port))
   \<and> InetAddress_ip_port be (inet_ntop be a) port =
       Inr \<lparr>sin_family = AF_INET, sin_port = hostToNetwork16 be port, s_addr = a\<rparr>"
proof
  let ?ip = "takeWhile (\<lambda>c. c \<noteq> CHR 0x00) ip"
  have port: "length (decimal (unat port)) \<le> 5"
    using unsigned_less [where 'a = nat, of port] by (intro length_decimal) simp_all
  show "case InetAddress_ip_port be ip port of
      Inl e \<Rightarrow> e = Aborted ''sockets::fromHostPort''
    | Inr addr \<Rightarrow> sin_family addr = AF_INET
        \<and> InetAddress_toHostPort be addr = ?ip @ '':'' @ decimal (unat port)"
  proof (cases "inet_pton be ?ip")
    case None
    then show ?thesis by (simp add: InetAddress_ip_port_def fromHostPort_def)
  next
    case (Some a)
    then have "inet_ntop be a = ?ip" by (rule inet_ntop_pton)
    moreover from this have "length ?ip \<le> 15" using length_inet_ntop [of be a] by simp
    ultimately show ?thesis
      using Some port by (simp add: InetAddress_ip_port_def fromHostPort_def InetAddress_toHostPort_def
          toHostPort_def snprintf_whole)
  qed
  have "CHR 0x00 \<notin> set (inet_ntop be a)"
    by (auto simp: inet_ntop_def dotted_def is_digit_def dest!: decimal_digits in_set_takeD in_set_dropD)
  then have whole: "takeWhile (\<lambda>c. c \<noteq> CHR 0x00) (inet_ntop be a) = inet_ntop be a"
    by (auto simp: takeWhile_eq_all_conv)
  show "InetAddress_ip_port be (inet_ntop be a) port =
       Inr \<lparr>sin_family = AF_INET, sin_port = hostToNetwork16 be port, s_addr = a\<rparr>"
    unfolding InetAddress_ip_port_def whole by (simp add: fromHostPort_def inet_pton_ntop zero_sockaddr_def)
qed

text \<open>\<open>Socket::accept\<close> returns a descriptor with the peer's address, or \<open>-1\<close> with \<open>*peeraddr\<close>
  untouched when the error is one of the six transient ones; any other error ends the program.\<close>

lemma accept_classified:
  "Socket_accept r peeraddr = (case r of
      Success (connfd, peer) \<Rightarrow> Inr (connfd, if 0 \<le> connfd then peer else peeraddr)
    | Errno e \<Rightarrow> if e \<in> {1, 4, 11, 24, 71, 103} then Inr (-1, peeraddr)
        else Inl (Aborted (if e \<in> set unexpected_errors then ''unexpected error of ::accept''
          else ''unknown error of ::accept'')))"
  by (auto simp: Socket_accept_def sockets_accept_def expected_errors_def split: sysres.split)

end
