(* ===== verification/Connections.thy ===== *)
theory Connections
  imports Buffers Alarms Inet
begin

text \<open>
  The \<open>TcpConnection\<close> (\<open>TcpConnection.h\<close>, \<open>TcpConnection.cpp\<close>): a connected socket with its
  channel, its two buffers and its life cycle. The state is that of the whole process: the loop,
  the connection objects, the server that owns them (its operations are in theory Servers) and
  what the kernel keeps for the sockets.
\<close>

section \<open>State\<close>

datatype conn_state = kConnecting | kConnected | kDisconnecting | kDisconnected

text \<open>
  \<open>c_channel\<close> is the address of the channel object. The connection and message callbacks are
  functions of the user; the close callback is bound by the server to \<open>removeConnection\<close>, and the
  flag tells whether that has happened.
\<close>

record 'u tcpconn =
  c_name :: string
  c_state :: conn_state
  c_sockfd :: int
  c_channel :: nat
  c_localAddr :: sockaddr_in
  c_peerAddr :: sockaddr_in
  c_connectionCallback :: "'u option"
  c_messageCallback :: "'u option"
  c_closeCallback :: bool
  c_input :: buffer
  c_output :: buffer

text \<open>
  \<open>conns\<close> holds the connection objects that are alive; \<open>message_vars\<close> the strings that callers of
  \<open>send\<close> passed by reference. The next five fields are the \<open>TcpServer\<close>, the next four its
  \<open>Acceptor\<close>. The kernel: \<open>open_fds\<close> the descriptors in use, \<open>reads i f\<close> what the socket \<open>f\<close> has to offer if
  the i-th next call of \<open>readv\<close> is on it (the error of the call, or the bytes in its queue; none: end
  of stream), \<open>write_results\<close> what the successive calls of \<open>write\<close> will return (a negative number:
  minus the error), \<open>wire\<close> the bytes accepted from us, \<open>shut_wr\<close> the sockets whose write side is
  shut, \<open>accepts\<close> and \<open>local_addrs\<close> the outcomes of the successive calls of \<open>accept4\<close>, which depend
  on the descriptors in use, and \<open>getsockname\<close>; \<open>reuse_addr\<close> the sockets with \<open>SO_REUSEADDR\<close>.
\<close>

record 'u world = "'u tqloop" +
  conns :: "nat \<rightharpoonup> 'u tcpconn"
  message_vars :: "nat \<rightharpoonup> string"
  server_name :: string
  started :: bool
  nextConnId :: int
  connections :: "string \<rightharpoonup> nat"
  server_callbacks :: "'u option \<times> 'u option"
  acceptFd :: int
  acceptChannel :: nat
  listenning :: bool
  newConnectionCallback :: bool
  open_fds :: "int set"
  reads :: "nat \<Rightarrow> int \<Rightarrow> int + string"
  write_results :: "nat \<Rightarrow> int"
  wire :: "int \<Rightarrow> string"
  shut_wr :: "int set"
  accepts :: "nat \<Rightarrow> int set \<Rightarrow> (int \<times> sockaddr_in) sysres"
  local_addrs :: "nat \<Rightarrow> sockaddr_in sysres"
  reuse_addr :: "int set"

text \<open>The functions of the program that uses the library.\<close>

record ('u, 's) user_code =
  run_user :: "'u \<Rightarrow> 's \<Rightarrow> 's res"
  on_connection :: "'u \<Rightarrow> nat \<Rightarrow> 's \<Rightarrow> 's res"
  on_message :: "'u \<Rightarrow> nat \<Rightarrow> timestamp \<Rightarrow> 's \<Rightarrow> 's res"

type_synonym ('u, 'z) program = "('u, ('u, 'z) world_scheme) user_code"

definition get_conn :: "nat \<Rightarrow> ('u, 'z) world_scheme \<Rightarrow> 'u tcpconn res" where
  "get_conn k s = (case conns s k of None \<Rightarrow> Inl (Undefined ''dangling connection'') | Some c \<Rightarrow> Inr c)"

definition put_conn :: "nat \<Rightarrow> 'u tcpconn \<Rightarrow> ('u, 'z) world_scheme \<Rightarrow> ('u, 'z) world_scheme" where
  "put_conn k c s = s\<lparr>conns := (conns s)(k \<mapsto> c)\<rparr>"

definition setState :: "conn_state \<Rightarrow> nat \<Rightarrow> ('u, 'z) world_scheme \<Rightarrow> ('u, 'z) world_scheme res" where
  "setState st k s = bindR (get_conn k s) (\<lambda>c. Inr (put_conn k (c\<lparr>c_state := st\<rparr>) s))"

definition conn_channel :: "nat \<Rightarrow> ('u, 'z) world_scheme \<Rightarrow> callback channel res" where
  "conn_channel k s = bindR (get_conn k s) (\<lambda>c. get_channel (c_channel c) s)"

definition conn_interest :: "int \<Rightarrow> interest_op \<Rightarrow> nat \<Rightarrow> ('u, 'z) world_scheme \<Rightarrow> ('u, 'z) world_scheme res" where
  "conn_interest t oper k s = bindR (get_conn k s) (\<lambda>c. Channel_set_interest t oper (c_channel c) s)"

text \<open>Calling an empty \<open>std::function\<close> throws; nothing catches the exception.\<close>

definition bad_function_call :: "'a res" where
  "bad_function_call = Inl (Aborted ''std::bad_function_call'')"

definition connectionCallback :: "('u, 'z) program \<Rightarrow> nat \<Rightarrow> ('u, 'z) world_scheme \<Rightarrow> ('u, 'z) world_scheme res" where
  "connectionCallback P k s = bindR (get_conn k s) (\<lambda>c.
     case c_connectionCallback c of None \<Rightarrow> bad_function_call | Some u \<Rightarrow> on_connection P u k s)"

definition messageCallback ::
  "('u, 'z) program \<Rightarrow> nat \<Rightarrow> timestamp \<Rightarrow> ('u, 'z) world_scheme \<Rightarrow> ('u, 'z) world_scheme res" where
  "messageCallback P k ts s = bindR (get_conn k s) (\<lambda>c.
     case c_messageCallback c of None \<Rightarrow> bad_function_call | Some u \<Rightarrow> on_message P u k ts s)"

section \<open>System calls on a socket\<close>

definition sys_write :: "int \<Rightarrow> string \<Rightarrow> ('u, 'z) world_scheme \<Rightarrow> int \<times> ('u, 'z) world_scheme" where
  "sys_write f data s =
     (let r = write_results s 0; s1 = s\<lparr>write_results := \<lambda>i. write_results s (Suc i)\<rparr> in
      if r < 0 then (-1, s1)
      else let n = min (nat r) (length data)
           in (int n, s1\<lparr>wire := (wire s1)(f := wire s1 f @ take n data)\<rparr>))"

definition sys_shutdown_write :: "int \<Rightarrow> ('u, 'z) world_scheme \<Rightarrow> ('u, 'z) world_scheme" where
  "sys_shutdown_write f s = s\<lparr>shut_wr := insert f (shut_wr s)\<rparr>"

definition Socket_shutdownWrite :: "int \<Rightarrow> ('u, 'z) world_scheme \<Rightarrow> ('u, 'z) world_scheme" where
  [simp]: "Socket_shutdownWrite f s = sys_shutdown_write f s"

text \<open>\<open>r\<close> is the outcome of \<open>setsockopt\<close>, which is not looked at.\<close>

definition Socket_setReuseAddr :: "unit sysres \<Rightarrow> bool \<Rightarrow> int \<Rightarrow> ('u, 'z) world_scheme \<Rightarrow> ('u, 'z) world_scheme" where
  "Socket_setReuseAddr r on f s = (case r of
     Success _ \<Rightarrow> s\<lparr>reuse_addr := (if on then insert f (reuse_addr s) else reuse_addr s - {f})\<rparr>
   | Errno e \<Rightarrow> s)"

text \<open>The destructor of a \<open>Socket\<close> closes its descriptor.\<close>

definition Socket_dtor :: "int \<Rightarrow> ('u, 'z) world_scheme \<Rightarrow> ('u, 'z) world_scheme" where
  [simp]: "Socket_dtor f s = s\<lparr>open_fds := open_fds s - {f}\<rparr>"

section \<open>TcpConnection\<close>

text \<open>\<open>k\<close> and \<open>a\<close> are the addresses of the new object and of its channel.\<close>

definition TcpConnection_ctor ::
  "nat \<Rightarrow> nat \<Rightarrow> string \<Rightarrow> int \<Rightarrow> sockaddr_in \<Rightarrow> sockaddr_in \<Rightarrow> ('u, 'z) world_scheme \<Rightarrow> ('u, 'z) world_scheme res" where
  "TcpConnection_ctor k a name sockfd localAddr peerAddr s =
     bindR new_buffer (\<lambda>inb.
     bindR new_buffer (\<lambda>outb.
     let c = \<lparr>c_name = name, c_state = kConnecting, c_sockfd = sockfd, c_channel = a,
              c_localAddr = localAddr, c_peerAddr = peerAddr, c_connectionCallback = None,
              c_messageCallback = None, c_closeCallback = False, c_input = inb, c_output = outb\<rparr>
     in Inr (put_conn k c (put_channel a (setReadCallBack (ConnectionRead k) (new_channel (loopId s) sockfd)) s))))"

text \<open>The destructors of the connection and of its \<open>Socket\<close>, which closes the descriptor.\<close>

definition TcpConnection_dtor :: "nat \<Rightarrow> ('u, 'z) world_scheme \<Rightarrow> ('u, 'z) world_scheme" where
  "TcpConnection_dtor k s = (case conns s k of None \<Rightarrow> s | Some c \<Rightarrow>
     Socket_dtor (c_sockfd c) (s\<lparr>conns := (conns s)(k := None)\<rparr>))"

definition connectEstablished :: "('u, 'z) program \<Rightarrow> int \<Rightarrow> nat \<Rightarrow> ('u, 'z) world_scheme \<Rightarrow> ('u, 'z) world_scheme res" where
  "connectEstablished P t k s =
     bindR (assertInLoopThread t s) (\<lambda>_.
     bindR (get_conn k s) (\<lambda>c.
     bindR (assertR ''state_ == kConnecting'' (c_state c = kConnecting)) (\<lambda>_.
     bindR (setState kConnected k s) (\<lambda>s1.
     bindR (conn_interest t EnableReading k s1) (\<lambda>s2.
     connectionCallback P k s2)))))"

definition connectDestroyed :: "('u, 'z) program \<Rightarrow> int \<Rightarrow> nat \<Rightarrow> ('u, 'z) world_scheme \<Rightarrow> ('u, 'z) world_scheme res" where
  "connectDestroyed P t k s =
     bindR (assertInLoopThread t s) (\<lambda>_.
     bindR (get_conn k s) (\<lambda>c.
     bindR (assertR ''state_ == kConnected || state_ == kDisconnecting''
              (c_state c = kConnected \<or> c_state c = kDisconnecting)) (\<lambda>_.
     bindR (setState kDisconnected k s) (\<lambda>s1.
     bindR (conn_interest t DisableAll k s1) (\<lambda>s2.
     bindR (connectionCallback P k s2) (\<lambda>s3.
     bindR (get_conn k s3) (\<lambda>c3. EventLoop_removeChannel t (c_channel c3) s3)))))))"

definition shutdownInLoop :: "int \<Rightarrow> nat \<Rightarrow> ('u, 'z) world_scheme \<Rightarrow> ('u, 'z) world_scheme res" where
  "shutdownInLoop t k s =
     bindR (assertInLoopThread t s) (\<lambda>_.
     bindR (get_conn k s) (\<lambda>c.
     bindR (conn_channel k s) (\<lambda>ch.
     Inr (if \<not> isWriting ch then Socket_shutdownWrite (c_sockfd c) s else s))))"

definition TcpConnection_shutdown :: "int \<Rightarrow> nat \<Rightarrow> ('u, 'z) world_scheme \<Rightarrow> ('u, 'z) world_scheme res" where
  "TcpConnection_shutdown t k s =
     bindR (get_conn k s) (\<lambda>c.
     if c_state c = kConnected
     then bindR (setState kDisconnecting k s) (runInLoop t (ShutdownInLoop k) (shutdownInLoop t k))
     else Inr s)"

definition sendInLoop :: "int \<Rightarrow> string \<Rightarrow> nat \<Rightarrow> ('u, 'z) world_scheme \<Rightarrow> ('u, 'z) world_scheme res" where
  "sendInLoop t message k s =
     bindR (assertInLoopThread t s) (\<lambda>_.
     bindR (get_conn k s) (\<lambda>c.
     bindR (conn_channel k s) (\<lambda>ch.
     let (nwrote, s1) =
       (if \<not> isWriting ch \<and> readableBytes (c_output c) = 0
        then let (n, s1) = sys_write (ch_fd ch) message s in (if 0 \<le> n then n else 0, s1)
        else (0, s)) in
     bindR (assertR ''nwrote >= 0'' (0 \<le> nwrote)) (\<lambda>_.
     if nat nwrote < length message
     then bindR (append_bytes (drop (nat nwrote) message) (c_output c)) (\<lambda>b.
          let s2 = put_conn k (c\<lparr>c_output := b\<rparr>) s1 in
          if \<not> isWriting ch then conn_interest t EnableWriting k s2 else Inr s2)
     else Inr s1))))"

text \<open>\<open>message\<close> is what the string at \<open>v\<close>, which the caller passed by reference, holds at the call.\<close>

definition TcpConnection_send :: "int \<Rightarrow> nat \<Rightarrow> string \<Rightarrow> nat \<Rightarrow> ('u, 'z) world_scheme \<Rightarrow> ('u, 'z) world_scheme res" where
  "TcpConnection_send t v message k s =
     bindR (get_conn k s) (\<lambda>c.
     if c_state c = kConnected
     then if isInLoopThread t s then sendInLoop t message k s
          else runInLoop t (SendInLoop k v) (sendInLoop t message k) s
     else Inr s)"

definition send_captured :: "int \<Rightarrow> nat \<Rightarrow> nat \<Rightarrow> ('u, 'z) world_scheme \<Rightarrow> ('u, 'z) world_scheme res" where
  "send_captured t v k s = (case message_vars s v of
      None \<Rightarrow> Inl (Undefined ''reference to a string that is gone'')
    | Some message \<Rightarrow> sendInLoop t message k s)"

text \<open>\<open>TcpServer::removeConnection\<close>, which the close callback calls.\<close>

definition removeConnection :: "int \<Rightarrow> nat \<Rightarrow> ('u, 'z) world_scheme \<Rightarrow> ('u, 'z) world_scheme res" where
  "removeConnection t k s =
     bindR (assertInLoopThread t s) (\<lambda>_.
     bindR (get_conn k s) (\<lambda>c.
     let n = (if connections s (c_name c) = None then 0 else 1::nat);
         s1 = s\<lparr>connections := (connections s)(c_name c := None)\<rparr> in
     bindR (assertR ''n == 1'' (n = 1)) (\<lambda>_.
     Inr (queueInLoop t (ConnectDestroyed k) s1))))"

definition handleClose :: "int \<Rightarrow> nat \<Rightarrow> ('u, 'z) world_scheme \<Rightarrow> ('u, 'z) world_scheme res" where
  "handleClose t k s =
     bindR (assertInLoopThread t s) (\<lambda>_.
     bindR (get_conn k s) (\<lambda>c.
     bindR (assertR ''state_ == kConnected || state_ == kDisconnecting''
              (c_state c = kConnected \<or> c_state c = kDisconnecting)) (\<lambda>_.
     bindR (conn_interest t DisableAll k s) (\<lambda>s1.
     if c_closeCallback c then removeConnection t k s1 else bad_function_call))))"

text \<open>\<open>handleError\<close> reads \<open>SO_ERROR\<close> and logs it; the connection is left as it is.\<close>

definition handleError :: "nat \<Rightarrow> ('u, 'z) world_scheme \<Rightarrow> ('u, 'z) world_scheme res" where
  "handleError k s = bindR (conn_channel k s) (\<lambda>ch. Inr s)"

definition TcpConnection_handleRead ::
  "('u, 'z) program \<Rightarrow> int \<Rightarrow> nat \<Rightarrow> timestamp \<Rightarrow> ('u, 'z) world_scheme \<Rightarrow> ('u, 'z) world_scheme res" where
  "TcpConnection_handleRead P t k receiveTime s =
     bindR (get_conn k s) (\<lambda>c.
     bindR (conn_channel k s) (\<lambda>ch.
     bindR (readFd (reads s 0 (ch_fd ch)) (c_input c)) (\<lambda>(n, savedErrno, b, rest).
     let s1 = put_conn k (c\<lparr>c_input := b\<rparr>) (s\<lparr>reads := \<lambda>i. reads s (Suc i)\<rparr>) in
     if 0 < n then messageCallback P k receiveTime s1
     else if n = 0 then handleClose t k s1
     else handleError k s1)))"

definition handleWrite :: "int \<Rightarrow> nat \<Rightarrow> ('u, 'z) world_scheme \<Rightarrow> ('u, 'z) world_scheme res" where
  "handleWrite t k s =
     bindR (assertInLoopThread t s) (\<lambda>_.
     bindR (get_conn k s) (\<lambda>c.
     bindR (conn_channel k s) (\<lambda>ch.
     if isWriting ch
     then bindR (mem_read (storage (c_output c)) (peek (c_output c)) (readableBytes (c_output c))) (\<lambda>data.
          let (n, s1) = sys_write (ch_fd ch) data s in
          if 0 < n
          then bindR (retrieve (nat n) (c_output c)) (\<lambda>b.
               let s2 = put_conn k (c\<lparr>c_output := b\<rparr>) s1 in
               if readableBytes b = 0
               then bindR (conn_interest t DisableWriting k s2) (\<lambda>s3.
                    if c_state c = kDisconnecting then shutdownInLoop t k s3 else Inr s3)
               else Inr s2)
          else Inr s1)
     else Inr s)))"

end
