(* ===== verification/Servers.thy ===== *)
theory Servers
  imports Connections
begin

text \<open>
  The \<open>Acceptor\<close> (\<open>Acceptor.h\<close>, \<open>Acceptor.cpp\<close>), the \<open>TcpServer\<close> (\<open>TcpServer.h\<close>, \<open>TcpServer.cpp\<close>), the
  constructor of the loop, and the meaning of the closures: which operation every callback and
  every functor stands for. The program of \<open>main.cpp\<close> is the instance at the end.
\<close>

section \<open>Allocation\<close>

definition new_address :: "('u, 'z) world_scheme \<Rightarrow> nat \<times> ('u, 'z) world_scheme" where
  "new_address s = (malloc s 0, s\<lparr>malloc := \<lambda>i. malloc s (Suc i)\<rparr>)"

section \<open>EventLoop::EventLoop\<close>

text \<open>
  \<open>loop_of\<close> is the thread-local pointer \<open>t_loopInThisThread\<close> of every thread. \<open>timer_fd\<close> and
  \<open>event_fd\<close> are the outcomes of \<open>timerfd_create\<close> and \<open>eventfd\<close>; \<open>self\<close> is the address of the loop.
  The memory before the construction is \<open>s\<close>.
\<close>

definition createEventfd :: "int sysres \<Rightarrow> int res" where
  "createEventfd r = or_die ''createEventfd'' r"

definition EventLoop_ctor ::
  "int \<Rightarrow> nat \<Rightarrow> int sysres \<Rightarrow> int \<Rightarrow> (int \<rightharpoonup> nat) \<Rightarrow> ('u, 'z) world_scheme
   \<Rightarrow> ((int \<rightharpoonup> nat) \<times> ('u, 'z) world_scheme) res" where
  "EventLoop_ctor t self event_fd timer_fd loop_of s =
     bindR (createEventfd event_fd) (\<lambda>efd.
     bindR (assertR ''t_loopInThisThread == NULL'' (loop_of t = None)) (\<lambda>_.
     let (b, s0) = new_address s;
         (a, s1) = new_address s0;
         s2 = s1\<lparr>loopId := self, threadId := t, pollfds := [], channels := Map.empty, looping := False,
                 quit_flag := False, callingPendingFunctors := False, wakeupFd := efd, wakeupChannel := a,
                 eventCount := 0, pendingFunctors := [], open_fds := insert efd (insert timer_fd (open_fds s1))\<rparr> in
     bindR (TimerQueue_ctor t timer_fd b s2) (\<lambda>s3.
     let s4 = put_channel a (setReadCallBack WakeupRead (new_channel self efd)) s3 in
     bindR (Channel_set_interest t EnableReading a s4) (\<lambda>s5.
     Inr (loop_of(t \<mapsto> self), s5)))))"

text \<open>The timers nobody else refers to are freed with the queue; its channel is still in the poller.\<close>

definition TimerQueue_dtor :: "('u, 'z) world_scheme \<Rightarrow> ('u, 'z) world_scheme" where
  "TimerQueue_dtor s = s\<lparr>open_fds := open_fds s - {timerfd s}, timer_heap := timer_heap s |` (- snd ` set (timers s)),
     timers := []\<rparr>"

section \<open>TcpServer::newConnection\<close>

definition conn_name :: "string \<Rightarrow> int \<Rightarrow> string" where
  "conn_name name i = name @ snprintf 32 (''#'' @ fmt_d i)"

definition newConnection ::
  "('u, 'z) program \<Rightarrow> int \<Rightarrow> int \<Rightarrow> sockaddr_in \<Rightarrow> ('u, 'z) world_scheme \<Rightarrow> ('u, 'z) world_scheme res" where
  "newConnection P t connSockfd peerAddr s =
     bindR (assertInLoopThread t s) (\<lambda>_.
     let connName = conn_name (server_name s) (nextConnId s) in
     bindR (if nextConnId s < 2 ^ 31 - 1 then Inr (s\<lparr>nextConnId := nextConnId s + 1\<rparr>)
            else Inl (Undefined ''signed 32-bit overflow'')) (\<lambda>s1.
     bindR (getLocalAddr (local_addrs s1 0)) (\<lambda>localAddr.
     let s2 = s1\<lparr>local_addrs := \<lambda>i. local_addrs s1 (Suc i)\<rparr>;
         (k, s3) = new_address s2;
         (a, s4) = new_address s3 in
     bindR (TcpConnection_ctor k a connName connSockfd localAddr peerAddr s4) (\<lambda>s5.
     let s6 = s5\<lparr>connections := (connections s5)(connName \<mapsto> k)\<rparr> in
     bindR (get_conn k s6) (\<lambda>c.
     let s7 = put_conn k (c\<lparr>c_connectionCallback := fst (server_callbacks s6),
                c_messageCallback := snd (server_callbacks s6), c_closeCallback := True\<rparr>) s6 in
     connectEstablished P t k s7)))))"

section \<open>Acceptor\<close>

text \<open>
  \<open>fd\<close> is the outcome of \<open>socket\<close>, \<open>reuse\<close> that of \<open>setsockopt\<close>, \<open>bound\<close> that of \<open>bind\<close>.
\<close>

definition Acceptor_ctor ::
  "int sysres \<Rightarrow> unit sysres \<Rightarrow> unit sysres \<Rightarrow> ('u, 'z) world_scheme \<Rightarrow> ('u, 'z) world_scheme res" where
  "Acceptor_ctor fd reuse bound s =
     bindR (createNonblockingOrDie fd) (\<lambda>f.
     let (a, s1) = new_address s;
         s2 = Socket_setReuseAddr reuse True f s1 in
     bindR (Socket_bindAddress bound) (\<lambda>_.
     Inr (put_channel a (setReadCallBack AcceptorRead (new_channel (loopId s2) f))
       (s2\<lparr>acceptFd := f, acceptChannel := a, listenning := False, newConnectionCallback := False,
           open_fds := insert f (open_fds s2)\<rparr>))))"

definition Acceptor_listen :: "unit sysres \<Rightarrow> int \<Rightarrow> ('u, 'z) world_scheme \<Rightarrow> ('u, 'z) world_scheme res" where
  "Acceptor_listen r t s =
     bindR (assertInLoopThread t s) (\<lambda>_.
     bindR (Socket_listen r) (\<lambda>_.
     Channel_set_interest t EnableReading (acceptChannel s) (s\<lparr>listenning := True\<rparr>)))"

text \<open>A new descriptor is in use from then on.\<close>

definition Acceptor_handleRead ::
  "('u, 'z) program \<Rightarrow> int \<Rightarrow> ('u, 'z) world_scheme \<Rightarrow> ('u, 'z) world_scheme res" where
  "Acceptor_handleRead P t s =
     bindR (assertInLoopThread t s) (\<lambda>_.
     let peerAddr = InetAddress_port False 0; s1 = s\<lparr>accepts := \<lambda>i. accepts s (Suc i)\<rparr> in
     bindR (Socket_accept (accepts s 0 (open_fds s)) peerAddr) (\<lambda>(connfd, peerAddr1).
     if 0 \<le> connfd
     then let s2 = s1\<lparr>open_fds := insert connfd (open_fds s1)\<rparr> in
          if newConnectionCallback s2 then newConnection P t connfd peerAddr1 s2
          else bindR (sockets_close (Success ())) (\<lambda>_. Inr (s2\<lparr>open_fds := open_fds s2 - {connfd}\<rparr>))
     else Inr s1))"

section \<open>TcpServer\<close>

definition TcpServer_ctor ::
  "string \<Rightarrow> int sysres \<Rightarrow> unit sysres \<Rightarrow> unit sysres \<Rightarrow> ('u, 'z) world_scheme \<Rightarrow> ('u, 'z) world_scheme res" where
  "TcpServer_ctor name fd reuse bound s =
     bindR (Acceptor_ctor fd reuse bound s) (\<lambda>s1.
     Inr (s1\<lparr>server_name := name, started := False, nextConnId := 1, connections := Map.empty,
             server_callbacks := (None, None), newConnectionCallback := True\<rparr>))"

definition TcpServer_setCallbacks :: "'u \<Rightarrow> 'u \<Rightarrow> ('u, 'z) world_scheme \<Rightarrow> ('u, 'z) world_scheme" where
  "TcpServer_setCallbacks uc um s = s\<lparr>server_callbacks := (Some uc, Some um)\<rparr>"

definition TcpServer_start :: "unit sysres \<Rightarrow> int \<Rightarrow> ('u, 'z) world_scheme \<Rightarrow> ('u, 'z) world_scheme res" where
  "TcpServer_start r t s =
     (let s1 = (if \<not> started s then s\<lparr>started := True\<rparr> else s) in
      if \<not> listenning s1 then runInLoop t AcceptorListen (Acceptor_listen r t) s1 else Inr s1)"

section \<open>The closures\<close>

text \<open>\<open>listening\<close> is the outcome of \<open>listen(2)\<close>.\<close>

definition call_back ::
  "('u, 'z) program \<Rightarrow> callback \<Rightarrow> timestamp \<Rightarrow> ('u, 'z) world_scheme \<Rightarrow> ('u, 'z) world_scheme res" where
  "call_back P cb ts s = (let t = threadId s in case cb of
      WakeupRead \<Rightarrow> Inr (EventLoop_handleRead s)
    | TimerRead \<Rightarrow> TimerQueue_handleRead (run_user P) t s
    | AcceptorRead \<Rightarrow> Acceptor_handleRead P t s
    | ConnectionRead k \<Rightarrow> TcpConnection_handleRead P t k ts s)"

definition run_task ::
  "('u, 'z) program \<Rightarrow> unit sysres \<Rightarrow> 'u task \<Rightarrow> ('u, 'z) world_scheme \<Rightarrow> ('u, 'z) world_scheme res" where
  "run_task P listening f s = (let t = threadId s in case f of
      UserTask u \<Rightarrow> run_user P u s
    | AddTimerInLoop v \<Rightarrow> add_captured_timer t v s
    | SendInLoop k v \<Rightarrow> send_captured t v k s
    | ShutdownInLoop k \<Rightarrow> shutdownInLoop t k s
    | ConnectDestroyed k \<Rightarrow> connectDestroyed P t k s
    | AcceptorListen \<Rightarrow> Acceptor_listen listening t s)"

text \<open>Destroying the functors drops the last reference to the connections that were removed.\<close>

definition release_task :: "'u task \<Rightarrow> ('u, 'z) world_scheme \<Rightarrow> ('u, 'z) world_scheme" where
  "release_task f s = (case f of ConnectDestroyed k \<Rightarrow> TcpConnection_dtor k s | _ \<Rightarrow> s)"

definition release_tasks :: "'u task list \<Rightarrow> ('u, 'z) world_scheme \<Rightarrow> ('u, 'z) world_scheme" where
  "release_tasks fs s = fold release_task fs s"

section \<open>The end of server and loop\<close>

text \<open>
  The server's members go in reverse order: the map, whose connections nobody else refers to are destroyed (their
  channels are still in the poller), then the acceptor with its socket; its channel, too, is still in the poller.
\<close>

definition TcpServer_dtor :: "('u, 'z) world_scheme \<Rightarrow> ('u, 'z) world_scheme" where
  "TcpServer_dtor s =
     (let s1 = fold TcpConnection_dtor (sorted_list_of_set (ran (connections s))) (s\<lparr>connections := Map.empty\<rparr>) in
      Socket_dtor (acceptFd s1) s1)"

text \<open>
  The end of a loop: its own destructor, then those of its members: the functors that are left, the timer queue
  with the timerfd, and the poller, whose map holds the last references to all channels that are still registered.
\<close>

definition EventLoop_leave ::
  "int \<Rightarrow> (int \<rightharpoonup> nat) \<Rightarrow> ('u, 'z) world_scheme \<Rightarrow> ((int \<rightharpoonup> nat) \<times> ('u, 'z) world_scheme) res" where
  "EventLoop_leave t loop_of s =
     bindR (EventLoop_dtor s) (\<lambda>_.
     let s1 = release_tasks (pendingFunctors s) (s\<lparr>pendingFunctors := []\<rparr>) in
     bindR (Poller_dtor (TimerQueue_dtor s1)) (\<lambda>s2.
     Inr (loop_of(t := None), s2)))"

definition server_round ::
  "('u, 'z) program \<Rightarrow> poll_outcome \<Rightarrow> ('u, 'z) world_scheme \<Rightarrow> ('u, 'z) world_scheme res" where
  "server_round P outcome s = loop_body (call_back P) (run_task P (Success ())) release_tasks outcome s"

definition server_loop ::
  "('u, 'z) program \<Rightarrow> int \<Rightarrow> poll_outcome list \<Rightarrow> ('u, 'z) world_scheme \<Rightarrow> (bool \<times> ('u, 'z) world_scheme) res" where
  "server_loop P t outcomes s =
     EventLoop_loop (call_back P) (run_task P (Success ())) release_tasks t outcomes s"

section \<open>main.cpp\<close>

text \<open>
  \<open>message1\<close> and \<open>message2\<close> are global variables, here at the addresses 1 and 2; their lengths are the
  \<open>int\<close>s that \<open>atoi\<close> read from the command line, if there is one. A negative one is, as a \<open>size_t\<close>,
  above the largest length of a string.
\<close>

datatype main_fun = OnConnection | OnMessage

definition main_lengths :: "(32 word \<times> 32 word) option \<Rightarrow> 32 word \<times> 32 word" where
  "main_lengths args = (case args of None \<Rightarrow> (10, 20) | Some (len1, len2) \<Rightarrow> (len1, len2))"

definition message_resize :: "char \<Rightarrow> 32 word \<Rightarrow> string res" where
  "message_resize c len =
     (if vector_max < unat (scast len :: 64 word) then Inl LengthError else Inr (replicate (unat len) c))"

definition onConnection ::
  "string \<Rightarrow> string \<Rightarrow> nat \<Rightarrow> (main_fun, 'z) world_scheme \<Rightarrow> (main_fun, 'z) world_scheme res" where
  "onConnection message1 message2 k s =
     bindR (get_conn k s) (\<lambda>c.
     if c_state c = kConnected
     then bindR (TcpConnection_send (threadId s) 1 message1 k s)
            (TcpConnection_send (threadId s) 2 message2 k)
     else Inr s)"

definition onMessage :: "nat \<Rightarrow> timestamp \<Rightarrow> (main_fun, 'z) world_scheme \<Rightarrow> (main_fun, 'z) world_scheme res" where
  "onMessage k receiveTime s =
     bindR (get_conn k s) (\<lambda>c. Inr (put_conn k (c\<lparr>c_input := retrieveAll (c_input c)\<rparr>) s))"

definition main_code :: "string \<Rightarrow> string \<Rightarrow> (main_fun, 'z) program" where
  "main_code message1 message2 = \<lparr>run_user = \<lambda>u s. Inr s,
     on_connection = \<lambda>u. onConnection message1 message2, on_message = \<lambda>u. onMessage\<rparr>"

text \<open>
  \<open>main\<close> up to the call of \<open>loop\<close>: the loop, the server listening on port 9981, its callbacks,
  \<open>start\<close>. The kernel's answers: those of \<open>eventfd\<close>, of \<open>timerfd_create\<close> (-1 when it fails), and of
  \<open>socket\<close>, \<open>setsockopt\<close>, \<open>bind\<close> and \<open>listen\<close> for the listening socket; \<open>granted\<close> is the case that all succeed.
\<close>

record start_answers =
  eventfd_answer :: "int sysres"
  timerfd_answer :: int
  socket_answer :: "int sysres"
  reuse_answer :: "unit sysres"
  bind_answer :: "unit sysres"
  listen_answer :: "unit sysres"

definition granted :: "int \<Rightarrow> int \<Rightarrow> int \<Rightarrow> start_answers" where
  "granted efd tfd lfd = \<lparr>eventfd_answer = Success efd, timerfd_answer = tfd, socket_answer = Success lfd,
     reuse_answer = Success (), bind_answer = Success (), listen_answer = Success ()\<rparr>"

definition main_setup ::
  "int \<Rightarrow> nat \<Rightarrow> start_answers \<Rightarrow> (main_fun, 'z) world_scheme \<Rightarrow> (main_fun, 'z) world_scheme res" where
  "main_setup t self K s =
     bindR (EventLoop_ctor t self (eventfd_answer K) (timerfd_answer K) Map.empty s) (\<lambda>(_, s1).
     bindR (TcpServer_ctor ''TcpServer'' (socket_answer K) (reuse_answer K) (bind_answer K) s1) (\<lambda>s2.
     TcpServer_start (listen_answer K) t (TcpServer_setCallbacks OnConnection OnMessage s2)))"

definition main_program ::
  "(32 word \<times> 32 word) option \<Rightarrow> int \<Rightarrow> nat \<Rightarrow> start_answers \<Rightarrow> poll_outcome list
   \<Rightarrow> (main_fun, 'z) world_scheme \<Rightarrow> (bool \<times> (main_fun, 'z) world_scheme) res" where
  "main_program args t self K outcomes s =
     (let (len1, len2) = main_lengths args in
      bindR (message_resize (CHR ''A'') len1) (\<lambda>message1.
      bindR (message_resize (CHR ''B'') len2) (\<lambda>message2.
      bindR (main_setup t self K s) (\<lambda>s1.
      server_loop (main_code message1 message2) t outcomes s1))))"

text \<open>The end of \<open>main\<close>: the server is destroyed, then the loop.\<close>

definition main_leave ::
  "int \<Rightarrow> (int \<rightharpoonup> nat) \<Rightarrow> ('u, 'z) world_scheme \<Rightarrow> ((int \<rightharpoonup> nat) \<times> ('u, 'z) world_scheme) res" where
  "main_leave t loop_of s = EventLoop_leave t loop_of (TcpServer_dtor s)"

end
