(* ===== verification/Frames.thy ===== *)
theory Frames
  imports Servers
begin

text \<open>
  What the operations on the poller leave alone: every field of the process that is not one of the
  poller's own. Also the connection seen with its channel, and the operations of a connection.
\<close>

section \<open>Fields outside the poller\<close>

lemma more_eqD:
  fixes s s' :: "('u, 'z) world_scheme"
  assumes "poller.more s = poller.more s'"
  shows
  "looping s = looping s'" "quit_flag s = quit_flag s'" "callingPendingFunctors s = callingPendingFunctors s'"
  "wakeupFd s = wakeupFd s'" "wakeupChannel s = wakeupChannel s'" "eventCount s = eventCount s'"
  "pendingFunctors s = pendingFunctors s'" "clock s = clock s'" "last_reading s = last_reading s'"
  "timerfd s = timerfd s'" "timerfdChannel s = timerfdChannel s'" "timer_heap s = timer_heap s'"
  "timers s = timers s'" "timerfd_due s = timerfd_due s'" "timerfd_ticks s = timerfd_ticks s'"
  "timer_vars s = timer_vars s'" "malloc s = malloc s'" "conns s = conns s'"
  "message_vars s = message_vars s'" "server_name s = server_name s'" "started s = started s'"
  "nextConnId s = nextConnId s'" "connections s = connections s'" "server_callbacks s = server_callbacks s'"
  "acceptFd s = acceptFd s'" "acceptChannel s = acceptChannel s'" "listenning s = listenning s'"
  "newConnectionCallback s = newConnectionCallback s'" "open_fds s = open_fds s'" "reads s = reads s'"
  "write_results s = write_results s'" "wire s = wire s'" "shut_wr s = shut_wr s'"
  "accepts s = accepts s'" "local_addrs s = local_addrs s'" "world.more s = world.more s'"
  using assms by (cases s; cases s'; simp)+

lemma interest_set_fields [simp]:
  fixes s :: "('u, 'z) world_scheme"
  shows
  "looping (interest_set oper a c s) = looping s" "quit_flag (interest_set oper a c s) = quit_flag s"
  "callingPendingFunctors (interest_set oper a c s) = callingPendingFunctors s" "wakeupFd (interest_set oper a c s) = wakeupFd s"
  "wakeupChannel (interest_set oper a c s) = wakeupChannel s" "eventCount (interest_set oper a c s) = eventCount s"
  "pendingFunctors (interest_set oper a c s) = pendingFunctors s" "clock (interest_set oper a c s) = clock s"
  "last_reading (interest_set oper a c s) = last_reading s" "timerfd (interest_set oper a c s) = timerfd s"
  "timerfdChannel (interest_set oper a c s) = timerfdChannel s" "timer_heap (interest_set oper a c s) = timer_heap s"
  "timers (interest_set oper a c s) = timers s" "timerfd_due (interest_set oper a c s) = timerfd_due s"
  "timerfd_ticks (interest_set oper a c s) = timerfd_ticks s" "timer_vars (interest_set oper a c s) = timer_vars s"
  "malloc (interest_set oper a c s) = malloc s" "conns (interest_set oper a c s) = conns s"
  "message_vars (interest_set oper a c s) = message_vars s" "server_name (interest_set oper a c s) = server_name s"
  "started (interest_set oper a c s) = started s" "nextConnId (interest_set oper a c s) = nextConnId s"
  "connections (interest_set oper a c s) = connections s" "server_callbacks (interest_set oper a c s) = server_callbacks s"
  "acceptFd (interest_set oper a c s) = acceptFd s" "acceptChannel (interest_set oper a c s) = acceptChannel s"
  "listenning (interest_set oper a c s) = listenning s" "newConnectionCallback (interest_set oper a c s) = newConnectionCallback s"
  "open_fds (interest_set oper a c s) = open_fds s" "reads (interest_set oper a c s) = reads s"
  "write_results (interest_set oper a c s) = write_results s" "wire (interest_set oper a c s) = wire s"
  "shut_wr (interest_set oper a c s) = shut_wr s" "accepts (interest_set oper a c s) = accepts s"
  "local_addrs (interest_set oper a c s) = local_addrs s" "world.more (interest_set oper a c s) = world.more s"
  by (rule more_eqD, rule interest_set_frame)+

lemma put_channel_fields [simp]:
  fixes s :: "('u, 'z) world_scheme"
  shows
  "looping (put_channel a c s) = looping s" "quit_flag (put_channel a c s) = quit_flag s"
  "callingPendingFunctors (put_channel a c s) = callingPendingFunctors s" "wakeupFd (put_channel a c s) = wakeupFd s"
  "wakeupChannel (put_channel a c s) = wakeupChannel s" "eventCount (put_channel a c s) = eventCount s"
  "pendingFunctors (put_channel a c s) = pendingFunctors s" "clock (put_channel a c s) = clock s"
  "last_reading (put_channel a c s) = last_reading s" "timerfd (put_channel a c s) = timerfd s"
  "timerfdChannel (put_channel a c s) = timerfdChannel s" "timer_heap (put_channel a c s) = timer_heap s"
  "timers (put_channel a c s) = timers s" "timerfd_due (put_channel a c s) = timerfd_due s"
  "timerfd_ticks (put_channel a c s) = timerfd_ticks s" "timer_vars (put_channel a c s) = timer_vars s"
  "malloc (put_channel a c s) = malloc s" "conns (put_channel a c s) = conns s"
  "message_vars (put_channel a c s) = message_vars s" "server_name (put_channel a c s) = server_name s"
  "started (put_channel a c s) = started s" "nextConnId (put_channel a c s) = nextConnId s"
  "connections (put_channel a c s) = connections s" "server_callbacks (put_channel a c s) = server_callbacks s"
  "acceptFd (put_channel a c s) = acceptFd s" "acceptChannel (put_channel a c s) = acceptChannel s"
  "listenning (put_channel a c s) = listenning s" "newConnectionCallback (put_channel a c s) = newConnectionCallback s"
  "open_fds (put_channel a c s) = open_fds s" "reads (put_channel a c s) = reads s"
  "write_results (put_channel a c s) = write_results s" "wire (put_channel a c s) = wire s"
  "shut_wr (put_channel a c s) = shut_wr s" "accepts (put_channel a c s) = accepts s"
  "local_addrs (put_channel a c s) = local_addrs s" "world.more (put_channel a c s) = world.more s"
  by (simp_all add: put_channel_def)

lemma put_conn_fields [simp]:
  "conns (put_conn k c s) = (conns s)(k \<mapsto> c)"
  "heap (put_conn k c s) = heap s" "pollfds (put_conn k c s) = pollfds s"
  "channels (put_conn k c s) = channels s" "loopId (put_conn k c s) = loopId s"
  "threadId (put_conn k c s) = threadId s" "looping (put_conn k c s) = looping s"
  "quit_flag (put_conn k c s) = quit_flag s" "callingPendingFunctors (put_conn k c s) = callingPendingFunctors s"
  "wakeupFd (put_conn k c s) = wakeupFd s" "wakeupChannel (put_conn k c s) = wakeupChannel s"
  "eventCount (put_conn k c s) = eventCount s" "pendingFunctors (put_conn k c s) = pendingFunctors s"
  "clock (put_conn k c s) = clock s" "last_reading (put_conn k c s) = last_reading s"
  "timerfd (put_conn k c s) = timerfd s" "timerfdChannel (put_conn k c s) = timerfdChannel s"
  "timer_heap (put_conn k c s) = timer_heap s" "timers (put_conn k c s) = timers s"
  "timerfd_due (put_conn k c s) = timerfd_due s" "timerfd_ticks (put_conn k c s) = timerfd_ticks s"
  "timer_vars (put_conn k c s) = timer_vars s" "malloc (put_conn k c s) = malloc s"
  "message_vars (put_conn k c s) = message_vars s" "server_name (put_conn k c s) = server_name s"
  "started (put_conn k c s) = started s" "nextConnId (put_conn k c s) = nextConnId s"
  "connections (put_conn k c s) = connections s" "server_callbacks (put_conn k c s) = server_callbacks s"
  "acceptFd (put_conn k c s) = acceptFd s" "acceptChannel (put_conn k c s) = acceptChannel s"
  "listenning (put_conn k c s) = listenning s" "newConnectionCallback (put_conn k c s) = newConnectionCallback s"
  "open_fds (put_conn k c s) = open_fds s" "reads (put_conn k c s) = reads s"
  "write_results (put_conn k c s) = write_results s" "wire (put_conn k c s) = wire s"
  "shut_wr (put_conn k c s) = shut_wr s" "accepts (put_conn k c s) = accepts s"
  "local_addrs (put_conn k c s) = local_addrs s" "world.more (put_conn k c s) = world.more s"
  by (simp_all add: put_conn_def)

lemma same_slots_fields:
  fixes s s' :: "('u, 'z) world_scheme"
  assumes "same_slots s s'"
  shows
  "looping s' = looping s" "quit_flag s' = quit_flag s" "callingPendingFunctors s' = callingPendingFunctors s"
  "wakeupFd s' = wakeupFd s" "wakeupChannel s' = wakeupChannel s" "eventCount s' = eventCount s"
  "pendingFunctors s' = pendingFunctors s" "clock s' = clock s" "last_reading s' = last_reading s"
  "timerfd s' = timerfd s" "timerfdChannel s' = timerfdChannel s" "timer_heap s' = timer_heap s"
  "timers s' = timers s" "timerfd_due s' = timerfd_due s" "timerfd_ticks s' = timerfd_ticks s"
  "timer_vars s' = timer_vars s" "malloc s' = malloc s" "conns s' = conns s"
  "message_vars s' = message_vars s" "server_name s' = server_name s" "started s' = started s"
  "nextConnId s' = nextConnId s" "connections s' = connections s" "server_callbacks s' = server_callbacks s"
  "acceptFd s' = acceptFd s" "acceptChannel s' = acceptChannel s" "listenning s' = listenning s"
  "newConnectionCallback s' = newConnectionCallback s" "open_fds s' = open_fds s" "reads s' = reads s"
  "write_results s' = write_results s" "wire s' = wire s" "shut_wr s' = shut_wr s"
  "accepts s' = accepts s" "local_addrs s' = local_addrs s" "world.more s' = world.more s"
  using assms by (simp_all add: same_slots_def more_eqD [of s s'])

end
