(* ===== verification/Persistence.thy ===== *)
theory Persistence
  imports Polling
begin

text \<open>
  What an operation on one channel leaves of all the others: their registration and their entry, up
  to the slot it sits in. Adding, changing and removing a channel all have this property.
\<close>

definition same_entry ::
  "nat \<Rightarrow> 'cb channel \<Rightarrow> int \<Rightarrow> ('cb, 'z) poller_scheme \<Rightarrow> ('cb, 'z) poller_scheme \<Rightarrow> bool" where
  "same_entry b d i s s' \<longleftrightarrow> (0 \<le> ch_index d \<longrightarrow> 0 \<le> i) \<and> channels s' (ch_fd d) = Some b
     \<and> pfd_fd (pollfds s' ! nat i) = pfd_fd (pollfds s ! nat (ch_index d))"

definition persist :: "nat \<Rightarrow> ('cb, 'z) poller_scheme \<Rightarrow> ('cb, 'z) poller_scheme \<Rightarrow> bool" where
  "persist a s s' \<longleftrightarrow> loopId s' = loopId s
     \<and> (\<forall>b d. b \<noteq> a \<longrightarrow> heap s b = Some d \<longrightarrow> (\<exists>i. heap s' b = Some (d\<lparr>ch_index := i\<rparr>)
          \<and> (registered s b d \<longrightarrow> same_entry b d i s s')))
     \<and> (\<forall>b. b \<noteq> a \<longrightarrow> heap s b = None \<longrightarrow> heap s' b = None)
     \<and> (\<forall>f b. b \<noteq> a \<longrightarrow> channels s' f = Some b \<longrightarrow> channels s f = Some b)"

lemma persistE:
  assumes "persist a s s'" "b \<noteq> a" "heap s b = Some d"
  obtains i where "heap s' b = Some (d\<lparr>ch_index := i\<rparr>)" "registered s b d \<Longrightarrow> same_entry b d i s s'"
  using assms unfolding persist_def by blast

lemma persistI:
  assumes "loopId s' = loopId s"
    and "\<And>b d. b \<noteq> a \<Longrightarrow> heap s b = Some d \<Longrightarrow> registered s b d \<Longrightarrow>
      \<exists>i. heap s' b = Some (d\<lparr>ch_index := i\<rparr>) \<and> same_entry b d i s s'"
    and "\<And>b d. b \<noteq> a \<Longrightarrow> heap s b = Some d \<Longrightarrow> \<not> registered s b d \<Longrightarrow> heap s' b = Some d"
    and "\<And>b. b \<noteq> a \<Longrightarrow> heap s b = None \<Longrightarrow> heap s' b = None"
    and "\<And>f b. b \<noteq> a \<Longrightarrow> channels s' f = Some b \<Longrightarrow> channels s f = Some b"
  shows "persist a s s'"
proof -
  have "\<exists>i. heap s' b = Some (d\<lparr>ch_index := i\<rparr>) \<and> (registered s b d \<longrightarrow> same_entry b d i s s')"
    if "b \<noteq> a" "heap s b = Some d" for b d
  proof (cases "registered s b d")
    case True
    with assms(2) [OF that] show ?thesis by blast
  next
    case False
    with assms(3) [OF that] show ?thesis by (intro exI [of _ "ch_index d"]) simp
  qed
  with assms show ?thesis unfolding persist_def by blast
qed

lemma persist_trans:
  assumes "persist a s s1" and "persist a s1 s2"
  shows "persist a s s2"
proof -
  have "\<exists>i. heap s2 b = Some (d\<lparr>ch_index := i\<rparr>) \<and> (registered s b d \<longrightarrow> same_entry b d i s s2)"
    if b: "b \<noteq> a" "heap s b = Some d" for b d
  proof -
    from assms(1) b obtain i where i: "heap s1 b = Some (d\<lparr>ch_index := i\<rparr>)"
      "registered s b d \<Longrightarrow> same_entry b d i s s1" by (rule persistE) blast
    from assms(2) b(1) i(1) obtain j where j: "heap s2 b = Some (d\<lparr>ch_index := i\<rparr>\<lparr>ch_index := j\<rparr>)"
      "registered s1 b (d\<lparr>ch_index := i\<rparr>) \<Longrightarrow> same_entry b (d\<lparr>ch_index := i\<rparr>) j s1 s2" by (rule persistE) blast
    have "same_entry b d j s s2" if "registered s b d"
    proof -
      from i(2) [OF that] have "same_entry b d i s s1" .
      moreover from this i(1) have "registered s1 b (d\<lparr>ch_index := i\<rparr>)"
        by (simp add: registered_def same_entry_def)
      ultimately show ?thesis using j(2) by (simp add: same_entry_def)
    qed
    with j(1) show ?thesis by (intro exI [of _ j]) simp
  qed
  moreover have "loopId s2 = loopId s" using assms by (simp add: persist_def)
  moreover have "\<forall>b. b \<noteq> a \<longrightarrow> heap s b = None \<longrightarrow> heap s2 b = None" using assms by (simp add: persist_def)
  moreover have "\<forall>f b. b \<noteq> a \<longrightarrow> channels s2 f = Some b \<longrightarrow> channels s f = Some b" using assms by (simp add: persist_def)
  ultimately show ?thesis unfolding persist_def by blast
qed

text \<open>Writing another channel object, and what follows it in memory, is of no concern.\<close>

lemma persist_put: "persist a s (put_channel a c s)"
proof (rule persistI)
  fix b d
  assume "b \<noteq> a" "heap s b = Some d" "registered s b d"
  then show "\<exists>i. heap (put_channel a c s) b = Some (d\<lparr>ch_index := i\<rparr>) \<and> same_entry b d i s (put_channel a c s)"
    by (intro exI [of _ "ch_index d"]) (simp add: same_entry_def registered_def put_channel_def)
qed (auto simp: put_channel_def)

lemma persist_cong:
  assumes "heap s' = heap s" "pollfds s' = pollfds s" "channels s' = channels s" "loopId s' = loopId s"
  shows "persist a s0 s' = persist a s0 s" "persist a s' s0 = persist a s s0"
  using assms by (simp_all add: persist_def same_entry_def registered_def)

lemma persist_refl: "persist a s s"
proof (rule persistI)
  fix b d
  assume "heap s b = Some d" "registered s b d"
  then show "\<exists>i. heap s b = Some (d\<lparr>ch_index := i\<rparr>) \<and> same_entry b d i s s"
    by (intro exI [of _ "ch_index d"]) (simp add: same_entry_def registered_def)
qed simp_all

lemma persist_interest:
  assumes ok: "poller_ok s" and w: "watchable s a c"
  shows "persist a s (interest_set oper a c s)"
proof -
  let ?s = "interest_set oper a c s" and ?c = "c\<lparr>ch_events := new_events oper (ch_events c)\<rparr>"
  from interest_set_channel [OF w, of oper] have
    chs: "channels ?s = (channels s)(ch_fd c \<mapsto> a)" and others: "\<And>b. b \<noteq> a \<Longrightarrow> heap ?s b = heap s b"
    by metis+
  have entry: "pollfds ?s ! nat (ch_index d) = pollfds s ! nat (ch_index d)"
    if b: "b \<noteq> a" "heap s b = Some d" and reg: "registered s b d" for b d
  proof -
    from ok reg have slot: "slot_ok s (nat (ch_index d)) b d" by (rule slot_of_registered)
    show ?thesis
    proof (cases "ch_index c < 0")
      case True
      then have "?s = add_entry a ?c s" by (simp add: interest_set_def Let_def)
      then show ?thesis using slot_okD_less [OF slot] by (simp add: add_entry_def nth_append)
    next
      case False
      with w have "registered s a c" by (simp add: watchable_def registered_def)
      with ok have "slot_ok s (nat (ch_index c)) a c" by (rule slot_of_registered)
      with slot b(1) have "nat (ch_index d) \<noteq> nat (ch_index c)" using slot_unique by blast
      moreover have "?s = set_entry a ?c s" using False by (simp add: interest_set_def Let_def)
      ultimately show ?thesis by simp
    qed
  qed
  show ?thesis
  proof (rule persistI)
    fix b d
    assume b: "b \<noteq> a" "heap s b = Some d" "registered s b d"
    from ok b(3) have slot: "slot_ok s (nat (ch_index d)) b d" by (rule slot_of_registered)
    have "ch_fd c \<noteq> ch_fd d"
      using w b(1) slot by (auto simp: watchable_def slot_ok_def split: if_splits)
    then have "same_entry b d (ch_index d) s ?s"
      using entry [OF b] slot by (simp add: same_entry_def chs slot_ok_def)
    then show "\<exists>i. heap ?s b = Some (d\<lparr>ch_index := i\<rparr>) \<and> same_entry b d i s ?s"
      using others [OF b(1)] b(2) by (intro exI [of _ "ch_index d"]) simp
  qed (auto simp: others chs split: if_splits)
qed

lemma persist_drop:
  assumes ia: "slot_ok s (length (pollfds s) - 1) a c" and ok: "poller_ok s"
  shows "persist a s (drop_last c s)"
proof (rule persistI)
  fix b d
  assume b: "b \<noteq> a" "heap s b = Some d" "registered s b d"
  from ok b(3) have slot: "slot_ok s (nat (ch_index d)) b d" by (rule slot_of_registered)
  with ia b(1) have "nat (ch_index d) \<noteq> length (pollfds s) - 1" "ch_fd d \<noteq> ch_fd c"
    using slot_unique by blast+
  with slot slot_okD_less [OF slot] have "same_entry b d (ch_index d) s (drop_last c s)"
    by (simp add: same_entry_def drop_last_def nth_butlast slot_ok_def)
  with b(2) show "\<exists>i. heap (drop_last c s) b = Some (d\<lparr>ch_index := i\<rparr>) \<and> same_entry b d i s (drop_last c s)"
    by (intro exI [of _ "ch_index d"]) (simp add: drop_last_def)
qed (auto simp: drop_last_def split: if_splits)

lemma persist_move:
  assumes ok: "poller_ok s" and ia: "slot_ok s i a c" and jb: "slot_ok s (length (pollfds s) - 1) x d"
    and i: "i \<noteq> length (pollfds s) - 1"
  shows "persist a s (move_last c x d s)"
proof (rule persistI)
  let ?s = "move_last c x d s" and ?n = "length (pollfds s) - 1"
  have idx: "ch_index c = int i" "i < ?n" "pollfds s \<noteq> []" using ia i by (auto simp: slot_ok_def)
  fix b e
  assume b: "b \<noteq> a" "heap s b = Some e" "registered s b e"
  from ok b(3) have slot: "slot_ok s (nat (ch_index e)) b e" by (rule slot_of_registered)
  have fd: "ch_fd e \<noteq> ch_fd c" "nat (ch_index e) \<noteq> i" using slot_unique [OF slot ia] b(1) by blast+
  show "\<exists>j. heap ?s b = Some (e\<lparr>ch_index := j\<rparr>) \<and> same_entry b e j s ?s"
  proof (cases "b = x")
    case True
    with slot_unique [OF slot jb] have e: "e = d" "nat (ch_index e) = ?n" by auto
    have "same_entry b e (ch_index c) s ?s"
      using True e idx fd slot slot_okD_less [OF jb]
      by (simp add: same_entry_def move_last_def last_conv_nth slot_ok_def)
    with True e(1) show ?thesis by (intro exI [of _ "ch_index c"]) (simp add: move_last_def)
  next
    case False
    with slot_unique [OF slot jb] have "nat (ch_index e) \<noteq> ?n" by blast
    with slot_okD_less [OF slot] have "nat (ch_index e) < ?n" by linarith
    then have "same_entry b e (ch_index e) s ?s"
      using idx fd slot by (simp add: same_entry_def move_last_def nth_butlast slot_ok_def)
    with False b(2) show ?thesis by (intro exI [of _ "ch_index e"]) (simp add: move_last_def)
  qed
next
  fix b e
  assume "b \<noteq> a" "heap s b = Some e" "\<not> registered s b e"
  moreover have "registered s x d" using jb by (simp add: slot_ok_def registered_def)
  ultimately show "heap (move_last c x d s) b = Some e"
    using jb by (auto simp: move_last_def slot_ok_def)
qed (use jb in \<open>auto simp: move_last_def slot_ok_def split: if_splits\<close>)

lemma persist_remove:
  assumes ok: "poller_ok s" and rm: "removable s a c" and t: "threadId s = t"
    and res: "EventLoop_removeChannel t a s = Inr s'"
  shows "persist a s s'"
proof -
  from ok rm have ia: "slot_ok s (nat (ch_index c)) a c"
    by (intro slot_of_registered) (auto simp: removable_def)
  then have len: "length (pollfds s) - 1 < length (pollfds s)" by (auto simp: slot_ok_def)
  from ok len obtain b d where jb: "slot_ok s (length (pollfds s) - 1) b d" by (rule poller_okE_slot)
  show ?thesis
  proof (cases "nat (ch_index c) = length (pollfds s) - 1")
    case True
    with remove_last_eq [OF rm ia True t] res ia ok show ?thesis by (auto intro: persist_drop)
  next
    case False
    with remove_moved_eq [OF rm ia t jb False] res ia jb ok show ?thesis by (auto intro: persist_move)
  qed
qed

end
