(* ===== verification/ConnProps.thy ===== *)
theory ConnProps
  imports Frames Persistence
begin

text \<open>
  One connection with its channel (\<open>conn_at\<close>), what an operation on it leaves of everything else
  (\<open>conn_step\<close>), and what \<open>sendInLoop\<close> puts on the wire and in the output buffer.
\<close>

section \<open>A connection and its channel\<close>

lemma poller_cong:
  assumes "heap s' = heap s" "pollfds s' = pollfds s" "channels s' = channels s" "loopId s' = loopId s"
  shows "slot_ok s' = slot_ok s" "poller_ok s' = poller_ok s" "watchable s' = watchable s"
    "registered s' = registered s" "watched s' = watched s" "ignored a s' = ignored a s"
proof -
  show slot: "slot_ok s' = slot_ok s" by (intro ext) (simp add: slot_ok_def assms)
  show "poller_ok s' = poller_ok s" by (simp add: poller_ok_def slot assms)
  show "watchable s' = watchable s" by (intro ext) (simp add: watchable_def assms)
  show reg: "registered s' = registered s" by (intro ext) (simp add: registered_def assms)
  show "watched s' = watched s" by (intro ext) (simp add: watched_def reg assms)
  show "ignored a s' = ignored a s" by (simp add: ignored_def reg assms)
qed

definition conn_at :: "('u, 'z) world_scheme \<Rightarrow> nat \<Rightarrow> 'u tcpconn \<Rightarrow> callback channel \<Rightarrow> bool" where
  "conn_at s k c ch \<longleftrightarrow> conns s k = Some c \<and> heap s (c_channel c) = Some ch
     \<and> channels s (c_sockfd c) = Some (c_channel c) \<and> ch_loop ch = loopId s
     \<and> ch_fd ch = c_sockfd c \<and> 0 \<le> c_sockfd c \<and> 0 \<le> ch_index ch"

lemma conn_atD:
  assumes "conn_at s k c ch"
  shows "conns s k = Some c" "heap s (c_channel c) = Some ch" "channels s (c_sockfd c) = Some (c_channel c)"
    "ch_fd ch = c_sockfd c" "watchable s (c_channel c) ch" "registered s (c_channel c) ch"
    "get_conn k s = Inr c" "conn_channel k s = Inr ch"
  using assms by (simp_all add: conn_at_def registered_def watchable_def get_conn_def conn_channel_def)

lemma conn_at_cong:
  assumes "heap s' = heap s" "channels s' = channels s" "loopId s' = loopId s" "conns s' k = conns s k"
  shows "conn_at s' k = conn_at s k"
  using assms by (intro ext) (simp add: conn_at_def)

lemma conn_interest_eq:
  assumes "poller_ok s" "conn_at s k c ch" "threadId s = t"
  shows "conn_interest t oper k s = Inr (interest_set oper (c_channel c) ch s)"
  using conn_atD [OF assms(2)] set_interest_eq [OF assms(1) _ assms(3)] by (simp add: conn_interest_def)

lemma conn_at_interest_set:
  assumes "conn_at s k c ch"
  shows "conn_at (interest_set oper (c_channel c) ch s) k c (ch\<lparr>ch_events := new_events oper (ch_events ch)\<rparr>)"
    "channels (interest_set oper (c_channel c) ch s) = channels s"
    "b \<noteq> c_channel c \<Longrightarrow> heap (interest_set oper (c_channel c) ch s) b = heap s b"
proof -
  note c = conn_atD [OF assms]
  have idx: "0 \<le> ch_index ch" using assms by (simp add: conn_at_def)
  from interest_set_channel [OF c(5), of oper] idx
  have heap: "heap (interest_set oper (c_channel c) ch s) (c_channel c) =
      Some (ch\<lparr>ch_events := new_events oper (ch_events ch)\<rparr>)"
    and ch: "channels (interest_set oper (c_channel c) ch s) = (channels s)(ch_fd ch \<mapsto> c_channel c)"
    and other: "b \<noteq> c_channel c \<Longrightarrow> heap (interest_set oper (c_channel c) ch s) b = heap s b"
    by (auto elim!: meta_allE [where x = "ch_index ch"])
  show "channels (interest_set oper (c_channel c) ch s) = channels s" using ch c(3,4) by auto
  then show "conn_at (interest_set oper (c_channel c) ch s) k c (ch\<lparr>ch_events := new_events oper (ch_events ch)\<rparr>)"
    using assms heap by (simp add: conn_at_def)
  show "b \<noteq> c_channel c \<Longrightarrow> heap (interest_set oper (c_channel c) ch s) b = heap s b" by (rule other)
qed

section \<open>Sending\<close>

text \<open>Output is kept back only while the channel waits for the socket to become writable.\<close>

definition output_waits :: "'u tcpconn \<Rightarrow> callback channel \<Rightarrow> bool" where
  "output_waits c ch \<longleftrightarrow> (content (c_output c) \<noteq> [] \<longrightarrow> isWriting ch)"

definition sent :: "('u, 'z) world_scheme \<Rightarrow> 'u tcpconn \<Rightarrow> string" where
  "sent s c = wire s (c_sockfd c) @ content (c_output c)"

text \<open>\<open>conn_step k s s'\<close>: only the connection \<open>k\<close>, its channel and its wire have changed.\<close>

definition conn_step :: "nat \<Rightarrow> ('u, 'z) world_scheme \<Rightarrow> ('u, 'z) world_scheme \<Rightarrow> bool" where
  "conn_step k s s' \<longleftrightarrow> (\<exists>c ch b ev H F C W R. conn_at s k c ch
     \<and> conn_at s' k (c\<lparr>c_output := b\<rparr>) (ch\<lparr>ch_events := ev\<rparr>)
     \<and> s' = s\<lparr>heap := H, pollfds := F, conns := C, wire := W, write_results := R\<rparr>
     \<and> (\<forall>a. a \<noteq> c_channel c \<longrightarrow> H a = heap s a) \<and> (\<forall>j. j \<noteq> k \<longrightarrow> C j = conns s j)
     \<and> persist (c_channel c) s s' \<and> (\<forall>f. f \<noteq> c_sockfd c \<longrightarrow> W f = wire s f))"

lemma sys_write_cases:
  obtains n r where "sys_write f data s = (r, s\<lparr>write_results := \<lambda>i. write_results s (Suc i),
      wire := (wire s)(f := wire s f @ take n data)\<rparr>)"
    "n \<le> length data" "r = int n \<or> r < 0 \<and> n = 0"
proof (cases "write_results s 0 < 0")
  case True
  with that [where n = 0 and r = "-1"] show thesis by (simp add: sys_write_def)
next
  case False
  with that [where n = "min (nat (write_results s 0)) (length data)"] show thesis
    by (simp add: sys_write_def Let_def)
qed

lemma conn_at_fun: "conn_at s k c ch \<Longrightarrow> conn_at s k c' ch' \<Longrightarrow> c' = c \<and> ch' = ch"
  by (auto simp: conn_at_def)

lemma conn_step_trans:
  assumes "conn_step k s s1" and "conn_step k s1 s2"
  shows "conn_step k s s2"
proof -
  from assms(1) obtain c ch b ev H F C W R where 1: "conn_at s k c ch"
    "conn_at s1 k (c\<lparr>c_output := b\<rparr>) (ch\<lparr>ch_events := ev\<rparr>)"
    "s1 = s\<lparr>heap := H, pollfds := F, conns := C, wire := W, write_results := R\<rparr>"
    "\<forall>a. a \<noteq> c_channel c \<longrightarrow> H a = heap s a" "\<forall>j. j \<noteq> k \<longrightarrow> C j = conns s j" "persist (c_channel c) s s1"
    "\<forall>f. f \<noteq> c_sockfd c \<longrightarrow> W f = wire s f"
    unfolding conn_step_def by blast
  from assms(2) obtain c1 ch1 b' ev' H' F' C' W' R' where 2: "conn_at s1 k c1 ch1"
    "conn_at s2 k (c1\<lparr>c_output := b'\<rparr>) (ch1\<lparr>ch_events := ev'\<rparr>)"
    "s2 = s1\<lparr>heap := H', pollfds := F', conns := C', wire := W', write_results := R'\<rparr>"
    "\<forall>a. a \<noteq> c_channel c1 \<longrightarrow> H' a = heap s1 a" "\<forall>j. j \<noteq> k \<longrightarrow> C' j = conns s1 j"
    "persist (c_channel c1) s1 s2" "\<forall>f. f \<noteq> c_sockfd c1 \<longrightarrow> W' f = wire s1 f"
    unfolding conn_step_def by blast
  from conn_at_fun [OF 1(2) 2(1)] have eq: "c1 = c\<lparr>c_output := b\<rparr>" "ch1 = ch\<lparr>ch_events := ev\<rparr>" by simp_all
  have "conn_at s2 k (c\<lparr>c_output := b'\<rparr>) (ch\<lparr>ch_events := ev'\<rparr>)" using 2(2) by (simp add: eq)
  moreover have "s2 = s\<lparr>heap := H', pollfds := F', conns := C', wire := W', write_results := R'\<rparr>"
    using 2(3) by (simp add: 1(3))
  moreover have "\<forall>a. a \<noteq> c_channel c \<longrightarrow> H' a = heap s a" using 2(4) 1(4) by (simp add: eq 1(3))
  moreover have "\<forall>j. j \<noteq> k \<longrightarrow> C' j = conns s j" using 2(5) 1(5) by (simp add: 1(3))
  moreover have "persist (c_channel c) s s2" using 1(6) 2(6) by (auto simp: eq intro: persist_trans)
  moreover have "\<forall>f. f \<noteq> c_sockfd c \<longrightarrow> W' f = wire s f" using 1(7) 2(7) by (simp add: eq 1(3))
  ultimately show ?thesis using 1(1) unfolding conn_step_def by blast
qed

lemma conn_step_wire:
  assumes "conn_at s k c ch" and "\<forall>f. f \<noteq> c_sockfd c \<longrightarrow> W f = wire s f"
  shows "conn_step k s (s\<lparr>write_results := R, wire := W\<rparr>)"
proof -
  have "conn_at (s\<lparr>write_results := R, wire := W\<rparr>) k (c\<lparr>c_output := c_output c\<rparr>) (ch\<lparr>ch_events := ch_events ch\<rparr>)"
    using assms by (simp add: conn_at_def)
  moreover have "s\<lparr>write_results := R, wire := W\<rparr> = s\<lparr>heap := heap s, pollfds := pollfds s,
      conns := conns s, wire := W, write_results := R\<rparr>" by simp
  moreover have "persist (c_channel c) s (s\<lparr>write_results := R, wire := W\<rparr>)"
    using persist_cong(1) [of "s\<lparr>write_results := R, wire := W\<rparr>" s "c_channel c" s] persist_refl [of "c_channel c" s] by simp
  ultimately show ?thesis using assms unfolding conn_step_def by blast
qed

lemma interest_set_update:
  fixes s :: "('u, 'z) world_scheme"
  shows "interest_set oper a c s = s\<lparr>heap := heap (interest_set oper a c s),
    pollfds := pollfds (interest_set oper a c s), channels := channels (interest_set oper a c s)\<rparr>"
  by (simp add: interest_set_def add_entry_def set_entry_def Let_def)

lemma conn_step_interest:
  assumes ok: "poller_ok s" and "conn_at s k c ch"
  shows "conn_step k s (interest_set oper (c_channel c) ch s)"
proof -
  note at = conn_at_interest_set [where oper = oper, OF assms(2)]
  obtain H F C where upd: "interest_set oper (c_channel c) ch s = s\<lparr>heap := H, pollfds := F, channels := C\<rparr>"
    using interest_set_update by blast
  then have "C = channels s" using at(2) by simp
  with upd have "interest_set oper (c_channel c) ch s =
      s\<lparr>heap := H, pollfds := F, conns := conns s, wire := wire s, write_results := write_results s\<rparr>" by simp
  moreover have "conn_at (interest_set oper (c_channel c) ch s) k (c\<lparr>c_output := c_output c\<rparr>)
      (ch\<lparr>ch_events := new_events oper (ch_events ch)\<rparr>)" using at(1) by simp
  moreover have "\<forall>a. a \<noteq> c_channel c \<longrightarrow> H a = heap s a" using at(3) upd by simp
  moreover have "persist (c_channel c) s (interest_set oper (c_channel c) ch s)"
    by (rule persist_interest [OF ok conn_atD(5) [OF assms(2)]])
  ultimately show ?thesis using assms(2) unfolding conn_step_def by blast
qed

lemma conn_step_output:
  assumes "conn_at s k c ch"
  shows "conn_step k s (put_conn k (c\<lparr>c_output := b\<rparr>) s)"
    "conn_at (put_conn k (c\<lparr>c_output := b\<rparr>) s) k (c\<lparr>c_output := b\<rparr>) ch"
proof -
  show at: "conn_at (put_conn k (c\<lparr>c_output := b\<rparr>) s) k (c\<lparr>c_output := b\<rparr>) ch"
    using assms by (simp add: conn_at_def)
  then have "conn_at (put_conn k (c\<lparr>c_output := b\<rparr>) s) k (c\<lparr>c_output := b\<rparr>) (ch\<lparr>ch_events := ch_events ch\<rparr>)" by simp
  moreover have "put_conn k (c\<lparr>c_output := b\<rparr>) s = s\<lparr>heap := heap s, pollfds := pollfds s,
      conns := (conns s)(k \<mapsto> c\<lparr>c_output := b\<rparr>), wire := wire s, write_results := write_results s\<rparr>"
    by (simp add: put_conn_def)
  moreover have "\<forall>j. j \<noteq> k \<longrightarrow> ((conns s)(k \<mapsto> c\<lparr>c_output := b\<rparr>)) j = conns s j" by simp
  moreover have "persist (c_channel c) s (put_conn k (c\<lparr>c_output := b\<rparr>) s)"
    using persist_cong(1) [of "put_conn k (c\<lparr>c_output := b\<rparr>) s" s "c_channel c" s] persist_refl [of "c_channel c" s] by simp
  ultimately show "conn_step k s (put_conn k (c\<lparr>c_output := b\<rparr>) s)"
    using assms unfolding conn_step_def by blast
qed

text \<open>The part of a message that stays behind waits in the output buffer.\<close>

lemma keep_back:
  assumes ok: "poller_ok s" and c: "conn_at s k c ch" and t: "threadId s = t"
    and budget: "buf_budget m (c_output c)" "m + length rest \<le> buffer_capacity"
  shows "okR (\<lambda>s'. poller_ok s' \<and> conn_step k s s' \<and> (\<exists>c' ch'. conn_at s' k c' ch' \<and> isWriting ch'
      \<and> buf_budget (m + length rest) (c_output c') \<and> sent s' c' = sent s c @ rest) \<and> wire s' = wire s)
    (bindR (append_bytes rest (c_output c)) (\<lambda>b.
      let s2 = put_conn k (c\<lparr>c_output := b\<rparr>) s in
      if \<not> isWriting ch then conn_interest t EnableWriting k s2 else Inr s2))"
  unfolding okR_bindR
proof (rule okR_mono [OF outbuf.put_view [OF budget]])
  fix b
  assume b: "buf_budget (m + length rest) b \<and> content b = content (c_output c) @ rest"
  let ?c = "c\<lparr>c_output := b\<rparr>" and ?s = "put_conn k (c\<lparr>c_output := b\<rparr>) s"
  note out = conn_step_output [OF c, of b]
  have ok2: "poller_ok ?s" using ok poller_cong(2) [of ?s s] by simp
  show "okR (\<lambda>s'. poller_ok s' \<and> conn_step k s s' \<and> (\<exists>c' ch'. conn_at s' k c' ch' \<and> isWriting ch'
      \<and> buf_budget (m + length rest) (c_output c') \<and> sent s' c' = sent s c @ rest) \<and> wire s' = wire s)
    (let s2 = ?s in if \<not> isWriting ch then conn_interest t EnableWriting k s2 else Inr s2)"
  proof (cases "isWriting ch")
    case True
    with out ok2 b show ?thesis by (auto simp: sent_def intro!: exI [of _ ?c])
  next
    case False
    let ?s' = "interest_set EnableWriting (c_channel ?c) ch ?s"
    have "conn_interest t EnableWriting k ?s = Inr ?s'"
      by (rule conn_interest_eq [OF ok2 out(2)]) (simp add: t)
    moreover have "poller_ok ?s'" using ok2 conn_atD(5) [OF out(2)] by (rule interest_set_ok)
    moreover have "conn_step k s ?s'"
      by (rule conn_step_trans [OF out(1) conn_step_interest [OF ok2 out(2)]])
    moreover have "conn_at ?s' k ?c (ch\<lparr>ch_events := kWriteEvent\<rparr>)"
      using conn_at_interest_set(1) [where oper = EnableWriting, OF out(2)] by simp
    moreover have "isWriting (ch\<lparr>ch_events := kWriteEvent\<rparr>)"
      by (simp add: isWriting_def kWriteEvent_def POLLOUT_def)
    moreover have "sent ?s' ?c = sent s c @ rest" using b by (simp add: sent_def)
    ultimately show ?thesis using False b by (simp add: Let_def) (metis tcpconn.select_convs(11) tcpconn.surjective tcpconn.update_convs(11))
  qed
qed

lemma in_loop_thread: "threadId s = t \<Longrightarrow> assertInLoopThread t s = Inr ()"
  by (simp add: assertInLoopThread_def isInLoopThread_def assertR_def)

definition sent_more :: "nat \<Rightarrow> nat \<Rightarrow> string \<Rightarrow> ('u, 'z) world_scheme \<Rightarrow> 'u tcpconn \<Rightarrow> ('u, 'z) world_scheme \<Rightarrow> bool" where
  "sent_more k m message s c s' \<longleftrightarrow> poller_ok s' \<and> conn_step k s s' \<and> (\<exists>c' ch'. conn_at s' k c' ch' \<and> output_waits c' ch'
      \<and> buf_budget (m + length message) (c_output c') \<and> sent s' c' = sent s c @ message)
     \<and> (content (c_output c) \<noteq> [] \<longrightarrow> wire s' (c_sockfd c) = wire s (c_sockfd c))"

lemma sent_moreI:
  assumes "poller_ok s' \<and> conn_step k s1 s' \<and> (\<exists>c' ch'. conn_at s' k c' ch' \<and> isWriting ch'
      \<and> buf_budget (m + length rest) (c_output c') \<and> sent s' c' = sent s1 c @ rest) \<and> wire s' = wire s1"
    and "conn_step k s s1" and "sent s1 c = sent s c @ front" and "message = front @ rest"
    and "m + length message \<le> buffer_capacity" and "content (c_output c) \<noteq> [] \<Longrightarrow> wire s1 (c_sockfd c) = wire s (c_sockfd c)"
  shows "sent_more k m message s c s'"
proof -
  from assms(1) obtain c' ch' where c': "conn_at s' k c' ch'" "isWriting ch'"
    "buf_budget (m + length rest) (c_output c')" "sent s' c' = sent s1 c @ rest" by blast
  have "conn_step k s s'" using assms(1,2) conn_step_trans by blast
  moreover have "buf_budget (m + length message) (c_output c')"
    using c'(3) assms(4,5) by (auto simp: buf_budget_def)
  moreover have "output_waits c' ch'" using c'(2) by (simp add: output_waits_def)
  moreover have "sent s' c' = sent s c @ message" using c'(4) assms(3,4) by simp
  moreover have "content (c_output c) \<noteq> [] \<longrightarrow> wire s' (c_sockfd c) = wire s (c_sockfd c)" using assms(1,6) by simp
  ultimately show ?thesis using assms(1) c'(1) unfolding sent_more_def by blast
qed

lemma sendInLoop_spec:
  assumes ok: "poller_ok s" and c: "conn_at s k c ch" and t: "threadId s = t"
    and budget: "buf_budget m (c_output c)" "m + length message \<le> buffer_capacity"
    and waits: "output_waits c ch"
  shows "okR (sent_more k m message s c) (sendInLoop t message k s)"
proof (cases "\<not> isWriting ch \<and> readableBytes (c_output c) = 0")
  case True
  have bok: "buf_ok (c_output c)" using budget(1) by (simp add: buf_budget_def)
  then have empty: "content (c_output c) = []" using True length_content by fastforce
  obtain n r where w: "sys_write (ch_fd ch) message s = (r, s\<lparr>write_results := \<lambda>i. write_results s (Suc i),
      wire := (wire s)(ch_fd ch := wire s (ch_fd ch) @ take n message)\<rparr>)" (is "_ = (r, ?s1)")
    "n \<le> length message" "r = int n \<or> r < 0 \<and> n = 0" by (rule sys_write_cases)
  have n: "(if 0 \<le> r then r else 0) = int n" using w(3) by auto
  have s1: "poller_ok ?s1" "conn_at ?s1 k c ch" "conn_step k s ?s1"
    using ok poller_cong(2) [of ?s1 s] c conn_at_cong [of ?s1 s k] conn_step_wire [OF c] conn_atD(4) [OF c] by simp_all
  have sent1: "sent ?s1 c = sent s c @ take n message" using conn_atD(4) [OF c] empty by (simp add: sent_def)
  show ?thesis
  proof (cases "n < length message")
    case False
    then have "sendInLoop t message k s = Inr ?s1"
      using True w n conn_atD(7,8) [OF c] in_loop_thread [OF t] by (simp add: sendInLoop_def Let_def)
    moreover have "buf_budget (m + length message) (c_output c)"
      using budget by (auto simp: buf_budget_def)
    moreover have "sent_more k m message s c ?s1"
      unfolding sent_more_def using s1 sent1 waits False calculation(2) empty by auto
    ultimately show ?thesis by simp
  next
    case True
    have more: "m + length (drop n message) \<le> buffer_capacity" using budget(2) by simp
    have "sendInLoop t message k s = bindR (append_bytes (drop n message) (c_output c)) (\<lambda>b.
        let s2 = put_conn k (c\<lparr>c_output := b\<rparr>) ?s1 in
        if \<not> isWriting ch then conn_interest t EnableWriting k s2 else Inr s2)"
      using \<open>\<not> isWriting ch \<and> _\<close> True w n conn_atD(7,8) [OF c] in_loop_thread [OF t]
      by (simp add: sendInLoop_def Let_def)
    moreover have t1: "threadId ?s1 = t" using t by simp
    have "okR (sent_more k m message s c) (bindR (append_bytes (drop n message) (c_output c)) (\<lambda>b.
        let s2 = put_conn k (c\<lparr>c_output := b\<rparr>) ?s1 in
        if \<not> isWriting ch then conn_interest t EnableWriting k s2 else Inr s2))"
      by (rule okR_mono [OF keep_back [OF s1(1,2) t1 budget(1) more]], erule sent_moreI [OF _ s1(3) sent1])
        (use budget(2) empty in simp_all)
    ultimately show ?thesis by simp
  qed
next
  case False
  show ?thesis
  proof (cases "message = []")
    case True
    then have "sendInLoop t message k s = Inr s"
      using False conn_atD(7,8) [OF c] in_loop_thread [OF t] by (auto simp: sendInLoop_def Let_def)
    moreover have "conn_step k s s" using conn_step_wire [where R = "write_results s" and W = "wire s", OF c] by simp
    ultimately show ?thesis using True ok c budget waits by (auto simp: sent_more_def)
  next
    case False
    with \<open>\<not> (\<not> isWriting ch \<and> _)\<close> have "sendInLoop t message k s = bindR (append_bytes message (c_output c)) (\<lambda>b.
        let s2 = put_conn k (c\<lparr>c_output := b\<rparr>) s in
        if \<not> isWriting ch then conn_interest t EnableWriting k s2 else Inr s2)"
      using conn_atD(7,8) [OF c] in_loop_thread [OF t] by (auto simp: sendInLoop_def Let_def)
    moreover have "conn_step k s s" using conn_step_wire [where R = "write_results s" and W = "wire s", OF c] by simp
    then have "okR (sent_more k m message s c) (bindR (append_bytes message (c_output c)) (\<lambda>b.
        let s2 = put_conn k (c\<lparr>c_output := b\<rparr>) s in
        if \<not> isWriting ch then conn_interest t EnableWriting k s2 else Inr s2))"
      by (intro okR_mono [OF keep_back [OF ok c t budget]], erule_tac sent_moreI [where front = "[]"])
        (use budget(2) in simp_all)
    ultimately show ?thesis by simp
  qed
qed

end
