(* ===== verification/ServerInv.thy ===== *)
theory ServerInv
  imports ConnProps
begin

text \<open>
  The invariant of a server and its loop: which connection objects exist, which of them are open, on
  their way out or gone, and how the connection map, the queue of functors, the channels and the
  descriptors agree about that.
\<close>

section \<open>Life cycle\<close>

text \<open>The connections that the functors of a list will destroy.\<close>

definition destroys :: "'u task list \<Rightarrow> nat list" where
  "destroys fs = concat (map (\<lambda>f. case f of ConnectDestroyed k \<Rightarrow> [k] | _ \<Rightarrow> []) fs)"

lemma destroys_simps [simp]:
  "destroys [] = []" "destroys (fs @ gs) = destroys fs @ destroys gs"
  "destroys (ConnectDestroyed k # fs) = k # destroys fs" "destroys (UserTask u # fs) = destroys fs"
  by (simp_all add: destroys_def)

text \<open>Between two reads the input buffer is empty and at its start; a read brings at most 1 GiB.\<close>

definition idle_input :: "buffer \<Rightarrow> bool" where
  "idle_input b \<longleftrightarrow> buf_ok b \<and> readerIndex b = 8 \<and> writerIndex b = 8 \<and> length (storage b) \<le> 2 ^ 31"

definition output_ok :: "buffer \<Rightarrow> bool" where
  "output_ok b \<longleftrightarrow> buf_budget (2 ^ 40) b"

text \<open>
  The state of a connection object depends on where the functor that destroys it is: not queued
  (the connection is open, and in the server's map), queued (closed: its poll entry is ignored), being
  called (\<open>m\<close>: disconnected, about to leave the poller), called (gone from the poller, the object is
  destroyed with the functors).
\<close>

definition conn_fits :: "nat option \<Rightarrow> 'u task list \<Rightarrow> 'u task list \<Rightarrow> ('u, 'z) world_scheme \<Rightarrow> nat \<Rightarrow> 'u tcpconn \<Rightarrow> bool" where
  "conn_fits m ds fs s k c \<longleftrightarrow>
     (if m = Some k then c_state c = kDisconnected \<and> (\<exists>ch. conn_at s k c ch \<and> removable s (c_channel c) ch)
      else if k \<in> set (destroys ds)
      then c_state c = kDisconnected \<and> channels s (c_sockfd c) \<noteq> Some (c_channel c)
      else c_state c \<in> {kConnected, kDisconnecting} \<and> (\<exists>ch. conn_at s k c ch \<and> (connections s (c_name c) = Some k \<longrightarrow> output_waits c ch))
        \<and> idle_input (c_input c) \<and> output_ok (c_output c)
        \<and> (if k \<in> set (destroys (fs @ pendingFunctors s))
           then connections s (c_name c) \<noteq> Some k \<and> ignored (c_channel c) s
           else connections s (c_name c) = Some k))"

definition conns_ok :: "nat option \<Rightarrow> 'u task list \<Rightarrow> 'u task list \<Rightarrow> ('u, 'z) world_scheme \<Rightarrow> bool" where
  "conns_ok m ds fs s \<longleftrightarrow> (\<forall>k c. conns s k = Some c \<longrightarrow> c_sockfd c \<in> open_fds s \<and> c_closeCallback c
     \<and> c_connectionCallback c \<noteq> None \<and> c_messageCallback c \<noteq> None
     \<and> (\<exists>ch. heap s (c_channel c) = Some ch \<and> readCallback ch = Some (ConnectionRead k))
     \<and> conn_fits m ds fs s k c)"

text \<open>The server's map: every name belongs to a live connection that is not being destroyed.\<close>

definition map_ok :: "nat option \<Rightarrow> 'u task list \<Rightarrow> ('u, 'z) world_scheme \<Rightarrow> bool" where
  "map_ok m ds s \<longleftrightarrow> 1 \<le> nextConnId s \<and> (\<forall>nm k. connections s nm = Some k \<longrightarrow>
     (\<exists>c. conns s k = Some c \<and> c_name c = nm) \<and> m \<noteq> Some k \<and> k \<notin> set (destroys ds)
     \<and> (\<exists>i. 1 \<le> i \<and> i < nextConnId s \<and> nm = conn_name (server_name s) i))"

definition queue_ok :: "nat option \<Rightarrow> 'u task list \<Rightarrow> 'u task list \<Rightarrow> ('u, 'z) world_scheme \<Rightarrow> bool" where
  "queue_ok m ds fs s \<longleftrightarrow> distinct (destroys (ds @ fs @ pendingFunctors s))
     \<and> (\<forall>k \<in> set (destroys (ds @ fs @ pendingFunctors s)). conns s k \<noteq> None)
     \<and> (\<forall>k. m = Some k \<longrightarrow> k \<in> set (destroys ds))
     \<and> (\<forall>f \<in> set (fs @ pendingFunctors s). (\<exists>k. f = ConnectDestroyed k) \<or> (\<exists>u. f = UserTask u))"

text \<open>
  A registered channel is bound to one of the four read callbacks and to nothing else; that of a
  connection belongs to it. Its descriptor is open.
\<close>

definition chan_ok :: "('u, 'z) world_scheme \<Rightarrow> nat \<Rightarrow> callback channel \<Rightarrow> bool" where
  "chan_ok s a ch \<longleftrightarrow> writeCallback ch = None \<and> errorCallback ch = None \<and> closeCallback ch = None
     \<and> (\<exists>cb. readCallback ch = Some cb \<and> (\<forall>k. cb = ConnectionRead k \<longrightarrow> (\<exists>c. conns s k = Some c \<and> c_channel c = a)))"

definition chans_ok :: "('u, 'z) world_scheme \<Rightarrow> bool" where
  "chans_ok s \<longleftrightarrow> (\<forall>f a. channels s f = Some a \<longrightarrow> f \<in> open_fds s \<and> (\<exists>ch. heap s a = Some ch \<and> chan_ok s a ch))"

text \<open>Allocation, and what the kernel promises: a new descriptor is one not in use.\<close>

definition memory_ok :: "('u, 'z) world_scheme \<Rightarrow> bool" where
  "memory_ok s \<longleftrightarrow> inj (malloc s) \<and> (\<forall>i. heap s (malloc s i) = None \<and> conns s (malloc s i) = None)"

definition kernel_ok :: "('u, 'z) world_scheme \<Rightarrow> bool" where
  "kernel_ok s \<longleftrightarrow> (\<forall>i F f p. accepts s i F = Success (f, p) \<longrightarrow> 0 \<le> f \<and> f \<notin> F)
     \<and> (\<forall>i f d. reads s i f = Inr d \<longrightarrow> length d \<le> 2 ^ 30)"

text \<open>Every connection has a descriptor of its own, to which at most its own channel is registered.\<close>

definition fds_ok :: "('u, 'z) world_scheme \<Rightarrow> bool" where
  "fds_ok s \<longleftrightarrow> (\<forall>j k c d. conns s j = Some c \<longrightarrow> conns s k = Some d \<longrightarrow> c_sockfd c = c_sockfd d \<longrightarrow> j = k)
     \<and> (\<forall>k c a. conns s k = Some c \<longrightarrow> channels s (c_sockfd c) = Some a \<longrightarrow> a = c_channel c)
     \<and> (\<forall>k c f. conns s k = Some c \<longrightarrow> channels s f = Some (c_channel c) \<longrightarrow> f = c_sockfd c)"

lemma fds_okD:
  assumes "fds_ok s"
  shows "conns s j = Some c \<Longrightarrow> conns s k = Some d \<Longrightarrow> c_sockfd c = c_sockfd d \<Longrightarrow> j = k"
    "conns s k = Some c \<Longrightarrow> channels s (c_sockfd c) = Some a \<Longrightarrow> a = c_channel c"
    "conns s k = Some c \<Longrightarrow> channels s f = Some (c_channel c) \<Longrightarrow> f = c_sockfd c"
  using assms unfolding fds_ok_def by blast+

lemma fds_okI:
  assumes "\<And>j k c d. conns s j = Some c \<Longrightarrow> conns s k = Some d \<Longrightarrow> c_sockfd c = c_sockfd d \<Longrightarrow> j = k"
    and "\<And>k c a. conns s k = Some c \<Longrightarrow> channels s (c_sockfd c) = Some a \<Longrightarrow> a = c_channel c"
    and "\<And>k c f. conns s k = Some c \<Longrightarrow> channels s f = Some (c_channel c) \<Longrightarrow> f = c_sockfd c"
  shows "fds_ok s"
  using assms unfolding fds_ok_def by blast

lemma fds_ok_cong:
  assumes ok: "fds_ok s" and chs: "\<And>f a. channels s' f = Some a \<Longrightarrow> channels s f = Some a"
    and sub: "\<And>j d. conns s' j = Some d \<Longrightarrow> \<exists>c. conns s j = Some c \<and> c_sockfd d = c_sockfd c \<and> c_channel d = c_channel c"
  shows "fds_ok s'"
proof (rule fds_okI)
  fix j k c d
  assume "conns s' j = Some c" "conns s' k = Some d" "c_sockfd c = c_sockfd d"
  then show "j = k" using sub [of j c] sub [of k d] fds_okD(1) [OF ok, of j _ k] by auto
next
  fix k c a
  assume "conns s' k = Some c" "channels s' (c_sockfd c) = Some a"
  then show "a = c_channel c" using sub [of k c] chs [of "c_sockfd c" a] fds_okD(2) [OF ok, of k] by auto
next
  fix k c f
  assume "conns s' k = Some c" "channels s' f = Some (c_channel c)"
  then show "f = c_sockfd c" using sub [of k c] chs [of f "c_channel c"] fds_okD(3) [OF ok, of k _ f] by auto
qed

definition net_inv :: "int \<Rightarrow> nat option \<Rightarrow> 'u task list \<Rightarrow> 'u task list \<Rightarrow> ('u, 'z) world_scheme \<Rightarrow> bool" where
  "net_inv T m ds fs s \<longleftrightarrow> threadId s = T \<and> poller_ok s \<and> conns_ok m ds fs s \<and> map_ok m ds s \<and> queue_ok m ds fs s
     \<and> chans_ok s \<and> fds_ok s \<and> memory_ok s \<and> kernel_ok s \<and> clock_ok s
     \<and> newConnectionCallback s \<and> fst (server_callbacks s) \<noteq> None \<and> snd (server_callbacks s) \<noteq> None"

text \<open>The server of a program that sets no timers.\<close>

definition server_inv :: "int \<Rightarrow> nat option \<Rightarrow> 'u task list \<Rightarrow> 'u task list \<Rightarrow> ('u, 'z) world_scheme \<Rightarrow> bool" where
  "server_inv T m ds fs s \<longleftrightarrow> net_inv T m ds fs s \<and> timers s = []"

definition live :: "nat \<Rightarrow> ('u, 'z) world_scheme \<Rightarrow> bool" where
  "live a s \<longleftrightarrow> (\<exists>ch. heap s a = Some ch \<and> chan_ok s a ch \<and> (\<forall>k c. readCallback ch = Some (ConnectionRead k)
     \<longrightarrow> conns s k = Some c \<longrightarrow> connections s (c_name c) = Some k))"

lemmas server_defs = net_inv_def conns_ok_def map_ok_def queue_ok_def chans_ok_def memory_ok_def
  kernel_ok_def

section \<open>Changes that do not matter\<close>

lemma net_inv_cong:
  fixes s s' :: "('u, 'z) world_scheme"
  assumes p: "heap s' = heap s" "pollfds s' = pollfds s" "channels s' = channels s" "loopId s' = loopId s"
    and "threadId s' = threadId s" and "conns s' = conns s" "connections s' = connections s" "pendingFunctors s' = pendingFunctors s"
      "open_fds s' = open_fds s" "malloc s' = malloc s" "nextConnId s' = nextConnId s"
      "server_name s' = server_name s" "server_callbacks s' = server_callbacks s"
      "newConnectionCallback s' = newConnectionCallback s"
    and "kernel_ok s' = kernel_ok s" "clock_ok s' = clock_ok s"
  shows "net_inv T m ds fs s' = net_inv T m ds fs s" "live a s' = live a s"
proof -
  have at: "conn_at s' = conn_at s" by (intro ext) (simp add: conn_at_def assms)
  have rm: "removable s' = removable s" by (intro ext) (simp add: removable_def poller_cong [OF p] assms)
  have ch: "chan_ok s' = chan_ok s" by (intro ext) (simp add: chan_ok_def assms)
  have fits: "conn_fits m ds fs s' = conn_fits m ds fs s"
    by (intro ext) (simp add: conn_fits_def at rm poller_cong [OF p] assms)
  show "net_inv T m ds fs s' = net_inv T m ds fs s"
    by (simp add: net_inv_def conns_ok_def map_ok_def queue_ok_def chans_ok_def fds_ok_def memory_ok_def fits ch
        poller_cong [OF p] assms)
  show "live a s' = live a s" by (simp add: live_def ch assms)
qed

text \<open>Marking events, or the \<open>eventHandling_\<close> flag, changes nothing of this.\<close>

lemma same_slots_at:
  assumes same: "same_slots s s'" and ok: "poller_ok s" and at: "conn_at s k c ch"
  obtains ch' where "conn_at s' k c ch'" "same_interest ch ch'"
    "removable s (c_channel c) ch \<longrightarrow> removable s' (c_channel c) ch'"
    "ignored (c_channel c) s \<longrightarrow> ignored (c_channel c) s'"
proof -
  note D = same_slotsD [OF same] and F = same_slots_fields [OF same]
  have loop: "loopId s' = loopId s" using same by (simp add: same_slots_def)
  from D(4) [OF conn_atD(2) [OF at]] obtain ch' where ch': "heap s' (c_channel c) = Some ch'" "same_interest ch ch'"
    by blast
  have at': "conn_at s' k c ch'"
    using at ch' loop D(2) F by (simp add: conn_at_def same_interest_def)
  have slot: "slot_ok s (nat (ch_index ch)) (c_channel c) ch"
    by (rule slot_of_registered [OF ok conn_atD(6) [OF at]])
  have fd: "pfd_fd (pollfds s' ! nat (ch_index ch')) = pfd_fd (pollfds s ! nat (ch_index ch))"
    using D(3) [OF slot_okD_less [OF slot]] ch'(2) by (simp add: same_interest_def)
  have "removable s (c_channel c) ch \<longrightarrow> removable s' (c_channel c) ch'"
    using fd ch' D(2) loop by (simp add: removable_def registered_def same_interest_def isNoneEvent_def)
  moreover have "ignored (c_channel c) s \<longrightarrow> ignored (c_channel c) s'"
    using fd ch' D(2) conn_atD(2) [OF at] by (auto simp: ignored_def registered_def same_interest_def)
  ultimately show thesis using that at' ch'(2) by blast
qed

lemma same_interest_waits: "same_interest ch ch' \<Longrightarrow> output_waits c ch \<Longrightarrow> output_waits c ch'"
  by (simp add: output_waits_def same_interest_def isWriting_def)

lemma conn_fits_same:
  assumes same: "same_slots s s'" and ok: "poller_ok s" and fits: "conn_fits m ds fs s k c"
  shows "conn_fits m ds fs s' k c"
proof -
  note F = same_slots_fields [OF same] and ch = same_slotsD(2) [OF same]
  consider (mid) "m = Some k" | (gone) "m \<noteq> Some k" "k \<in> set (destroys ds)" | (alive) "m \<noteq> Some k" "k \<notin> set (destroys ds)"
    by blast
  then show ?thesis
  proof cases
    case mid
    with fits obtain h where h: "conn_at s k c h" "removable s (c_channel c) h" by (auto simp: conn_fits_def)
    from same_slots_at [OF same ok h(1)] h(2) obtain h' where "conn_at s' k c h'" "removable s' (c_channel c) h'"
      by blast
    with fits mid show ?thesis by (auto simp: conn_fits_def)
  next
    case gone
    with fits show ?thesis by (simp add: conn_fits_def ch)
  next
    case alive
    with fits obtain h where h: "conn_at s k c h" "connections s (c_name c) = Some k \<longrightarrow> output_waits c h"
      by (auto simp: conn_fits_def)
    from same_slots_at [OF same ok h(1)] obtain h' where h': "conn_at s' k c h'" "same_interest h h'"
      "ignored (c_channel c) s \<longrightarrow> ignored (c_channel c) s'" by blast
    then have "connections s (c_name c) = Some k \<longrightarrow> output_waits c h'" using h(2) same_interest_waits by blast
    with fits alive h' show ?thesis by (auto simp: conn_fits_def F)
  qed
qed

lemma same_chan_ok:
  assumes "same_slots s s'" and "same_interest ch ch'" and "chan_ok s a ch"
  shows "chan_ok s' a ch'"
  using assms(2,3) by (simp add: chan_ok_def same_interest_def same_slots_fields [OF assms(1)])

lemma net_inv_same:
  assumes same: "same_slots s s'" and inv: "net_inv T m ds fs s"
  shows "net_inv T m ds fs s'"
proof -
  note F = same_slots_fields [OF same] and D = same_slotsD [OF same]
  have ok: "poller_ok s" using inv by (simp add: net_inv_def)
  have "conns_ok m ds fs s'"
    unfolding conns_ok_def
  proof (intro allI impI)
    fix k c
    assume "conns s' k = Some c"
    then have k: "conns s k = Some c" by (simp add: F)
    with inv obtain ch where c: "c_sockfd c \<in> open_fds s" "c_closeCallback c" "c_connectionCallback c \<noteq> None"
      "c_messageCallback c \<noteq> None" "heap s (c_channel c) = Some ch" "readCallback ch = Some (ConnectionRead k)"
      "conn_fits m ds fs s k c" unfolding net_inv_def conns_ok_def by blast
    from D(4) [OF c(5)] obtain ch' where "heap s' (c_channel c) = Some ch'" "same_interest ch ch'" by blast
    with c conn_fits_same [OF same ok c(7)]
    show "c_sockfd c \<in> open_fds s' \<and> c_closeCallback c \<and> c_connectionCallback c \<noteq> None \<and> c_messageCallback c \<noteq> None
     \<and> (\<exists>ch. heap s' (c_channel c) = Some ch \<and> readCallback ch = Some (ConnectionRead k)) \<and> conn_fits m ds fs s' k c"
      by (simp add: F same_interest_def)
  qed
  moreover have "chans_ok s'"
    unfolding chans_ok_def
  proof (intro allI impI)
    fix f a
    assume "channels s' f = Some a"
    then have "channels s f = Some a" by (simp add: D(2))
    with inv obtain ch where "f \<in> open_fds s" "heap s a = Some ch" "chan_ok s a ch"
      unfolding net_inv_def chans_ok_def by blast
    with D(4) same_chan_ok [OF same] show "f \<in> open_fds s' \<and> (\<exists>ch. heap s' a = Some ch \<and> chan_ok s' a ch)"
      by (fastforce simp: F)
  qed
  moreover have "fds_ok s'"
    by (rule fds_ok_cong [of s]) (use inv in \<open>auto simp: net_inv_def D(2) F\<close>)
  moreover have "heap s' a = None" if "heap s a = None" for a
    using D(5) [of a] that by (cases "heap s' a") auto
  then have "memory_ok s'"
    using inv by (simp add: net_inv_def memory_ok_def F)
  moreover have "poller_ok s'" using same ok by (rule poller_ok_same)
  moreover have "threadId s' = threadId s" using same by (simp add: same_slots_def)
  ultimately show ?thesis
    using inv by (simp add: net_inv_def map_ok_def queue_ok_def kernel_ok_def clock_ok_def F)
qed

lemma live_same:
  assumes same: "same_slots s s'" and "live a s"
  shows "live a s'"
proof -
  from assms(2) obtain ch where ch: "heap s a = Some ch" "chan_ok s a ch"
    "\<forall>k c. readCallback ch = Some (ConnectionRead k) \<longrightarrow> conns s k = Some c \<longrightarrow> connections s (c_name c) = Some k"
    by (auto simp: live_def)
  from same_slotsD(4) [OF same ch(1)] obtain ch' where ch': "heap s' a = Some ch'" "same_interest ch ch'" by blast
  with ch same_chan_ok [OF same ch'(2) ch(2)] show ?thesis
    by (auto simp: live_def same_interest_def same_slots_fields [OF same])
qed

text \<open>
  The same connection objects, the same open descriptors, the same addresses to come, the same timers, the same bytes
  on the wires, and the same rest, which is the user's own (the extension of the record).
\<close>

definition same_lives :: "('u, 'z) world_scheme \<Rightarrow> ('u, 'z) world_scheme \<Rightarrow> bool" where
  "same_lives s s' \<longleftrightarrow> conns s' = conns s \<and> open_fds s' = open_fds s \<and> malloc s' = malloc s
     \<and> timers s' = timers s \<and> timer_heap s' = timer_heap s \<and> timerfd_due s' = timerfd_due s
     \<and> timerfd s' = timerfd s \<and> acceptFd s' = acceptFd s \<and> wire s' = wire s \<and> world.more s' = world.more s"

lemma same_livesI [intro]:
  "conns s' = conns s \<Longrightarrow> open_fds s' = open_fds s \<Longrightarrow> malloc s' = malloc s \<Longrightarrow> timers s' = timers s \<Longrightarrow>
   timer_heap s' = timer_heap s \<Longrightarrow> timerfd_due s' = timerfd_due s \<Longrightarrow> timerfd s' = timerfd s \<Longrightarrow>
   acceptFd s' = acceptFd s \<Longrightarrow> wire s' = wire s \<Longrightarrow> world.more s' = world.more s \<Longrightarrow> same_lives s s'"
  by (simp add: same_lives_def)

lemma same_lives_timers: "same_lives s s' \<Longrightarrow> timers s' = timers s" "same_lives s s' \<Longrightarrow> timer_heap s' = timer_heap s"
  "same_lives s s' \<Longrightarrow> malloc s' = malloc s" "same_lives s s' \<Longrightarrow> timerfd_due s' = timerfd_due s"
  by (simp_all add: same_lives_def)

lemma same_lives_fds: "same_lives s s' \<Longrightarrow> timerfd s' = timerfd s" "same_lives s s' \<Longrightarrow> acceptFd s' = acceptFd s"
  by (simp_all add: same_lives_def)

lemma same_slots_lives: "same_slots s s' \<Longrightarrow> same_lives s s'"
  by (simp add: same_lives_def same_slots_fields)

section \<open>One poll\<close>

lemma conns_okD:
  assumes "net_inv T m ds fs s" and "conns s k = Some c"
  shows "c_sockfd c \<in> open_fds s" "c_closeCallback c" "c_connectionCallback c \<noteq> None" "c_messageCallback c \<noteq> None"
    "conn_fits m ds fs s k c" "\<exists>ch. heap s (c_channel c) = Some ch \<and> readCallback ch = Some (ConnectionRead k)"
  using assms unfolding net_inv_def conns_ok_def by blast+

lemma polled_safe:
  assumes inv: "net_inv T None [] [] s"
  shows "safeR E (\<lambda>(active, s'). net_inv T None [] [] s' \<and> distinct active \<and> (\<forall>a \<in> set active. live a s') \<and> same_lives s s')
    (Poller_poll outcome s)"
proof (cases outcome)
  case PollFails
  then have "Poller_poll outcome s = Inr ([], s)" by (simp add: Poller_poll_def)
  with inv show ?thesis by (simp add: same_lives_def)
next
  case (PollReady ready)
  have ok: "poller_ok s" using inv by (simp add: net_inv_def)
  from poll_spec [OF ok, of ready] obtain active s' where
    poll: "Poller_poll (PollReady ready) s = Inr (active, s')" "same_slots s s'" "distinct active"
    "set active = ready_channels ready s" by metis
  have "live a s" if "a \<in> set active" for a
  proof -
    from that poll(4) obtain ch where w: "watched s a ch" by (auto simp: ready_channels_def)
    then have reg: "registered s a ch" by (simp add: watched_def)
    have "chans_ok s" using inv by (simp add: net_inv_def)
    with reg have ch: "heap s a = Some ch" "chan_ok s a ch"
      unfolding chans_ok_def registered_def by force+
    have "connections s (c_name c) = Some k" if k: "readCallback ch = Some (ConnectionRead k)" "conns s k = Some c" for k c
    proof (rule ccontr)
      assume "connections s (c_name c) \<noteq> Some k"
      moreover have a: "c_channel c = a" using ch(2) k by (auto simp: chan_ok_def)
      ultimately have "ignored a s"
        using conns_okD(5) [OF inv k(2)] by (auto simp: conn_fits_def split: if_splits)
      with reg have "pfd_fd (pollfds s ! nat (ch_index ch)) = - ch_fd ch - 1"
        by (auto simp: ignored_def registered_def)
      moreover have "0 \<le> ch_fd ch" using slot_of_registered [OF ok reg] by (simp add: slot_ok_def)
      ultimately show False using w by (simp add: watched_def)
    qed
    with ch show ?thesis by (auto simp: live_def)
  qed
  with poll inv PollReady show ?thesis by (auto intro: net_inv_same live_same same_slots_lives)
qed

end
