(* ===== verification/ServerSteps.thy ===== *)
theory ServerSteps
  imports ServerInv Persistence
begin

text \<open>
  The server's invariant is kept by an operation on one connection: the generic argument (what
  happens to the other connections, the channels, the map, the memory), then closing a connection.
\<close>

section \<open>The other connections\<close>

lemma persist_conn_at:
  assumes per: "persist a s s'" and at: "conn_at s j c ch" and other: "c_channel c \<noteq> a" "conns s' j = Some c"
  obtains i where "conn_at s' j c (ch\<lparr>ch_index := i\<rparr>)"
    "removable s (c_channel c) ch \<Longrightarrow> removable s' (c_channel c) (ch\<lparr>ch_index := i\<rparr>)"
    "ignored (c_channel c) s \<Longrightarrow> ignored (c_channel c) s'"
proof -
  from per other(1) conn_atD(2) [OF at] obtain i where i: "heap s' (c_channel c) = Some (ch\<lparr>ch_index := i\<rparr>)"
    "registered s (c_channel c) ch \<Longrightarrow> same_entry (c_channel c) ch i s s'" by (rule persistE) blast
  from i(2) [OF conn_atD(6) [OF at]] have e: "0 \<le> i" "channels s' (c_sockfd c) = Some (c_channel c)"
    "pfd_fd (pollfds s' ! nat i) = pfd_fd (pollfds s ! nat (ch_index ch))"
    using at by (simp_all add: same_entry_def conn_at_def)
  have loop: "loopId s' = loopId s" using per by (simp add: persist_def)
  have "conn_at s' j c (ch\<lparr>ch_index := i\<rparr>)"
    using at i(1) e(1,2) loop other(2) by (simp add: conn_at_def)
  moreover from conn_atD(6) [OF this] have reg: "registered s' (c_channel c) (ch\<lparr>ch_index := i\<rparr>)" .
  then have "removable s (c_channel c) ch \<Longrightarrow> removable s' (c_channel c) (ch\<lparr>ch_index := i\<rparr>)"
    using e(3) loop by (simp add: removable_def isNoneEvent_def)
  moreover have "ignored (c_channel c) s \<Longrightarrow> ignored (c_channel c) s'"
    using reg e(3) conn_atD(2) [OF at] by (auto simp: ignored_def registered_def intro!: exI [of _ "ch\<lparr>ch_index := i\<rparr>"])
  ultimately show thesis using that by blast
qed

text \<open>\<open>same_role\<close>: the connection \<open>j\<close> is in the same place of its life cycle before and after.\<close>

definition same_role ::
  "nat \<Rightarrow> nat option \<Rightarrow> 'u task list \<Rightarrow> 'u task list \<Rightarrow> nat option \<Rightarrow> 'u task list \<Rightarrow> 'u task list \<Rightarrow> bool" where
  "same_role j m ds fs m' ds' fs' \<longleftrightarrow> (m' = Some j \<longleftrightarrow> m = Some j)
     \<and> (j \<in> set (destroys ds') \<longleftrightarrow> j \<in> set (destroys ds)) \<and> (j \<in> set (destroys fs') \<longleftrightarrow> j \<in> set (destroys fs))"

lemma conn_fits_persist:
  assumes per: "persist a s s'" and fits: "conn_fits m ds fs s j c" and other: "c_channel c \<noteq> a" "conns s' j = Some c"
    and role: "same_role j m ds (fs @ pendingFunctors s) m' ds' (fs' @ pendingFunctors s')"
    and name: "connections s' (c_name c) = Some j \<longleftrightarrow> connections s (c_name c) = Some j"
  shows "conn_fits m' ds' fs' s' j c"
proof -
  note role = role [unfolded same_role_def]
  consider (mid) "m = Some j" | (gone) "m \<noteq> Some j" "j \<in> set (destroys ds)" | (alive) "m \<noteq> Some j" "j \<notin> set (destroys ds)"
    by blast
  then show ?thesis
  proof cases
    case mid
    with fits obtain h where h: "conn_at s j c h" "removable s (c_channel c) h" by (auto simp: conn_fits_def)
    from per h(1) other obtain i where "conn_at s' j c (h\<lparr>ch_index := i\<rparr>)" "removable s' (c_channel c) (h\<lparr>ch_index := i\<rparr>)"
      by (rule persist_conn_at) (use h(2) in blast)
    with fits mid role show ?thesis unfolding conn_fits_def by auto
  next
    case gone
    have "channels s' f = Some (c_channel c) \<Longrightarrow> channels s f = Some (c_channel c)" for f
      using per other(1) by (simp add: persist_def)
    with fits gone role show ?thesis unfolding conn_fits_def by auto
  next
    case alive
    with fits obtain h where h: "conn_at s j c h" "connections s (c_name c) = Some j \<longrightarrow> output_waits c h"
      by (auto simp: conn_fits_def)
    from per h(1) other obtain i where i: "conn_at s' j c (h\<lparr>ch_index := i\<rparr>)"
      "ignored (c_channel c) s \<Longrightarrow> ignored (c_channel c) s'"
      by (rule persist_conn_at) blast
    moreover have "connections s' (c_name c) = Some j \<longrightarrow> output_waits c (h\<lparr>ch_index := i\<rparr>)"
      using h(2) name by (simp add: output_waits_def isWriting_def)
    ultimately show ?thesis using fits alive role name unfolding conn_fits_def by auto
  qed
qed

text \<open>The operation is on connection \<open>k\<close> with channel \<open>a\<close>; of the two one may be new.\<close>

definition apart :: "nat \<Rightarrow> nat \<Rightarrow> ('u, 'z) world_scheme \<Rightarrow> bool" where
  "apart k a s \<longleftrightarrow> (\<forall>j c. conns s j = Some c \<longrightarrow> (c_channel c = a \<longleftrightarrow> j = k))"

lemma apart_own:
  assumes "net_inv T m ds fs s" and "conns s k = Some c"
  shows "apart k (c_channel c) s"
  using conns_okD(6) [OF assms] conns_okD(6) [OF assms(1)] by (force simp: apart_def assms(2))

lemma conns_ok_step:
  assumes inv: "net_inv T m ds fs s" and per: "persist a s s'" and ap: "apart k a s"
    and others: "\<And>j. j \<noteq> k \<Longrightarrow> conns s' j = conns s j"
    and fds: "\<And>j c. j \<noteq> k \<Longrightarrow> conns s j = Some c \<Longrightarrow> c_sockfd c \<in> open_fds s'"
    and roles: "\<And>j. j \<noteq> k \<Longrightarrow> same_role j m ds (fs @ pendingFunctors s) m' ds' (fs' @ pendingFunctors s')"
    and names: "\<And>j c. j \<noteq> k \<Longrightarrow> conns s j = Some c \<Longrightarrow>
      connections s' (c_name c) = Some j \<longleftrightarrow> connections s (c_name c) = Some j"
    and own: "\<And>c. conns s' k = Some c \<Longrightarrow> c_sockfd c \<in> open_fds s' \<and> c_closeCallback c
     \<and> c_connectionCallback c \<noteq> None \<and> c_messageCallback c \<noteq> None
     \<and> (\<exists>ch. heap s' (c_channel c) = Some ch \<and> readCallback ch = Some (ConnectionRead k))
     \<and> conn_fits m' ds' fs' s' k c"
  shows "conns_ok m' ds' fs' s'"
  unfolding conns_ok_def
proof (intro allI impI)
  fix j c
  assume j: "conns s' j = Some c"
  show "c_sockfd c \<in> open_fds s' \<and> c_closeCallback c
     \<and> c_connectionCallback c \<noteq> None \<and> c_messageCallback c \<noteq> None
     \<and> (\<exists>ch. heap s' (c_channel c) = Some ch \<and> readCallback ch = Some (ConnectionRead j))
     \<and> conn_fits m' ds' fs' s' j c"
  proof (cases "j = k")
    case True
    with own j show ?thesis by simp
  next
    case False
    with j others have sj: "conns s j = Some c" by simp
    with ap False have ne: "c_channel c \<noteq> a" by (simp add: apart_def)
    note D = conns_okD [OF inv sj]
    from D(6) obtain ch where ch: "heap s (c_channel c) = Some ch" "readCallback ch = Some (ConnectionRead j)" by blast
    from per ne ch(1) obtain i where "heap s' (c_channel c) = Some (ch\<lparr>ch_index := i\<rparr>)"
      by (rule persistE) blast
    moreover have "conn_fits m' ds' fs' s' j c"
      by (rule conn_fits_persist [OF per D(5) ne j roles [OF False] names [OF False sj]])
    ultimately show ?thesis using D ch(2) fds [OF False sj] by auto
  qed
qed

lemma chans_ok_step:
  assumes inv: "net_inv T m ds fs s" and per: "persist a s s'" and ap: "apart k a s"
    and others: "\<And>j. j \<noteq> k \<Longrightarrow> conns s' j = conns s j" and fds: "open_fds s \<subseteq> open_fds s'"
    and own: "\<And>f. channels s' f = Some a \<Longrightarrow> f \<in> open_fds s' \<and> (\<exists>ch. heap s' a = Some ch \<and> chan_ok s' a ch)"
  shows "chans_ok s'"
  unfolding chans_ok_def
proof (intro allI impI)
  fix f b
  assume b: "channels s' f = Some b"
  show "f \<in> open_fds s' \<and> (\<exists>ch. heap s' b = Some ch \<and> chan_ok s' b ch)"
  proof (cases "b = a")
    case True
    with own b show ?thesis by simp
  next
    case False
    with per b have "channels s f = Some b" by (simp add: persist_def)
    moreover have "chans_ok s" using inv by (simp add: net_inv_def)
    ultimately obtain ch where ch: "f \<in> open_fds s" "heap s b = Some ch" "chan_ok s b ch"
      unfolding chans_ok_def by blast
    from per False ch(2) obtain i where i: "heap s' b = Some (ch\<lparr>ch_index := i\<rparr>)" by (rule persistE) blast
    have "conns s' j = Some c" if "conns s j = Some c" "c_channel c = b" for j c
      using that ap others [of j] False by (auto simp: apart_def)
    with ch(3) have "chan_ok s' b (ch\<lparr>ch_index := i\<rparr>)" by (fastforce simp: chan_ok_def)
    with i ch(1) fds show ?thesis by auto
  qed
qed

lemma live_step:
  assumes per: "persist a s s'" and ap: "apart k a s"
    and others: "\<And>j. j \<noteq> k \<Longrightarrow> conns s' j = conns s j"
    and names: "\<And>j c. j \<noteq> k \<Longrightarrow> conns s j = Some c \<Longrightarrow>
      connections s' (c_name c) = Some j \<longleftrightarrow> connections s (c_name c) = Some j"
    and b: "b \<noteq> a" "live b s"
  shows "live b s'"
proof -
  from b(2) obtain ch where ch: "heap s b = Some ch" "chan_ok s b ch"
    "\<forall>k c. readCallback ch = Some (ConnectionRead k) \<longrightarrow> conns s k = Some c \<longrightarrow> connections s (c_name c) = Some k"
    by (auto simp: live_def)
  from per b(1) ch(1) obtain i where i: "heap s' b = Some (ch\<lparr>ch_index := i\<rparr>)" by (rule persistE) blast
  have keep: "conns s' j = Some c \<and> (connections s (c_name c) = Some j \<longrightarrow> connections s' (c_name c) = Some j)"
    if "conns s j = Some c" "c_channel c = b" for j c
    using that ap others [of j] names [of j c] b(1) by (auto simp: apart_def)
  have "chan_ok s' b (ch\<lparr>ch_index := i\<rparr>)"
    using ch(2) keep by (fastforce simp: chan_ok_def)
  moreover have "connections s' (c_name c) = Some j"
    if r: "readCallback ch = Some (ConnectionRead j)" and "conns s' j = Some c" for j c
  proof -
    from ch(2) r obtain c0 where c0: "conns s j = Some c0" "c_channel c0 = b" by (auto simp: chan_ok_def)
    with keep that(2) have "c = c0" by auto
    with ch(3) r c0 keep show ?thesis by auto
  qed
  ultimately show ?thesis using i by (auto simp: live_def)
qed

lemma memory_ok_step:
  assumes "memory_ok s" and "persist a s s'" and "heap s a \<noteq> None" and "malloc s' = malloc s"
    and "\<And>j. conns s j = None \<Longrightarrow> conns s' j = None"
  shows "memory_ok s'"
proof -
  have "malloc s i \<noteq> a" for i using assms(1,3) by (metis memory_ok_def)
  with assms show ?thesis by (simp add: memory_ok_def persist_def)
qed

section \<open>Closing a connection\<close>

text \<open>What an open connection of the server looks like.\<close>

lemma open_conn:
  assumes inv: "net_inv T m ds fs s" and k: "conns s k = Some c" "connections s (c_name c) = Some k"
  obtains ch where "conn_at s k c ch" "output_waits c ch" "c_state c \<in> {kConnected, kDisconnecting}"
    "idle_input (c_input c)" "output_ok (c_output c)" "k \<notin> set (destroys (ds @ fs @ pendingFunctors s))" "m \<noteq> Some k"
    "chan_ok s (c_channel c) ch" "readCallback ch = Some (ConnectionRead k)"
proof -
  have "map_ok m ds s" using inv by (simp add: net_inv_def)
  with k have mk: "m \<noteq> Some k" "k \<notin> set (destroys ds)" by (auto simp: map_ok_def)
  note D = conns_okD [OF inv k(1)]
  from D(5) mk k(2) obtain ch where ch: "conn_at s k c ch" "output_waits c ch" "c_state c \<in> {kConnected, kDisconnecting}"
    "idle_input (c_input c)" "output_ok (c_output c)" "k \<notin> set (destroys (fs @ pendingFunctors s))"
    by (auto simp: conn_fits_def split: if_splits)
  have "chans_ok s" using inv by (simp add: net_inv_def)
  with conn_atD(2,3) [OF ch(1)] have "chan_ok s (c_channel c) ch" unfolding chans_ok_def by force
  with D(6) conn_atD(2) [OF ch(1)] mk ch that show thesis by auto
qed

lemma close_safe:
  assumes inv: "net_inv T None [] [] s" and k: "conns s k = Some c" "connections s (c_name c) = Some k"
  obtains s' where "handleClose (threadId s) k s = Inr s'" "net_inv T None [] [] s'"
    "\<And>b. b \<noteq> c_channel c \<Longrightarrow> live b s \<Longrightarrow> live b s'" "persist (c_channel c) s s'"
    "\<exists>ch. heap s' (c_channel c) = Some ch \<and> writeCallback ch = None"
    "pendingFunctors s' = pendingFunctors s @ [ConnectDestroyed k]" "conns s' = conns s"
    "connections s' = (connections s)(c_name c := None)" "open_fds s' = open_fds s" "same_lives s s'"
proof -
  from open_conn [OF inv k] obtain ch where ch: "conn_at s k c ch" "c_state c \<in> {kConnected, kDisconnecting}"
    "idle_input (c_input c)" "output_ok (c_output c)" "k \<notin> set (destroys (pendingFunctors s))"
    "chan_ok s (c_channel c) ch" "readCallback ch = Some (ConnectionRead k)" by auto
  let ?a = "c_channel c" and ?t = "threadId s"
  have ok: "poller_ok s" using inv by (simp add: net_inv_def)
  let ?s1 = "interest_set DisableAll ?a ch s"
  let ?s2 = "?s1\<lparr>connections := (connections s)(c_name c := None)\<rparr>"
  define s' where "s' = queueInLoop ?t (ConnectDestroyed k) ?s2"
  let ?ch = "ch\<lparr>ch_events := kNoneEvent\<rparr>"
  note D = conns_okD [OF inv k(1)] and w = conn_atD(5) [OF ch(1)]
  have F: "heap s' = heap ?s1" "pollfds s' = pollfds ?s1" "channels s' = channels ?s1" "loopId s' = loopId ?s1"
    "conns s' = conns s" "connections s' = (connections s)(c_name c := None)"
    "pendingFunctors s' = pendingFunctors s @ [ConnectDestroyed k]" "open_fds s' = open_fds s" "malloc s' = malloc s"
    "timers s' = timers s" "nextConnId s' = nextConnId s" "server_name s' = server_name s"
    "server_callbacks s' = server_callbacks s" "newConnectionCallback s' = newConnectionCallback s"
    "clock s' = clock s" "accepts s' = accepts s" "reads s' = reads s" "threadId s' = threadId s"
    by (simp_all add: s'_def queueInLoop_def push_functor_def wakeup_def Let_def)
  have at: "conn_at s' k c ?ch"
    using conn_at_interest_set(1) [where oper = DisableAll, OF ch(1)] F by (simp add: conn_at_def)
  have run: "handleClose ?t k s = Inr s'"
    using ch(2) D(2) conn_atD(7) [OF ch(1)] k conn_interest_eq [OF ok ch(1), of ?t DisableAll]
    by (auto simp: handleClose_def in_loop_thread removeConnection_def Let_def s'_def get_conn_def)
  have per: "persist ?a s s'"
    using persist_interest [OF ok w, of DisableAll] persist_cong(1) [of s' ?s1] F by metis
  have ap: "apart k ?a s" by (rule apart_own [OF inv k(1)])
  have ign: "ignored ?a s'"
    using ignored_when_none [OF ok conn_atD(6) [OF ch(1)], of DisableAll] poller_cong(6) [of s' ?s1 ?a] F by simp
  have names: "connections s' (c_name d) = Some j \<longleftrightarrow> connections s (c_name d) = Some j"
    if "j \<noteq> k" for j d using that k(2) by (auto simp: F)
  have "conn_fits None [] [] s' k c"
    using at ch(2-4) ign by (auto simp: conn_fits_def F)
  have conns: "conns_ok None [] [] s'"
  proof (rule conns_ok_step [OF inv per ap])
    show "c_sockfd d \<in> open_fds s'" if "conns s j = Some d" for j d using conns_okD(1) [OF inv that] by (simp add: F)
    show "c_sockfd d \<in> open_fds s' \<and> c_closeCallback d \<and> c_connectionCallback d \<noteq> None \<and> c_messageCallback d \<noteq> None
       \<and> (\<exists>ch. heap s' (c_channel d) = Some ch \<and> readCallback ch = Some (ConnectionRead k)) \<and> conn_fits None [] [] s' k d"
      if "conns s' k = Some d" for d
      using that D k(1) conn_atD(2) [OF at] ch(7) \<open>conn_fits None [] [] s' k c\<close> by (simp add: F)
  qed (simp_all add: F(5) same_role_def F(7) names)
  have ch': "chan_ok s' ?a ?ch" using ch(6) by (simp add: chan_ok_def F)
  have chans: "chans_ok s'"
  proof (rule chans_ok_step [OF inv per ap])
    show "f \<in> open_fds s' \<and> (\<exists>ch. heap s' ?a = Some ch \<and> chan_ok s' ?a ch)" if "channels s' f = Some ?a" for f
    proof -
      have "channels s f = Some ?a"
        using that conn_at_interest_set(2) [where oper = DisableAll, OF ch(1)] by (simp add: F)
      with inv have "f \<in> open_fds s" by (auto simp: net_inv_def chans_ok_def)
      with conn_atD(2) [OF at] ch' show ?thesis by (auto simp: F)
    qed
  qed (simp_all add: F)
  have "memory_ok s'"
  proof (rule memory_ok_step [OF _ per])
    show "memory_ok s" using inv by (simp add: net_inv_def)
  qed (use conn_atD(2) [OF ch(1)] in \<open>simp_all add: F(5,9)\<close>)
  moreover have "fds_ok s'"
    by (rule fds_ok_cong [of s])
      (use inv conn_at_interest_set(2) [where oper = DisableAll, OF ch(1)] in \<open>auto simp: net_inv_def F\<close>)
  moreover have "poller_ok s'" using interest_set_ok [OF ok w, of DisableAll] poller_cong(2) [of s' ?s1] F by simp
  moreover have "map_ok None [] s'"
    using inv by (auto simp: net_inv_def map_ok_def F split: if_splits)
  moreover have "queue_ok None [] [] s'"
    using inv ch(5) k(1) by (auto simp: net_inv_def queue_ok_def F)
  moreover have "kernel_ok s'" "clock_ok s'" using inv by (simp_all add: net_inv_def kernel_ok_def clock_ok_def F)
  ultimately have "net_inv T None [] [] s'"
    using inv conns chans by (simp add: net_inv_def F)
  moreover have "live b s'" if "b \<noteq> ?a" "live b s" for b
    by (rule live_step [OF per ap _ _ that]) (simp_all add: F(5) names)
  moreover have "\<exists>ch. heap s' ?a = Some ch \<and> writeCallback ch = None"
    using conn_atD(2) [OF at] ch' by (auto simp: chan_ok_def)
  moreover have "same_lives s s'" by (simp add: same_lives_def s'_def queueInLoop_def push_functor_def wakeup_def Let_def)
  ultimately show thesis using that run per F(5-8) by blast
qed

end
