(* ===== verification/ServerLife.thy ===== *)
theory ServerLife
  imports ServerSteps
begin

text \<open>
  The contract between the server and the functions of its user, and, for users that keep it, the
  steps of the loop: destroying, reading, accepting.
\<close>

section \<open>The contract\<close>

text \<open>The ways in which the server's process may end: more than \<open>2^31 - 2\<close> connections in its life, or
  an error of \<open>getsockname\<close> or \<open>accept\<close> after which the wrappers call \<open>abort()\<close>.\<close>

definition server_faults :: "fault set" where
  "server_faults = {Undefined ''signed 32-bit overflow'', Aborted ''sockets::getLocalAddr'',
     Aborted ''unexpected error of ::accept'', Aborted ''unknown error of ::accept''}"

definition calm :: "('u, 'z) world_scheme \<Rightarrow> ('u, 'z) world_scheme \<Rightarrow> bool" where
  "calm s s' \<longleftrightarrow> (\<forall>b. live b s \<longrightarrow> live b s') \<and> (\<forall>b ch. heap s b = Some ch \<longrightarrow>
     (\<exists>ch'. heap s' b = Some ch' \<and> writeCallback ch' = writeCallback ch))"

text \<open>The connection \<open>c\<close> has been made since \<open>s0\<close>.\<close>

definition opened :: "('u, 'z) world_scheme \<Rightarrow> nat \<Rightarrow> 'u tcpconn \<Rightarrow> ('u, 'z) world_scheme \<Rightarrow> bool" where
  "opened s0 k c s \<longleftrightarrow> k = malloc s0 0 \<and> conns s0 k = None \<and> conns s = (conns s0)(k \<mapsto> c)
     \<and> c_sockfd c \<notin> open_fds s0 \<and> open_fds s = insert (c_sockfd c) (open_fds s0)
     \<and> malloc s = (\<lambda>i. malloc s0 (Suc (Suc i))) \<and> timers s = timers s0 \<and> timer_heap s = timer_heap s0
     \<and> timerfd_due s = timerfd_due s0 \<and> timerfd s = timerfd s0 \<and> acceptFd s = acceptFd s0 \<and> wire s = wire s0
     \<and> world.more s = world.more s0"

lemma opened_timers: "opened s k c s' \<Longrightarrow> timers s' = timers s" "opened s k c s' \<Longrightarrow> timer_heap s' = timer_heap s"
  "opened s k c s' \<Longrightarrow> malloc s' = (\<lambda>i. malloc s (Suc (Suc i)))" "opened s k c s' \<Longrightarrow> timerfd_due s' = timerfd_due s"
  by (simp_all add: opened_def)

lemma opened_fds: "opened s k c s' \<Longrightarrow> timerfd s' = timerfd s" "opened s k c s' \<Longrightarrow> acceptFd s' = acceptFd s"
  by (simp_all add: opened_def)

text \<open>
  What the server relies on when it calls the user: on a new connection, on received data (\<open>b\<close>: the
  input buffer that holds it), on a connection that goes away, in a functor of the user's, and on an alarm of the timers. \<open>G\<close> is an
  invariant of the user's about the connections, the timers and the user's own state, which the server
  keeps; \<open>E\<close> holds the faults that may end the process.
\<close>

locale server_users =
  fixes P :: "('u, 'z) program" and T :: int and G :: "('u, 'z) world_scheme \<Rightarrow> bool" and E :: "fault set"
  assumes faults: "server_faults \<subseteq> E"
    and user_task: "net_inv T None ds fs s \<Longrightarrow> G s \<Longrightarrow>
      safeR E (\<lambda>s'. net_inv T None ds fs s' \<and> G s') (run_user P u s)"
    and up: "net_inv T None [] [] s \<Longrightarrow> conns s k = Some c \<Longrightarrow> c_state c = kConnected \<Longrightarrow>
      connections s (c_name c) = Some k \<Longrightarrow> new_buffer = Inr (c_output c) \<Longrightarrow> opened s0 k c s \<Longrightarrow> G s0 \<Longrightarrow>
      safeR E (\<lambda>s'. (net_inv T None [] [] s' \<and> calm s s') \<and> G s') (on_connection P u k s)"
    and message: "net_inv T None [] [] s \<Longrightarrow> conns s k = Some c \<Longrightarrow> connections s (c_name c) = Some k \<Longrightarrow>
      buf_ok b \<Longrightarrow> length (storage b) \<le> 2 ^ 31 \<Longrightarrow> G s \<Longrightarrow>
      safeR E (\<lambda>s'. (net_inv T None [] [] s' \<and> calm s s') \<and> G s')
        (on_message P u k ts (put_conn k (c\<lparr>c_input := b\<rparr>) s))"
    and down: "net_inv T (Some k) ds fs s \<Longrightarrow> conns s0 k = Some c \<Longrightarrow> c_state c \<in> {kConnected, kDisconnecting} \<Longrightarrow>
      same_lives (put_conn k (c\<lparr>c_state := kDisconnected\<rparr>) s0) s \<Longrightarrow> G s0 \<Longrightarrow>
      safeR E (\<lambda>s'. net_inv T (Some k) ds fs s' \<and> G s') (on_connection P u k s)"
    and alarm: "net_inv T None [] [] s \<Longrightarrow> G s \<Longrightarrow>
      safeR E (\<lambda>s'. (net_inv T None [] [] s' \<and> calm s s') \<and> G s') (TimerQueue_handleRead (run_user P) T s)"
    and destroyed: "G s \<Longrightarrow> conns s k = Some c \<Longrightarrow> c_state c = kDisconnected \<Longrightarrow> G (TcpConnection_dtor k s)"
    and kept: "G s \<Longrightarrow> same_lives s s' \<Longrightarrow> G s'"

section \<open>Destroying a connection\<close>

text \<open>A connection whose functor is next: closed, still registered, its poll entry ignored.\<close>

lemma closing_conn:
  assumes inv: "net_inv T None ds (ConnectDestroyed k # fs) s"
  obtains c ch where "conns s k = Some c" "conn_at s k c ch" "c_state c \<in> {kConnected, kDisconnecting}"
    "connections s (c_name c) \<noteq> Some k" "k \<notin> set (destroys (ds @ fs @ pendingFunctors s))" "chan_ok s (c_channel c) ch"
    "readCallback ch = Some (ConnectionRead k)"
proof -
  have q: "queue_ok None ds (ConnectDestroyed k # fs) s" using inv by (simp add: net_inv_def)
  then obtain c where c: "conns s k = Some c" by (auto simp: queue_ok_def)
  from q have k: "k \<notin> set (destroys (ds @ fs @ pendingFunctors s))" by (auto simp: queue_ok_def)
  note D = conns_okD [OF inv c]
  from D(5) k obtain ch where ch: "conn_at s k c ch" "c_state c \<in> {kConnected, kDisconnecting}"
    "connections s (c_name c) \<noteq> Some k" by (auto simp: conn_fits_def split: if_splits)
  have "chans_ok s" using inv by (simp add: net_inv_def)
  with conn_atD(2,3) [OF ch(1)] have "chan_ok s (c_channel c) ch" unfolding chans_ok_def by force
  with D(6) conn_atD(2) [OF ch(1)] ch c k that show thesis by auto
qed

text \<open>The first half of \<open>connectDestroyed\<close>: disconnected, and its entry free to be removed.\<close>

definition half_destroyed :: "nat \<Rightarrow> 'u tcpconn \<Rightarrow> callback channel \<Rightarrow> ('u, 'z) world_scheme \<Rightarrow> ('u, 'z) world_scheme" where
  "half_destroyed k c ch s = interest_set DisableAll (c_channel c) ch (put_conn k (c\<lparr>c_state := kDisconnected\<rparr>) s)"

lemma half_destroyed_ok:
  assumes inv: "net_inv T None ds (ConnectDestroyed k # fs) s" and c: "conns s k = Some c" "conn_at s k c ch"
    "connections s (c_name c) \<noteq> Some k" "k \<notin> set (destroys (ds @ fs @ pendingFunctors s))"
    "chan_ok s (c_channel c) ch" "readCallback ch = Some (ConnectionRead k)"
  shows "net_inv T (Some k) (ds @ [ConnectDestroyed k]) fs (half_destroyed k c ch s)"
proof -
  let ?c = "c\<lparr>c_state := kDisconnected\<rparr>" and ?a = "c_channel c" and ?ds = "ds @ [ConnectDestroyed k]"
  let ?s1 = "put_conn k ?c s" and ?ch = "ch\<lparr>ch_events := kNoneEvent\<rparr>"
  let ?s = "half_destroyed k c ch s"
  have ok: "poller_ok s" using inv by (simp add: net_inv_def)
  have at1: "conn_at ?s1 k ?c ch" using c(2) by (simp add: conn_at_def)
  have ok1: "poller_ok ?s1" using ok poller_cong(2) [of ?s1 s] by simp
  have s: "?s = interest_set DisableAll (c_channel ?c) ch ?s1" by (simp add: half_destroyed_def)
  note at = conn_at_interest_set [where oper = DisableAll, OF at1, folded s]
  have F: "conns ?s = (conns s)(k \<mapsto> ?c)" "connections ?s = connections s" "pendingFunctors ?s = pendingFunctors s"
    "open_fds ?s = open_fds s" "malloc ?s = malloc s" "timers ?s = timers s" "nextConnId ?s = nextConnId s"
    "server_name ?s = server_name s" "server_callbacks ?s = server_callbacks s" "loopId ?s = loopId s"
    "newConnectionCallback ?s = newConnectionCallback s" "clock ?s = clock s" "accepts ?s = accepts s"
    "reads ?s = reads s" "threadId ?s = threadId s"
    by (simp_all add: half_destroyed_def)
  have at': "conn_at ?s k ?c ?ch" using at(1) by simp
  have per: "persist ?a s ?s"
    using persist_interest [OF ok1 conn_atD(5) [OF at1], of DisableAll] persist_cong(2) [of ?s1 s] s by simp
  note ap = apart_own [OF inv c(1)]
  have "ignored ?a ?s"
    using ignored_when_none [OF ok1 conn_atD(6) [OF at1], of DisableAll] s by simp
  then have rm: "removable ?s ?a ?ch"
    using conn_atD(2,6) [OF at'] at' by (auto simp: removable_def ignored_def registered_def isNoneEvent_def conn_at_def)
  then have fits: "conn_fits (Some k) ?ds fs ?s k ?c" using at' by (auto simp: conn_fits_def)
  have chn: "chan_ok ?s ?a ?ch" using c(1,5) by (auto simp: chan_ok_def F(1))
  have "conns_ok (Some k) ?ds fs ?s"
  proof (rule conns_ok_step [OF inv per ap])
    show "c_sockfd d \<in> open_fds ?s" if "conns s j = Some d" for j d using conns_okD(1) [OF inv that] by (simp add: F)
    show "c_sockfd d \<in> open_fds ?s \<and> c_closeCallback d \<and> c_connectionCallback d \<noteq> None \<and> c_messageCallback d \<noteq> None
       \<and> (\<exists>ch. heap ?s (c_channel d) = Some ch \<and> readCallback ch = Some (ConnectionRead k)) \<and> conn_fits (Some k) ?ds fs ?s k d"
      if "conns ?s k = Some d" for d
      using that conns_okD [OF inv c(1)] conn_atD(2) [OF at'] c(6) fits by (auto simp: F)
  qed (auto simp: same_role_def F)
  moreover have "chans_ok ?s"
  proof (rule chans_ok_step [OF inv per ap])
    show "f \<in> open_fds ?s \<and> (\<exists>ch. heap ?s ?a = Some ch \<and> chan_ok ?s ?a ch)" if "channels ?s f = Some ?a" for f
    proof -
      have "channels s f = Some ?a" using that at(2) by simp
      with inv have "f \<in> open_fds s" by (auto simp: net_inv_def chans_ok_def)
      with conn_atD(2) [OF at'] chn show ?thesis by (auto simp: F)
    qed
  qed (simp_all add: F)
  moreover have "memory_ok ?s"
  proof (rule memory_ok_step [OF _ per])
    show "memory_ok s" using inv by (simp add: net_inv_def)
    show "conns ?s j = None" if "conns s j = None" for j using that c(1) by (auto simp: F)
  qed (use conn_atD(2) [OF c(2)] in \<open>simp_all add: F(5)\<close>)
  moreover have "fds_ok ?s"
    by (rule fds_ok_cong [of s]) (use inv at(2) c(1) in \<open>auto simp: net_inv_def F split: if_splits\<close>)
  moreover have "poller_ok ?s" unfolding s using ok1 conn_atD(5) [OF at1] by (rule interest_set_ok)
  moreover have "map_ok (Some k) ?ds ?s"
    using inv c(1,3) by (fastforce simp: net_inv_def map_ok_def F)
  moreover have "queue_ok (Some k) ?ds fs ?s"
    using inv by (auto simp: net_inv_def queue_ok_def F)
  moreover have "kernel_ok ?s" "clock_ok ?s" using inv by (simp_all add: net_inv_def kernel_ok_def clock_ok_def F)
  ultimately show ?thesis using inv by (simp add: net_inv_def F)
qed

text \<open>The second half: out of the poller.\<close>

lemma remove_safe:
  assumes inv: "net_inv T (Some k) ds fs s"
  obtains c s' where "conns s k = Some c" "EventLoop_removeChannel T (c_channel c) s = Inr s'"
    "net_inv T None ds fs s'" "same_lives s s'"
proof -
  have q: "k \<in> set (destroys ds)" "conns s k \<noteq> None"
    using inv by (auto simp: net_inv_def queue_ok_def)
  then obtain c where c: "conns s k = Some c" by blast
  note D = conns_okD [OF inv c]
  let ?a = "c_channel c"
  from D(5) obtain ch where ch: "c_state c = kDisconnected" "conn_at s k c ch" "removable s ?a ch"
    by (auto simp: conn_fits_def)
  have ok: "poller_ok s" and t: "threadId s = T" using inv by (simp_all add: net_inv_def)
  from ok ch(3) t obtain s' where r: "EventLoop_removeChannel T ?a s = Inr s'" "poller_ok s'"
    "channels s' = (channels s)(ch_fd ch := None)" "heap s' ?a = Some ch"
    "loopId s' = loopId s" "threadId s' = threadId s" "poller.more s' = poller.more s" by (rule remove_spec)
  note F = more_eqD [OF r(7)]
  have per: "persist ?a s s'" by (rule persist_remove [OF ok ch(3) t r(1)])
  note ap = apart_own [OF inv c]
  have "conns_ok None ds fs s'"
  proof (rule conns_ok_step [OF inv per ap])
    show "c_sockfd d \<in> open_fds s'" if "conns s j = Some d" for j d using conns_okD(1) [OF inv that] by (simp add: F)
    show "c_sockfd d \<in> open_fds s' \<and> c_closeCallback d \<and> c_connectionCallback d \<noteq> None \<and> c_messageCallback d \<noteq> None
       \<and> (\<exists>ch. heap s' (c_channel d) = Some ch \<and> readCallback ch = Some (ConnectionRead k)) \<and> conn_fits None ds fs s' k d"
      if "conns s' k = Some d" for d
      using that c D(1-4,6) q(1) ch(1) r(3,4) conn_atD(2,4) [OF ch(2)] by (auto simp: F conn_fits_def)
  qed (simp_all add: F same_role_def)
  moreover have "chans_ok s'"
  proof (rule chans_ok_step [OF inv per ap])
    show "f \<in> open_fds s' \<and> (\<exists>ch. heap s' ?a = Some ch \<and> chan_ok s' ?a ch)" if "channels s' f = Some ?a" for f
    proof -
      have "channels s f = Some ?a" using that r(3) by (auto split: if_splits)
      moreover have "chans_ok s" using inv by (simp add: net_inv_def)
      ultimately have "f \<in> open_fds s" "chan_ok s ?a ch"
        using conn_atD(2) [OF ch(2)] unfolding chans_ok_def by force+
      then show ?thesis using r(4) by (auto simp: F chan_ok_def)
    qed
  qed (simp_all add: F)
  moreover have "fds_ok s'"
    by (rule fds_ok_cong [of s]) (use inv r(3) in \<open>auto simp: net_inv_def F split: if_splits\<close>)
  moreover have "memory_ok s'"
  proof (rule memory_ok_step [OF _ per])
    show "memory_ok s" using inv by (simp add: net_inv_def)
  qed (use conn_atD(2) [OF ch(2)] in \<open>simp_all add: F\<close>)
  moreover have "map_ok None ds s'" using inv by (auto simp: net_inv_def map_ok_def F)
  moreover have "queue_ok None ds fs s'" using inv by (auto simp: net_inv_def queue_ok_def F)
  moreover have "kernel_ok s'" "clock_ok s'" using inv by (simp_all add: net_inv_def kernel_ok_def clock_ok_def F)
  ultimately have "net_inv T None ds fs s'" using inv r(2,6) by (simp add: net_inv_def F)
  moreover have "same_lives s s'" using r(7) F by (simp add: same_lives_def)
  ultimately show thesis using that c r(1) by blast
qed

text \<open>Destroying the functor drops the last reference to its connection.\<close>

lemma release_safe:
  assumes inv: "net_inv T None (f # ds) [] s"
  shows "net_inv T None ds [] (release_task f s)"
proof (cases "\<exists>k. f = ConnectDestroyed k")
  case False
  then have "destroys (f # ds) = destroys ds" by (auto simp: destroys_def split: task.splits)
  moreover from this have "conn_fits None (f # ds) [] s = conn_fits None ds [] s"
    by (intro ext) (simp add: conn_fits_def)
  moreover have "release_task f s = s" using False by (auto simp: release_task_def split: task.splits)
  moreover have "destroys (f # ds @ pendingFunctors s) = destroys (ds @ pendingFunctors s)"
    using False by (auto simp: destroys_def split: task.splits)
  ultimately show ?thesis using inv by (simp add: net_inv_def conns_ok_def map_ok_def queue_ok_def)
next
  case True
  then obtain k where f: "f = ConnectDestroyed k" by blast
  have q: "queue_ok None (f # ds) [] s" using inv by (simp add: net_inv_def)
  then obtain c where c: "conns s k = Some c" by (auto simp: queue_ok_def f)
  have k: "k \<notin> set (destroys ds)" "k \<notin> set (destroys (pendingFunctors s))" using q by (auto simp: queue_ok_def f)
  define s' where "s' = release_task f s"
  have s': "s' = s\<lparr>conns := (conns s)(k := None), open_fds := open_fds s - {c_sockfd c}\<rparr>"
    by (simp add: s'_def release_task_def f TcpConnection_dtor_def c)
  have F: "conns s' = (conns s)(k := None)" "open_fds s' = open_fds s - {c_sockfd c}" "heap s' = heap s"
    "pollfds s' = pollfds s" "channels s' = channels s" "loopId s' = loopId s" "threadId s' = threadId s"
    "connections s' = connections s" "pendingFunctors s' = pendingFunctors s" "malloc s' = malloc s"
    "timers s' = timers s" "nextConnId s' = nextConnId s" "server_name s' = server_name s"
    "server_callbacks s' = server_callbacks s" "newConnectionCallback s' = newConnectionCallback s"
    "clock s' = clock s" "accepts s' = accepts s" "reads s' = reads s"
    by (simp_all add: s')
  note P = poller_cong [OF F(3-6)]
  from conns_okD(5) [OF inv c] have gone: "channels s (c_sockfd c) \<noteq> Some (c_channel c)"
    by (simp add: conn_fits_def f)
  have fds: "fds_ok s" using inv by (simp add: net_inv_def)
  then have free: "channels s (c_sockfd c) = None" using gone fds_okD(2) [OF fds c] by (cases "channels s (c_sockfd c)") auto
  have other: "c_sockfd d \<noteq> c_sockfd c" if "conns s j = Some d" "j \<noteq> k" for j d
    using fds_okD(1) [OF fds that(1) c] that(2) by blast
  have "conns_ok None ds [] s'"
    unfolding conns_ok_def
  proof (intro allI impI)
    fix j d
    assume "conns s' j = Some d"
    then have j: "conns s j = Some d" "j \<noteq> k" by (auto simp: F split: if_splits)
    have at: "conn_at s' j = conn_at s j" by (rule conn_at_cong) (use j in \<open>simp_all add: F\<close>)
    have "removable s' = removable s" by (intro ext) (simp add: removable_def P F)
    with conns_okD(5) [OF inv j(1)] j(2) at have "conn_fits None ds [] s' j d"
      by (auto simp: conn_fits_def f P F)
    with conns_okD [OF inv j(1)] other [OF j]
    show "c_sockfd d \<in> open_fds s' \<and> c_closeCallback d \<and> c_connectionCallback d \<noteq> None \<and> c_messageCallback d \<noteq> None
       \<and> (\<exists>ch. heap s' (c_channel d) = Some ch \<and> readCallback ch = Some (ConnectionRead j)) \<and> conn_fits None ds [] s' j d"
      by (simp add: F)
  qed
  moreover have "chans_ok s'"
    unfolding chans_ok_def
  proof (intro allI impI)
    fix g a
    assume g: "channels s' g = Some a"
    then have a: "channels s g = Some a" by (simp add: F)
    with free have "g \<noteq> c_sockfd c" by auto
    moreover have "chans_ok s" using inv by (simp add: net_inv_def)
    with a obtain ch where ch: "g \<in> open_fds s" "heap s a = Some ch" "chan_ok s a ch" unfolding chans_ok_def by blast
    moreover have "readCallback ch \<noteq> Some (ConnectionRead k)"
    proof
      assume "readCallback ch = Some (ConnectionRead k)"
      with ch(3) c have "a = c_channel c" by (auto simp: chan_ok_def)
      with fds_okD(3) [OF fds c] a \<open>g \<noteq> c_sockfd c\<close> show False by blast
    qed
    ultimately show "g \<in> open_fds s' \<and> (\<exists>ch. heap s' a = Some ch \<and> chan_ok s' a ch)"
      by (auto simp: F chan_ok_def)
  qed
  moreover have "fds_ok s'" by (rule fds_ok_cong [OF fds]) (auto simp: F split: if_splits)
  moreover have "memory_ok s'" using inv by (auto simp: net_inv_def memory_ok_def F)
  moreover have "map_ok None ds s'" using inv by (fastforce simp: net_inv_def map_ok_def F f)
  moreover have "queue_ok None ds [] s'" using q k by (auto simp: queue_ok_def F f)
  moreover have "kernel_ok s'" "clock_ok s'" using inv by (simp_all add: net_inv_def kernel_ok_def clock_ok_def F)
  moreover have "poller_ok s'" using inv P by (simp add: net_inv_def)
  ultimately show ?thesis using inv unfolding s'_def [symmetric] by (simp add: net_inv_def F)
qed

end
