(* ===== verification/ServerEvents.thy ===== *)
theory ServerEvents
  imports ServerLife
begin

text \<open>
  What the loop calls, on a server: a channel that has only a read callback, the wake-up, the
  acceptor with a new connection, a connection with data, end of stream or an error.
\<close>

section \<open>A channel with a read callback only\<close>

lemma handleEvent_safe:
  assumes ch: "heap s a = Some ch" "closeCallback ch = None" "errorCallback ch = None" "writeCallback ch = None"
      "readCallback ch = Some cb"
    and start: "I s" and closed: "\<And>s1 s2. I s1 \<Longrightarrow> same_slots s1 s2 \<Longrightarrow> I s2"
    and body: "\<And>s1. same_slots s s1 \<Longrightarrow> I s1 \<Longrightarrow>
      safeR E (\<lambda>s'. I s' \<and> (\<exists>ch'. heap s' a = Some ch' \<and> writeCallback ch' = None)) (call cb ts s1)"
  shows "safeR E I (handleEvent call ts a s)"
proof -
  let ?Q = "\<lambda>s'. I s' \<and> (\<exists>ch'. heap s' a = Some ch' \<and> writeCallback ch' = None)"
  let ?ch = "ch\<lparr>eventHandling := True\<rparr>" and ?s = "put_channel a (ch\<lparr>eventHandling := True\<rparr>) s"
  have same: "same_slots s ?s" by (rule same_slots_put_channel [OF ch(1)]) (simp add: same_interest_def)
  have h: "heap ?s a = Some ?ch" by (simp add: put_channel_def)
  then have get: "get_channel a ?s = Inr ?ch" by (simp add: get_channel_def)
  have "safeR E ?Q (fire call ts a (read_ready, readCallback) ?s)"
    using body [OF same closed [OF start same]] closed [OF start same] h ch by (simp add: fire_def get)
  moreover have "fire call ts a (hangup_ready, closeCallback) ?s = Inr ?s"
    "fire call ts a (error_ready, errorCallback) ?s = Inr ?s" using ch by (simp_all add: fire_def get)
  moreover have "fire call ts a (write_ready, writeCallback) s' = Inr s'" if "?Q s'" for s'
    using that by (auto simp: fire_def get_channel_def)
  ultimately have "safeR E ?Q (foldR (fire call ts a) handlers ?s)"
    unfolding handlers_def by (auto elim!: safeR_mono)
  moreover have "safeR E I (modify_channel a (\<lambda>c. c\<lparr>eventHandling := False\<rparr>) s')" if "?Q s'" for s'
  proof -
    from that obtain ch' where h': "heap s' a = Some ch'" by blast
    then have "same_slots s' (put_channel a (ch'\<lparr>eventHandling := False\<rparr>) s')"
      by (rule same_slots_put_channel) (simp add: same_interest_def)
    with closed that h' show ?thesis by auto
  qed
  ultimately show ?thesis
    by (simp add: handleEvent_def ch(1)) (erule safeR_mono, blast)
qed

section \<open>The name of a connection\<close>

lemma conn_name_inj:
  assumes "conn_name nm i = conn_name nm j" "1 \<le> i" "i < 2 ^ 31" "1 \<le> j" "j < 2 ^ 31"
  shows "i = j"
proof -
  have "length (decimal (nat n)) \<le> 10" if "1 \<le> n" "n < 2 ^ 31" for n :: int
    by (rule length_decimal) (use that in simp_all)
  then have "snprintf 32 (''#'' @ fmt_d n) = ''#'' @ decimal (nat n)" if "1 \<le> n" "n < 2 ^ 31" for n :: int
    using that by (force simp: fmt_d_def intro!: snprintf_whole)
  with assms show ?thesis by (simp add: conn_name_def)
qed

section \<open>A new connection\<close>

definition fresh_conn :: "sockaddr_in \<Rightarrow> sockaddr_in \<Rightarrow> int \<Rightarrow> ('u, 'z) world_scheme \<Rightarrow> 'u tcpconn" where
  "fresh_conn la pa f s = (let b = \<lparr>storage = replicate 1032 (CHR 0x00), readerIndex = 8, writerIndex = 8\<rparr> in
     \<lparr>c_name = conn_name (server_name s) (nextConnId s), c_state = kConnected, c_sockfd = f, c_channel = malloc s (Suc 0),
      c_localAddr = la, c_peerAddr = pa, c_connectionCallback = fst (server_callbacks s),
      c_messageCallback = snd (server_callbacks s), c_closeCallback = True, c_input = b, c_output = b\<rparr>)"

definition conn_chan :: "int \<Rightarrow> ('u, 'z) world_scheme \<Rightarrow> callback channel" where
  "conn_chan f s = setReadCallBack (ConnectionRead (malloc s 0)) (new_channel (loopId s) f)"

text \<open>Before the channel is enabled, and after.\<close>

definition registering :: "sockaddr_in \<Rightarrow> sockaddr_in \<Rightarrow> int \<Rightarrow> ('u, 'z) world_scheme \<Rightarrow> ('u, 'z) world_scheme" where
  "registering la pa f s = s\<lparr>nextConnId := nextConnId s + 1, local_addrs := \<lambda>i. local_addrs s (Suc i),
     malloc := \<lambda>i. malloc s (Suc (Suc i)), heap := (heap s)(malloc s (Suc 0) \<mapsto> conn_chan f s),
     conns := (conns s)(malloc s 0 \<mapsto> fresh_conn la pa f s),
     connections := (connections s)(conn_name (server_name s) (nextConnId s) \<mapsto> malloc s 0)\<rparr>"

definition established :: "sockaddr_in \<Rightarrow> sockaddr_in \<Rightarrow> int \<Rightarrow> ('u, 'z) world_scheme \<Rightarrow> ('u, 'z) world_scheme" where
  "established la pa f s = interest_set EnableReading (malloc s (Suc 0)) (conn_chan f s) (registering la pa f s)"

lemma put_new_channel_ok:
  assumes ok: "poller_ok s" and a: "heap s a = None" and ev: "ch_events c = 0"
  shows "poller_ok (put_channel a c s)"
proof -
  have "slot_ok (put_channel a c s) i b d" if "slot_ok s i b d" for i b d
    using that a by (auto simp: slot_ok_def put_channel_def)
  moreover have "ch_events d \<in> legal_events" if "heap (put_channel a c s) b = Some d" for b d
    using that ok ev by (auto simp: put_channel_def poller_ok_def legal_events_def kNoneEvent_def split: if_splits)
  ultimately show ?thesis using ok unfolding poller_ok_def by (simp add: put_channel_def) blast
qed

lemma newConnection_eq:
  assumes t: "threadId s = T" and id: "nextConnId s < 2 ^ 31 - 1" and la: "local_addrs s 0 = Success la"
    and ok: "poller_ok (registering la pa f s)" and w: "watchable (registering la pa f s) (malloc s (Suc 0)) (conn_chan f s)"
    and u: "fst (server_callbacks s) = Some u"
  shows "newConnection P T f pa s = on_connection P u (malloc s 0) (established la pa f s)"
proof -
  let ?r = "registering la pa f s"
  have asrt: "assertInLoopThread T s = Inr ()" by (rule in_loop_thread [OF t])
  define s7 where "s7 = ?r\<lparr>conns := (conns s)(malloc s 0 \<mapsto> (fresh_conn la pa f s)\<lparr>c_state := kConnecting\<rparr>)\<rparr>"
  have "newConnection P T f pa s = connectEstablished P T (malloc s 0) s7"
    using id la by (simp add: newConnection_def asrt getLocalAddr_def or_die_def new_address_def Let_def
        TcpConnection_ctor_def new_buffer_eq get_conn_def put_conn_def put_channel_def s7_def registering_def
        fresh_conn_def conn_chan_def)
  moreover have "threadId s7 = T" using t by (simp add: s7_def registering_def)
  then have "assertInLoopThread T s7 = Inr ()" by (rule in_loop_thread)
  moreover have "setState kConnected (malloc s 0) s7 = Inr ?r"
    by (simp add: setState_def get_conn_def put_conn_def s7_def registering_def fresh_conn_def Let_def)
  moreover have "Channel_set_interest T EnableReading (malloc s (Suc 0)) ?r = Inr (established la pa f s)"
    unfolding established_def by (rule set_interest_eq [OF ok w]) (simp add: t registering_def)
  moreover have "get_conn (malloc s 0) ?r = Inr (fresh_conn la pa f s)"
    "get_conn (malloc s 0) (established la pa f s) = Inr (fresh_conn la pa f s)"
    by (simp_all add: get_conn_def established_def) (simp_all add: registering_def)
  ultimately show ?thesis
    using u by (simp add: connectEstablished_def conn_interest_def connectionCallback_def get_conn_def s7_def)
      (simp add: fresh_conn_def Let_def)
qed

text \<open>Before it, the descriptor \<open>f\<close> is open and nobody's.\<close>

lemma registering_ready:
  assumes inv: "net_inv T None [] [] s" and f: "0 \<le> f" "channels s f = None"
  shows "poller_ok (registering la pa f s)" "watchable (registering la pa f s) (malloc s (Suc 0)) (conn_chan f s)"
    "conns s (malloc s 0) = None" "heap s (malloc s (Suc 0)) = None" "persist (malloc s (Suc 0)) s (established la pa f s)"
proof -
  show mem: "conns s (malloc s 0) = None" "heap s (malloc s (Suc 0)) = None"
    using inv by (simp_all add: net_inv_def memory_ok_def)
  let ?r = "registering la pa f s" and ?p = "put_channel (malloc s (Suc 0)) (conn_chan f s) s"
  have cong: "heap ?r = heap ?p" "pollfds ?r = pollfds ?p" "channels ?r = channels ?p" "loopId ?r = loopId ?p"
    by (simp_all add: registering_def put_channel_def)
  have "poller_ok ?p"
    using inv mem by (intro put_new_channel_ok) (simp_all add: net_inv_def conn_chan_def setReadCallBack_def new_channel_def)
  then show ok: "poller_ok ?r" by (simp add: poller_cong [OF cong])
  show w: "watchable ?r (malloc s (Suc 0)) (conn_chan f s)"
    using f by (simp add: watchable_def registering_def conn_chan_def setReadCallBack_def new_channel_def)
  have "persist (malloc s (Suc 0)) s ?r"
    by (simp add: persist_cong(1) [OF cong] persist_put)
  then show "persist (malloc s (Suc 0)) s (established la pa f s)"
    unfolding established_def by (rule persist_trans) (rule persist_interest [OF ok w])
qed

lemma established_safe:
  assumes inv: "net_inv T None [] [] s" and f: "0 \<le> f" "f \<in> open_fds s" "channels s f = None"
      "\<And>j c. conns s j = Some c \<Longrightarrow> c_sockfd c \<noteq> f"
    and id: "nextConnId s < 2 ^ 31 - 1"
  shows "net_inv T None [] [] (established la pa f s)"
    "\<And>b. b \<noteq> malloc s (Suc 0) \<Longrightarrow> live b s \<Longrightarrow> live b (established la pa f s)"
proof -
  let ?s = "established la pa f s" and ?k = "malloc s 0" and ?a = "malloc s (Suc 0)" and ?c = "fresh_conn la pa f s"
  let ?nm = "conn_name (server_name s) (nextConnId s)"
  note R = registering_ready(1,2) [where la = la and pa = pa, OF inv f(1,3)] registering_ready(3,4) [OF inv f(1,3)]
    registering_ready(5) [where la = la and pa = pa, OF inv f(1,3)]
  have F: "conns ?s = (conns s)(?k \<mapsto> ?c)" "connections ?s = (connections s)(?nm \<mapsto> ?k)"
    "pendingFunctors ?s = pendingFunctors s" "open_fds ?s = open_fds s" "malloc ?s = (\<lambda>i. malloc s (Suc (Suc i)))"
    "timers ?s = timers s" "nextConnId ?s = nextConnId s + 1" "server_name ?s = server_name s"
    "server_callbacks ?s = server_callbacks s" "loopId ?s = loopId s" "threadId ?s = threadId s"
    "newConnectionCallback ?s = newConnectionCallback s" "clock ?s = clock s" "accepts ?s = accepts s" "reads ?s = reads s"
    by (simp_all add: established_def) (simp_all add: registering_def)
  have C: "c_name ?c = ?nm" "c_state ?c = kConnected" "c_sockfd ?c = f" "c_channel ?c = ?a" "c_closeCallback ?c"
    "c_connectionCallback ?c = fst (server_callbacks s)" "c_messageCallback ?c = snd (server_callbacks s)"
    "new_buffer = Inr (c_input ?c)" "new_buffer = Inr (c_output ?c)"
    by (simp_all add: fresh_conn_def Let_def new_buffer_eq)
  from interest_set_channel [OF R(2), of EnableReading] obtain i where
    i: "heap ?s ?a = Some ((conn_chan f s)\<lparr>ch_events := kReadEvent, ch_index := i\<rparr>)" (is "_ = Some ?ch") "0 \<le> i"
    and chs: "channels ?s = (channels s)(f \<mapsto> ?a)"
    unfolding established_def [symmetric]
    by (auto simp: registering_def conn_chan_def setReadCallBack_def new_channel_def)
  have CH: "ch_fd ?ch = f" "ch_loop ?ch = loopId s" "readCallback ?ch = Some (ConnectionRead ?k)" "writeCallback ?ch = None"
    "errorCallback ?ch = None" "closeCallback ?ch = None"
    by (simp_all add: conn_chan_def setReadCallBack_def new_channel_def)
  have at: "conn_at ?s ?k ?c ?ch" using i(2) f(1) by (simp add: conn_at_def F C CH i(1) chs)
  have ap: "apart ?k ?a s"
    using conns_okD(6) [OF inv] R(3,4) by (force simp: apart_def)
  have names0: "connections s ?nm = None"
  proof (rule ccontr)
    assume "connections s ?nm \<noteq> None"
    with inv obtain j where "1 \<le> j" "j < nextConnId s" "?nm = conn_name (server_name s) j"
      by (auto simp: net_inv_def map_ok_def)
    with conn_name_inj [of "server_name s" "nextConnId s" j] id show False by simp
  qed
  have unqueued: "?k \<notin> set (destroys (pendingFunctors s))"
    using inv R(3) by (auto simp: net_inv_def queue_ok_def)
  have nodangle: "connections s nm \<noteq> Some ?k" for nm
    using inv R(3) unfolding net_inv_def map_ok_def by force
  have names: "connections ?s (c_name d) = Some j \<longleftrightarrow> connections s (c_name d) = Some j" if "j \<noteq> ?k" for j d
    using that names0 by (auto simp: F)
  have buf: "idle_input (c_input ?c)" "output_ok (c_output ?c)" "content (c_output ?c) = []"
    using buf_budget_new [OF C(8)] buf_budget_new [OF C(9)]
    by (auto simp: idle_input_def output_ok_def budget_defs) (simp_all add: fresh_conn_def Let_def)
  have fits: "conn_fits None [] [] ?s ?k ?c"
    using at buf unqueued by (auto simp: conn_fits_def F C output_waits_def)
  have "conns_ok None [] [] ?s"
  proof (rule conns_ok_step [OF inv R(5) ap])
    show "c_sockfd d \<in> open_fds ?s" if "conns s j = Some d" for j d using conns_okD(1) [OF inv that] by (simp add: F)
    show "c_sockfd d \<in> open_fds ?s \<and> c_closeCallback d \<and> c_connectionCallback d \<noteq> None \<and> c_messageCallback d \<noteq> None
       \<and> (\<exists>ch. heap ?s (c_channel d) = Some ch \<and> readCallback ch = Some (ConnectionRead ?k)) \<and> conn_fits None [] [] ?s ?k d"
      if "conns ?s ?k = Some d" for d
    proof -
      have d: "d = ?c" using that by (simp add: F)
      show ?thesis unfolding d
        using C f(2) fits i(1) CH(3) inv by (simp add: F net_inv_def)
    qed
  qed (simp_all add: F(1) same_role_def F(3) names)
  moreover have ch: "chan_ok ?s ?a ?ch" by (simp add: chan_ok_def CH F C)
  have "chans_ok ?s"
  proof (rule chans_ok_step [OF inv R(5) ap])
    show "g \<in> open_fds ?s \<and> (\<exists>ch. heap ?s ?a = Some ch \<and> chan_ok ?s ?a ch)" if "channels ?s g = Some ?a" for g
    proof -
      have "channels s g \<noteq> Some ?a"
      proof
        assume "channels s g = Some ?a"
        moreover have "chans_ok s" using inv by (simp add: net_inv_def)
        ultimately show False using R(4) unfolding chans_ok_def by force
      qed
      with that have "g = f" by (auto simp: chs split: if_splits)
      with f(2) i(1) ch show ?thesis by (auto simp: F)
    qed
  qed (simp_all add: F)
  moreover have "fds_ok ?s"
  proof -
    have fds: "fds_ok s" and "chans_ok s" using inv by (simp_all add: net_inv_def)
    then have new: "channels s g \<noteq> Some ?a" for g using R(4) unfolding chans_ok_def by force
    have old: "c_channel d \<noteq> ?a" "c_sockfd d \<noteq> f" if "conns s j = Some d" for j d
      using f(4) [OF that] conns_okD(6) [OF inv that] R(4) by auto
    show ?thesis
    proof (rule fds_okI)
      fix j l c d
      assume "conns ?s j = Some c" "conns ?s l = Some d" "c_sockfd c = c_sockfd d"
      then show "j = l" using fds_okD(1) [OF fds, of j c l d] old(2) [of j c] old(2) [of l d] by (auto simp: F C split: if_splits)
    next
      fix l c b
      assume h: "conns ?s l = Some c" "channels ?s (c_sockfd c) = Some b"
      show "b = c_channel c"
      proof (cases "l = ?k")
        case True
        with h have "c = ?c" by (simp add: F(1))
        with h(2) show ?thesis by (simp add: C(3,4) chs)
      next
        case False
        with h(1) have l: "conns s l = Some c" by (simp add: F(1))
        from h(2) old(2) [OF l] have "channels s (c_sockfd c) = Some b" by (simp add: chs)
        then show ?thesis by (rule fds_okD(2) [OF fds l])
      qed
    next
      fix l c g
      assume h: "conns ?s l = Some c" "channels ?s g = Some (c_channel c)"
      show "g = c_sockfd c"
      proof (cases "l = ?k")
        case True
        with h have "c = ?c" by (simp add: F(1))
        with h(2) new [of g] show ?thesis by (simp add: C(3,4) chs split: if_splits)
      next
        case False
        with h(1) have l: "conns s l = Some c" by (simp add: F(1))
        from h(2) old(1) [OF l] have "channels s g = Some (c_channel c)" by (simp add: chs split: if_splits)
        then show ?thesis by (rule fds_okD(3) [OF fds l])
      qed
    qed
  qed
  moreover have "memory_ok ?s"
  proof -
    have mem: "inj (malloc s)" "\<And>i. heap s (malloc s i) = None" "\<And>i. conns s (malloc s i) = None"
      using inv by (simp_all add: net_inv_def memory_ok_def)
    then have "malloc s (Suc (Suc i)) \<noteq> ?a" "malloc s (Suc (Suc i)) \<noteq> ?k" for i by (auto dest!: injD)
    moreover have "inj (\<lambda>i. malloc s (Suc (Suc i)))" using mem(1) by (auto simp: inj_def)
    ultimately show ?thesis using R(5) mem by (simp add: memory_ok_def F persist_def)
  qed
  moreover have "poller_ok ?s" unfolding established_def using R(1,2) by (rule interest_set_ok)
  moreover have "map_ok None [] ?s"
  proof -
    have m: "map_ok None [] s" using inv by (simp add: net_inv_def)
    then have "1 \<le> nextConnId s" by (simp add: map_ok_def)
    moreover have "(\<exists>c. conns ?s j = Some c \<and> c_name c = nm) \<and> (\<exists>i. 1 \<le> i \<and> i < nextConnId ?s \<and> nm = conn_name (server_name ?s) i)"
      if "connections ?s nm = Some j" for nm j
    proof (cases "nm = ?nm")
      case True
      with that \<open>1 \<le> nextConnId s\<close> show ?thesis by (auto simp: F C)
    next
      case False
      with that have "connections s nm = Some j" by (simp add: F)
      with m R(3) show ?thesis by (fastforce simp: map_ok_def F)
    qed
    ultimately show ?thesis by (simp add: map_ok_def F(7))
  qed
  moreover have "queue_ok None [] [] ?s" using inv by (auto simp: net_inv_def queue_ok_def F)
  moreover have "kernel_ok ?s" "clock_ok ?s" using inv by (simp_all add: net_inv_def kernel_ok_def clock_ok_def F)
  ultimately show "net_inv T None [] [] ?s" using inv by (simp add: net_inv_def F)
  show "live b ?s" if "b \<noteq> ?a" "live b s" for b
    by (rule live_step [OF R(5) ap _ _ that]) (simp_all add: F(1) names)
qed

lemma established_calm:
  assumes inv: "net_inv T None [] [] s" and f: "0 \<le> f" "f \<in> open_fds s" "channels s f = None"
      "\<And>j c. conns s j = Some c \<Longrightarrow> c_sockfd c \<noteq> f"
    and id: "nextConnId s < 2 ^ 31 - 1"
  shows "calm s (established la pa f s)"
  unfolding calm_def
proof (intro conjI allI impI)
  note none = registering_ready(4) [OF inv f(1,3)]
  fix b
  assume b: "live b s"
  then have "b \<noteq> malloc s (Suc 0)" using none by (auto simp: live_def)
  with inv f id b show "live b (established la pa f s)" by (intro established_safe(2))
next
  fix b ch
  assume b: "heap s b = Some ch"
  then have ne: "b \<noteq> malloc s (Suc 0)" using registering_ready(4) [OF inv f(1,3)] by auto
  from registering_ready(5) [OF inv f(1,3)] ne b obtain i where "heap (established la pa f s) b = Some (ch\<lparr>ch_index := i\<rparr>)"
    by (rule persistE) blast
  then show "\<exists>ch'. heap (established la pa f s) b = Some ch' \<and> writeCallback ch' = writeCallback ch" by simp
qed

lemma calm_trans: "calm s s1 \<Longrightarrow> calm s1 s2 \<Longrightarrow> calm s s2"
  unfolding calm_def by metis

lemma more_open:
  fixes s :: "('u, 'z) world_scheme" and f :: int
  assumes inv: "net_inv T m ds fs s" and s': "s' = s\<lparr>accepts := \<lambda>i. accepts s (Suc i), open_fds := insert f (open_fds s)\<rparr>"
  shows "net_inv T m ds fs s'" "calm s s'"
proof -
  have P: "heap s' = heap s" "pollfds s' = pollfds s" "channels s' = channels s" "loopId s' = loopId s"
    by (simp_all add: s')
  have F: "conns s' = conns s" "connections s' = connections s" "pendingFunctors s' = pendingFunctors s"
    "open_fds s' = insert f (open_fds s)" "malloc s' = malloc s" "timers s' = timers s" "nextConnId s' = nextConnId s"
    "server_name s' = server_name s" "server_callbacks s' = server_callbacks s" "threadId s' = threadId s"
    "newConnectionCallback s' = newConnectionCallback s" "clock s' = clock s" "reads s' = reads s"
    "accepts s' = (\<lambda>i. accepts s (Suc i))" by (simp_all add: s')
  have at: "conn_at s' = conn_at s" by (intro ext) (simp add: conn_at_def P F)
  have rm: "removable s' = removable s" by (intro ext) (simp add: removable_def poller_cong [OF P] P)
  have ch: "chan_ok s' = chan_ok s" by (intro ext) (simp add: chan_ok_def F)
  have fits: "conn_fits m ds fs s' = conn_fits m ds fs s"
    by (intro ext) (simp add: conn_fits_def at rm poller_cong [OF P] P F)
  have "conns_ok m ds fs s'" using inv by (simp add: net_inv_def conns_ok_def fits P F)
  moreover have "chans_ok s'" using inv by (simp add: net_inv_def chans_ok_def ch P F)
  moreover have "kernel_ok s'" using inv by (simp add: net_inv_def kernel_ok_def F)
  moreover have "clock_ok s'" using inv by (simp add: net_inv_def clock_ok_def F)
  moreover have "map_ok m ds s' = map_ok m ds s" by (simp only: map_ok_def F)
  moreover have "queue_ok m ds fs s' = queue_ok m ds fs s" by (simp only: queue_ok_def F)
  moreover have "memory_ok s' = memory_ok s" by (simp only: memory_ok_def P F)
  moreover have "fds_ok s' = fds_ok s" by (simp only: fds_ok_def P F)
  ultimately show "net_inv T m ds fs s'"
    using inv by (simp only: net_inv_def poller_cong(2) [OF P] F simp_thms)
  show "calm s s'" by (simp add: calm_def live_def ch P F)
qed

text \<open>A read that gets nothing leaves the buffer as it is.\<close>

lemma readFd_nothing:
  assumes "buf_ok b"
  shows "\<exists>rest. readFd (Inl e) b = Inr (-1, Some e, b, rest)" "\<exists>rest. readFd (Inr []) b = Inr (0, None, b, rest)"
proof -
  have "mem_write (storage b) (writerIndex b) [] = Inr (storage b)" "size_add (writerIndex b) 0 = writerIndex b"
    using assms by (simp_all add: mem_write_def buf_ok_def vector_max_def size_add_def)
  then show "\<exists>rest. readFd (Inl e) b = Inr (-1, Some e, b, rest)" "\<exists>rest. readFd (Inr []) b = Inr (0, None, b, rest)"
    by (simp_all add: readFd_def sys_readv_def Let_def)
qed

text \<open>An alarm when no timer is set: the present is read, and nothing else happens.\<close>

lemma idle_alarm:
  assumes inv: "net_inv T None [] [] s" and none: "timers s = []"
  shows "okR (\<lambda>s'. (net_inv T None [] [] s' \<and> calm s s') \<and> same_lives s s') (TimerQueue_handleRead user T s)"
proof -
  have t: "assertInLoopThread T s = Inr ()" and clk: "clock_ok s"
    using inv by (simp_all add: net_inv_def in_loop_thread)
  from clk obtain x where now: "current_time s = Inr (Timestamp x, s\<lparr>clock := \<lambda>i. clock s (Suc i), last_reading := Timestamp x\<rparr>)"
    "clock_ok (s\<lparr>clock := \<lambda>i. clock s (Suc i), last_reading := Timestamp x\<rparr>)" by (rule clock_okE)
  let ?s = "readTimerfd (s\<lparr>clock := \<lambda>i. clock s (Suc i), last_reading := Timestamp x\<rparr>)"
  have cl: "clock_ok ?s" using now(2) by (simp add: clock_ok_def readTimerfd_def)
  have run: "TimerQueue_handleRead user T s = Inr ?s"
    using none by (simp add: TimerQueue_handleRead_def t now(1) getExpired_def set_lower_bound_def
        TimerQueue_reset_def readTimerfd_def timestamp_valid_def invalid_timestamp_def)
  have "kernel_ok ?s = kernel_ok s" by (simp add: kernel_ok_def readTimerfd_def)
  then have "net_inv T None [] [] ?s" "live b ?s = live b s" for b
    using net_inv_cong(1) [of ?s s T None "[]" "[]"] net_inv_cong(2) [of ?s s b] inv cl clk by (simp_all add: readTimerfd_def)
  then show ?thesis by (simp add: run calm_def) (simp add: same_lives_def readTimerfd_def)
qed

context server_users
begin

lemma fault_E: "Undefined ''signed 32-bit overflow'' \<in> E" "Aborted ''sockets::getLocalAddr'' \<in> E"
  "Aborted ''unexpected error of ::accept'' \<in> E" "Aborted ''unknown error of ::accept'' \<in> E"
  using faults by (auto simp: server_faults_def)

lemma accept_safe:
  assumes inv: "net_inv T None [] [] s" and G: "G s"
  shows "safeR E (\<lambda>s'. (net_inv T None [] [] s' \<and> calm s s') \<and> G s') (Acceptor_handleRead P T s)"
proof -
  have t: "assertInLoopThread T s = Inr ()" using inv by (intro in_loop_thread) (simp add: net_inv_def)
  show ?thesis
  proof (cases "accepts s 0 (open_fds s)")
    case (Errno e)
    let ?s = "s\<lparr>accepts := \<lambda>i. accepts s (Suc i)\<rparr>"
    have "kernel_ok ?s = kernel_ok s" using inv by (auto simp: net_inv_def kernel_ok_def)
    then have "net_inv T None [] [] ?s" "live b ?s = live b s" for b
      using net_inv_cong(1) [of ?s s T None "[]" "[]"] net_inv_cong(2) [of ?s s b] inv by (simp_all add: clock_ok_def)
    moreover have "G ?s" by (rule kept [OF G]) (simp add: same_lives_def)
    ultimately show ?thesis using Errno by (auto simp: Acceptor_handleRead_def t accept_spec calm_def fault_E)
  next
    case (Success x)
    obtain f pa where x: "x = (f, pa)" by force
    let ?s = "s\<lparr>accepts := \<lambda>i. accepts s (Suc i), open_fds := insert f (open_fds s)\<rparr>"
    note more = more_open [OF inv refl, of f]
    have kern: "0 \<le> f" "f \<notin> open_fds s" using inv Success x by (auto simp: net_inv_def kernel_ok_def)
    have run: "Acceptor_handleRead P T s = newConnection P T f pa ?s"
      using Success x kern(1) inv by (simp add: Acceptor_handleRead_def t accept_spec Let_def net_inv_def)
    have "assertInLoopThread T ?s = Inr ()" using inv by (intro in_loop_thread) (simp add: net_inv_def)
    note new = newConnection_def this Let_def
    have "chans_ok s" using inv by (simp add: net_inv_def)
    with kern(2) have chan: "channels ?s f = None" unfolding chans_ok_def by (cases "channels s f") auto
    have fd: "c_sockfd c \<noteq> f" if "conns ?s j = Some c" for j c
      using conns_okD(1) [OF inv, of j c] that kern(2) by auto
    consider (id) "\<not> nextConnId s < 2 ^ 31 - 1" | (addr) e where "nextConnId s < 2 ^ 31 - 1" "local_addrs s 0 = Errno e"
      | (ok) la where "nextConnId s < 2 ^ 31 - 1" "local_addrs s 0 = Success la" by (cases "local_addrs s 0") auto
    then show ?thesis
    proof cases
      case id
      then show ?thesis by (simp add: run new fault_E)
    next
      case addr
      then show ?thesis by (simp add: run new fault_E getLocalAddr_def or_die_def)
    next
      case ok
      let ?e = "established la pa f ?s" and ?k = "malloc ?s 0"
      note e = more(1) kern(1) _ chan fd
      have id: "nextConnId ?s < 2 ^ 31 - 1" using ok(1) by simp
      have inv': "net_inv T None [] [] ?e" by (rule established_safe(1) [OF e id]) simp_all
      have calm: "calm s ?e" by (rule calm_trans [OF more(2) established_calm [OF e id]]) simp_all
      obtain u where u: "fst (server_callbacks ?s) = Some u" using inv by (auto simp: net_inv_def)
      have "newConnection P T f pa ?s = on_connection P u ?k ?e"
        using ok inv registering_ready(1,2) [OF more(1) kern(1) chan] u
        by (intro newConnection_eq) (simp_all add: net_inv_def)
      moreover have c: "conns ?e ?k = Some (fresh_conn la pa f ?s)" 
        "connections ?e (c_name (fresh_conn la pa f ?s)) = Some ?k"
        "c_state (fresh_conn la pa f ?s) = kConnected" "new_buffer = Inr (c_output (fresh_conn la pa f ?s))"
        by (simp_all add: established_def) (simp_all add: registering_def fresh_conn_def Let_def new_buffer_eq)
      moreover have "opened s ?k (fresh_conn la pa f ?s) ?e"
        using registering_ready(3) [OF more(1) kern(1) chan] kern(2)
        by (simp add: opened_def established_def) (simp add: registering_def fresh_conn_def Let_def)
      ultimately show ?thesis
        using up [OF inv' c(1,3,2,4), of s u] G calm by (auto simp: run elim!: safeR_mono intro: calm_trans)
    qed
  qed
qed

lemma read_safe:
  assumes inv: "net_inv T None [] [] s" and c: "conns s k = Some c" "connections s (c_name c) = Some k" and G: "G s"
  shows "safeR E (\<lambda>s'. (net_inv T None [] [] s' \<and> (\<forall>b. b \<noteq> c_channel c \<longrightarrow> live b s \<longrightarrow> live b s')
      \<and> (\<exists>ch. heap s' (c_channel c) = Some ch \<and> writeCallback ch = None)) \<and> G s')
    (TcpConnection_handleRead P T k ts s)"
proof -
  from open_conn [OF inv c] obtain ch where ch: "conn_at s k c ch" "idle_input (c_input c)" "chan_ok s (c_channel c) ch"
    by auto
  have ok: "buf_ok (c_input c)" and pos: "readerIndex (c_input c) = 8" "writerIndex (c_input c) = 8"
    "length (storage (c_input c)) \<le> 2 ^ 31" using ch(2) by (auto simp: idle_input_def)
  let ?s = "s\<lparr>reads := \<lambda>i. reads s (Suc i)\<rparr>"
  have kern: "kernel_ok ?s = kernel_ok s" using inv by (auto simp: net_inv_def kernel_ok_def)
  then have inv': "net_inv T None [] [] ?s"
    using net_inv_cong(1) [of ?s s T None "[]" "[]"] inv by (simp add: clock_ok_def)
  have live': "live b ?s = live b s" for b
    using net_inv_cong(2) [of ?s s b] kern by (simp add: clock_ok_def)
  have G': "G ?s" by (rule kept [OF G]) (simp add: same_lives_def)
  have same: "put_conn k c ?s = ?s" using c(1) by (simp add: put_conn_def fun_upd_idem)
  have at': "conn_at ?s k c ch" using ch(1) by (simp add: conn_at_def)
  have run: "TcpConnection_handleRead P T k ts s = bindR (readFd (reads s 0 (ch_fd ch)) (c_input c))
      (\<lambda>(n, savedErrno, b, rest). let s1 = put_conn k (c\<lparr>c_input := b\<rparr>) ?s in
       if 0 < n then messageCallback P k ts s1 else if n = 0 then handleClose T k s1 else handleError k s1)"
    using conn_atD(7,8) [OF ch(1)] by (simp add: TcpConnection_handleRead_def)
  consider (err) e where "reads s 0 (ch_fd ch) = Inl e" | (eof) "reads s 0 (ch_fd ch) = Inr []"
    | (data) d where "reads s 0 (ch_fd ch) = Inr d" "d \<noteq> []" by (cases "reads s 0 (ch_fd ch)") auto
  then show ?thesis
  proof cases
    case err
    then show ?thesis
      using readFd_nothing(1) [OF ok, of e] inv' G' live' conn_atD(2,8) [OF at'] ch(3) same
      by (auto simp: run Let_def handleError_def chan_ok_def)
  next
    case eof
    have t: "threadId ?s = T" using inv by (simp add: net_inv_def)
    have c': "conns ?s k = Some c" "connections ?s (c_name c) = Some k" using c by simp_all
    from close_safe [OF inv' c', unfolded t] obtain s' where "handleClose T k ?s = Inr s'" "net_inv T None [] [] s'"
      "\<And>b. b \<noteq> c_channel c \<Longrightarrow> live b ?s \<Longrightarrow> live b s'" "\<exists>ch. heap s' (c_channel c) = Some ch \<and> writeCallback ch = None"
      "same_lives ?s s'" by metis
    with eof readFd_nothing(2) [OF ok] live' kept [OF G'] show ?thesis by (auto simp: run same)
  next
    case data
    have "length d \<le> 2 ^ 30" using inv data(1) by (simp add: net_inv_def kernel_ok_def)
    moreover have size: "length (storage (c_input c)) + extrabuf_size \<le> vector_max"
      using pos(3) by (simp add: extrabuf_size_def vector_max_def)
    moreover have "0 < length (take (writableBytes (c_input c) + extrabuf_size) d)"
      using data(2) by (simp add: extrabuf_size_def)
    ultimately have "okR (\<lambda>(n, err, b, rest). 0 < n \<and> buf_ok b \<and> length (storage b) \<le> 2 ^ 31) (readFd (Inr d) (c_input c))"
      using pos by (intro okR_mono [OF readFd_spec [OF ok size, of d]]) (auto simp: buf_holds_def max_def split: if_splits)
    then obtain n err b rest where r: "readFd (Inr d) (c_input c) = Inr (n, err, b, rest)" "0 < n" "buf_ok b"
      "length (storage b) \<le> 2 ^ 31" by (auto simp: okR_iff)
    obtain u where u: "c_messageCallback c = Some u" using conns_okD(4) [OF inv c(1)] by auto
    have "TcpConnection_handleRead P T k ts s = on_message P u k ts (put_conn k (c\<lparr>c_input := b\<rparr>) ?s)"
      using data r(1,2) u by (simp add: run messageCallback_def get_conn_def)
    moreover have "safeR E (\<lambda>s'. (net_inv T None [] [] s' \<and> calm ?s s') \<and> G s')
        (on_message P u k ts (put_conn k (c\<lparr>c_input := b\<rparr>) ?s))"
      by (rule message [OF inv']) (use c r G' in simp_all)
    moreover have "heap ?s (c_channel c) = Some ch" "writeCallback ch = None"
      using conn_atD(2) [OF at'] ch(3) by (simp_all add: chan_ok_def)
    ultimately show ?thesis by (force elim!: safeR_mono simp: calm_def live')
  qed
qed

lemma call_safe:
  assumes inv: "net_inv T None [] [] s" and G: "G s" and ch: "heap s a = Some ch" "chan_ok s a ch" "readCallback ch = Some cb"
    and open_: "\<And>k c. cb = ConnectionRead k \<Longrightarrow> conns s k = Some c \<Longrightarrow> connections s (c_name c) = Some k"
  shows "safeR E (\<lambda>s'. ((net_inv T None [] [] s' \<and> G s') \<and> (\<forall>b. b \<noteq> a \<longrightarrow> live b s \<longrightarrow> live b s'))
      \<and> (\<exists>ch'. heap s' a = Some ch' \<and> writeCallback ch' = None)) (call_back P cb ts s)"
proof (cases cb)
  case WakeupRead
  let ?s = "s\<lparr>eventCount := 0\<rparr>"
  have "kernel_ok ?s = kernel_ok s" by (simp add: kernel_ok_def)
  then have "net_inv T None [] [] ?s" "live b ?s = live b s" for b
    using net_inv_cong(1) [of ?s s T None "[]" "[]"] net_inv_cong(2) [of ?s s b] inv by (simp_all add: clock_ok_def)
  moreover have "G ?s" by (rule kept [OF G]) (simp add: same_lives_def)
  ultimately show ?thesis using WakeupRead ch
    by (simp add: call_back_def EventLoop_handleRead_def chan_ok_def)
next
  case TimerRead
  have "threadId s = T" using inv by (simp add: net_inv_def)
  then have "call_back P cb ts s = TimerQueue_handleRead (run_user P) T s" by (simp add: TimerRead call_back_def)
  then show ?thesis using alarm [OF inv G] ch by (fastforce elim!: safeR_mono simp: calm_def chan_ok_def)
next
  case AcceptorRead
  have "threadId s = T" using inv by (simp add: net_inv_def)
  then have "call_back P cb ts s = Acceptor_handleRead P T s" by (simp add: AcceptorRead call_back_def)
  then show ?thesis using accept_safe [OF inv G] ch by (fastforce elim!: safeR_mono simp: calm_def chan_ok_def)
next
  case (ConnectionRead k)
  with ch(2,3) obtain c where c: "conns s k = Some c" "c_channel c = a" by (auto simp: chan_ok_def)
  have "threadId s = T" using inv by (simp add: net_inv_def)
  then have "call_back P cb ts s = TcpConnection_handleRead P T k ts s" by (simp add: ConnectionRead call_back_def)
  with read_safe [OF inv c(1) open_ [OF ConnectionRead c(1)] G, of ts] show ?thesis by (auto simp: c(2) elim!: safeR_mono)
qed

lemma event_safe:
  assumes inv: "net_inv T None [] [] s" and G: "G s" and a: "live a s"
  shows "safeR E (\<lambda>s'. (net_inv T None [] [] s' \<and> G s') \<and> (\<forall>b. b \<noteq> a \<longrightarrow> live b s \<longrightarrow> live b s'))
    (handle_active (call_back P) a s)"
proof -
  have clk: "clock_ok s" using inv by (simp add: net_inv_def)
  from clk obtain x where now: "current_time s = Inr (Timestamp x, s\<lparr>clock := \<lambda>i. clock s (Suc i), last_reading := Timestamp x\<rparr>)"
    "clock_ok (s\<lparr>clock := \<lambda>i. clock s (Suc i), last_reading := Timestamp x\<rparr>)" by (rule clock_okE)
  let ?s = "s\<lparr>clock := \<lambda>i. clock s (Suc i), last_reading := Timestamp x\<rparr>"
  have "kernel_ok ?s = kernel_ok s" by (simp add: kernel_ok_def)
  then have inv': "net_inv T None [] [] ?s" and live': "live b ?s = live b s" for b
    using net_inv_cong(1) [of ?s s T None "[]" "[]"] net_inv_cong(2) [of ?s s b] inv now(2) clk by simp_all
  from a live' obtain ch cb where ch: "heap ?s a = Some ch" "chan_ok ?s a ch" "readCallback ch = Some cb"
    by (auto simp: live_def chan_ok_def)
  have G': "G ?s" by (rule kept [OF G]) (simp add: same_lives_def)
  let ?I = "\<lambda>s'. (net_inv T None [] [] s' \<and> G s') \<and> (\<forall>b. b \<noteq> a \<longrightarrow> live b ?s \<longrightarrow> live b s') \<and> (s' = ?s \<or> True)"
  have none: "closeCallback ch = None" "errorCallback ch = None" "writeCallback ch = None"
    using ch(2) by (simp_all add: chan_ok_def)
  have "safeR E ?I (handleEvent (call_back P) (Timestamp x) a ?s)"
  proof (rule handleEvent_safe [OF ch(1) none ch(3)])
    show "?I ?s" using inv' G' by simp
    show "?I s2" if "?I s1" "same_slots s1 s2" for s1 s2
      using that net_inv_same [OF that(2)] live_same [OF that(2)] kept same_slots_lives [OF that(2)] by blast
    fix s1
    assume same: "same_slots ?s s1" and I: "?I s1"
    from same_slotsD(4) [OF same ch(1)] obtain ch1 where ch1: "heap s1 a = Some ch1" "same_interest ch ch1" by blast
    from live_same [OF same] a live' have "live a s1" by blast
    with ch1 ch(3) have l: "chan_ok s1 a ch1" "readCallback ch1 = Some cb"
      "\<And>k c. cb = ConnectionRead k \<Longrightarrow> conns s1 k = Some c \<Longrightarrow> connections s1 (c_name c) = Some k"
      by (auto simp: live_def same_interest_def)
    from I have I1: "net_inv T None [] [] s1" "G s1" by simp_all
    show "safeR E (\<lambda>s'. ?I s' \<and> (\<exists>ch'. heap s' a = Some ch' \<and> writeCallback ch' = None)) (call_back P cb (Timestamp x) s1)"
      using I by (auto intro!: safeR_mono [OF call_safe [OF I1(1,2) ch1(1) l]])
  qed
  then show ?thesis by (auto simp: handle_active_def now(1) live' elim!: safeR_mono)
qed

end

text \<open>A functor of the user's leaves the roles as they are.\<close>

lemma net_inv_lists:
  assumes inv: "net_inv T m ds fs s" and ds: "destroys ds' = destroys ds" and fs: "destroys fs' = destroys fs"
    and tasks: "\<forall>f \<in> set fs'. (\<exists>k. f = ConnectDestroyed k) \<or> (\<exists>u. f = UserTask u)"
  shows "net_inv T m ds' fs' s"
proof -
  have "conn_fits m ds' fs' s = conn_fits m ds fs s" by (intro ext) (simp add: conn_fits_def ds fs)
  moreover have "queue_ok m ds' fs' s" using inv tasks by (auto simp: net_inv_def queue_ok_def ds fs)
  ultimately show ?thesis using inv by (simp add: net_inv_def conns_ok_def map_ok_def ds)
qed

context server_users
begin

lemma destroy_safe:
  assumes inv: "net_inv T None ds (ConnectDestroyed k # fs) s" and G: "G s"
  shows "safeR E (\<lambda>s'. net_inv T None (ds @ [ConnectDestroyed k]) fs s' \<and> G s') (connectDestroyed P T k s)"
proof -
  from closing_conn [OF inv] obtain c ch where c: "conns s k = Some c" "conn_at s k c ch" "c_state c \<in> {kConnected, kDisconnecting}"
    "connections s (c_name c) \<noteq> Some k" "k \<notin> set (destroys (ds @ fs @ pendingFunctors s))" "chan_ok s (c_channel c) ch"
    "readCallback ch = Some (ConnectionRead k)" by blast
  let ?c = "c\<lparr>c_state := kDisconnected\<rparr>" and ?s = "half_destroyed k c ch s"
  have t: "threadId s = T" and ok: "poller_ok s" using inv by (simp_all add: net_inv_def)
  have at1: "conn_at (put_conn k ?c s) k ?c ch" using c(2) by (simp add: conn_at_def)
  have ok1: "poller_ok (put_conn k ?c s)" using ok poller_cong(2) [of "put_conn k ?c s" s] by simp
  have int: "conn_interest T DisableAll k (put_conn k ?c s) = Inr ?s"
    using conn_interest_eq [OF ok1 at1, of T DisableAll] t by (simp add: half_destroyed_def)
  have inv': "net_inv T (Some k) (ds @ [ConnectDestroyed k]) fs ?s"
    by (rule half_destroyed_ok [OF inv c(1,2,4-7)])
  obtain u where u: "c_connectionCallback c = Some u" using conns_okD(3) [OF inv c(1)] by auto
  have "conns ?s k = Some ?c" by (simp add: half_destroyed_def)
  then have "connectionCallback P k ?s = on_connection P u k ?s"
    using u by (simp add: connectionCallback_def get_conn_def)
  then have run: "connectDestroyed P T k s = bindR (on_connection P u k ?s)
      (\<lambda>s3. bindR (get_conn k s3) (\<lambda>c3. EventLoop_removeChannel T (c_channel c3) s3))"
    using c(1,3) int in_loop_thread [OF t] by (auto simp: connectDestroyed_def setState_def get_conn_def)
  have "safeR E (\<lambda>s'. net_inv T None (ds @ [ConnectDestroyed k]) fs s' \<and> G s')
      (bindR (get_conn k s3) (\<lambda>c3. EventLoop_removeChannel T (c_channel c3) s3))"
    if "net_inv T (Some k) (ds @ [ConnectDestroyed k]) fs s3 \<and> G s3" for s3
    by (rule remove_safe [OF conjunct1 [OF that]]) (use kept that in \<open>auto simp: get_conn_def\<close>)
  moreover have "same_lives (put_conn k ?c s) ?s" by (simp add: same_lives_def half_destroyed_def)
  ultimately show ?thesis using down [OF inv' c(1,3) _ G, of u] by (auto simp: run elim!: safeR_mono)
qed

lemma called_safe:
  assumes inv: "net_inv T None ds (f # fs) s" and G: "G s"
  shows "safeR E (\<lambda>s'. net_inv T None (ds @ [f]) fs s' \<and> G s') (run_task P r f s)"
proof -
  have t: "threadId s = T" using inv by (simp add: net_inv_def)
  have q: "\<forall>g \<in> set (f # fs). (\<exists>k. g = ConnectDestroyed k) \<or> (\<exists>u. g = UserTask u)"
    using inv by (auto simp: net_inv_def queue_ok_def)
  then consider k where "f = ConnectDestroyed k" | u where "f = UserTask u" by auto
  then show ?thesis
  proof cases
    case 1
    with destroy_safe inv G t show ?thesis by (simp add: run_task_def)
  next
    case 2
    have "net_inv T None ds fs s" by (rule net_inv_lists [OF inv]) (use q in \<open>auto simp: 2\<close>)
    note user_task [OF this G, of u]
    moreover have "net_inv T None (ds @ [f]) fs s'" if "net_inv T None ds fs s'" for s'
      by (rule net_inv_lists [OF that]) (use q in \<open>auto simp: 2\<close>)
    ultimately show ?thesis by (simp add: run_task_def 2) (erule safeR_mono, blast)
  qed
qed

end

lemma flags_safe:
  assumes "net_inv T m ds fs s"
  shows "net_inv T m ds fs (s\<lparr>callingPendingFunctors := b, looping := l, quit_flag := q\<rparr>)"
  using net_inv_cong(1) [of "s\<lparr>callingPendingFunctors := b, looping := l, quit_flag := q\<rparr>" s T m ds fs] assms
  by (simp add: kernel_ok_def clock_ok_def)

lemma taken_safe:
  assumes inv: "net_inv T None [] [] s"
  shows "net_inv T None [] (pendingFunctors s) (snd (take_functors s))"
proof -
  let ?s = "s\<lparr>callingPendingFunctors := True, pendingFunctors := []\<rparr>"
  have P: "heap ?s = heap s" "pollfds ?s = pollfds s" "channels ?s = channels s" "loopId ?s = loopId s" by simp_all
  have "conn_at ?s = conn_at s" by (intro ext) (simp add: conn_at_def)
  then have "conn_fits None [] (pendingFunctors s) ?s = conn_fits None [] [] s"
    by (intro ext) (simp add: conn_fits_def poller_cong [OF P])
  moreover have "chan_ok ?s = chan_ok s" by (intro ext) (simp add: chan_ok_def)
  moreover have "queue_ok None [] (pendingFunctors s) ?s" using inv by (simp add: net_inv_def queue_ok_def)
  moreover have "fds_ok ?s = fds_ok s" by (simp add: fds_ok_def)
  ultimately show ?thesis using inv
    by (simp add: take_functors_def net_inv_def conns_ok_def map_ok_def chans_ok_def memory_ok_def kernel_ok_def
        clock_ok_def poller_cong [OF P])
qed

text \<open>So the loop keeps its contract on every server whose user keeps the user's.\<close>

context server_users
begin

lemma released_safe: "net_inv T None fs [] s \<Longrightarrow> G s \<Longrightarrow>
    net_inv T None [] [] (release_tasks fs s) \<and> G (release_tasks fs s)"
proof (induction fs arbitrary: s)
  case (Cons f fs)
  have "G (release_task f s)"
  proof (cases "\<exists>k. f = ConnectDestroyed k")
    case True
    then obtain k where f: "f = ConnectDestroyed k" by blast
    have "queue_ok None (f # fs) [] s" using Cons.prems(1) by (simp add: net_inv_def)
    then obtain c where c: "conns s k = Some c" by (auto simp: queue_ok_def f)
    with conns_okD(5) [OF Cons.prems(1) c] have "c_state c = kDisconnected" by (simp add: conn_fits_def f)
    from destroyed [OF Cons.prems(2) c this] show ?thesis by (simp add: f release_task_def)
  next
    case False
    then show ?thesis using Cons.prems(2) by (auto simp: release_task_def split: task.splits)
  qed
  from Cons.IH [OF release_safe [OF Cons.prems(1)] this] show ?case by (simp add: release_tasks_def)
qed (simp add: release_tasks_def)

end

sublocale server_users \<subseteq> reactor E "\<lambda>ds fs s. net_inv T None ds fs s \<and> G s" live "call_back P"
  "run_task P r" release_tasks for r
proof unfold_locales
  fix s :: "('u, 'z) world_scheme" and outcome ds f fs and b q :: bool
  show "safeR E (\<lambda>(active, s'). (net_inv T None [] [] s' \<and> G s') \<and> distinct active \<and> (\<forall>a \<in> set active. live a s'))
        (Poller_poll outcome s)" if "net_inv T None [] [] s \<and> G s"
    using that kept by (auto intro: safeR_mono [OF polled_safe])
  show "net_inv T None [] (pendingFunctors s) (snd (take_functors s)) \<and> G (snd (take_functors s))"
    if "net_inv T None [] [] s \<and> G s"
    using that taken_safe by (auto simp: take_functors_def same_lives_def intro: kept [of s])
  show "net_inv T None [] [] (release_tasks fs (s\<lparr>callingPendingFunctors := False\<rparr>))
      \<and> G (release_tasks fs (s\<lparr>callingPendingFunctors := False\<rparr>))" if "net_inv T None fs [] s \<and> G s"
  proof (rule released_safe)
    show "net_inv T None fs [] (s\<lparr>callingPendingFunctors := False\<rparr>)"
      using that flags_safe [where b = False and l = "looping s" and q = "quit_flag s"] by force
    show "G (s\<lparr>callingPendingFunctors := False\<rparr>)" using that by (auto simp: same_lives_def intro: kept [of s])
  qed
  show "net_inv T None [] [] (s\<lparr>looping := b, quit_flag := q\<rparr>) \<and> G (s\<lparr>looping := b, quit_flag := q\<rparr>)"
    if "net_inv T None [] [] s \<and> G s"
    using that flags_safe [where b = "callingPendingFunctors s" and l = b and q = q] by (force simp: same_lives_def intro: kept [of s])
qed (use event_safe called_safe in blast)+

end
