(* ===== verification/SampleServer.thy ===== *)
theory SampleServer
  imports ServerEvents
begin

text \<open>
  The program of \<open>main.cpp\<close>: its callbacks keep the contract of a server's user, and what \<open>main\<close> sets up
  satisfies the server's invariant.
\<close>

section \<open>A change to the buffers of an open connection\<close>

text \<open>Output that waits in a buffer stays there, behind it what is added; meanwhile nothing goes on the wire.\<close>

definition waiting_stays :: "('u, 'z) world_scheme \<Rightarrow> ('u, 'z) world_scheme \<Rightarrow> bool" where
  "waiting_stays s s' \<longleftrightarrow> (\<forall>k c d. conns s k = Some c \<and> content (c_output c) \<noteq> [] \<and> conns s' k = Some d
     \<longrightarrow> (\<exists>more. content (c_output d) = content (c_output c) @ more) \<and> wire s' (c_sockfd c) = wire s (c_sockfd c))"

text \<open>What the callbacks of \<open>main.cpp\<close> leave alone: which connections there are and their states, the
  addresses to come, output that waits, and what lies beyond the server.\<close>

definition tame :: "('u, 'z) world_scheme \<Rightarrow> ('u, 'z) world_scheme \<Rightarrow> bool" where
  "tame s s' \<longleftrightarrow> malloc s' = malloc s \<and> open_fds s' = open_fds s \<and> timers s' = timers s \<and> timer_heap s' = timer_heap s
     \<and> timerfd_due s' = timerfd_due s \<and> timerfd s' = timerfd s \<and> acceptFd s' = acceptFd s
     \<and> world.more s' = world.more s \<and> waiting_stays s s'
     \<and> (\<forall>k. rel_option (\<lambda>c d. c_state c = c_state d \<and> c_sockfd c = c_sockfd d) (conns s k) (conns s' k))"

lemma waiting_stays_trans:
  assumes "waiting_stays s s1" "waiting_stays s1 s2"
    and same: "\<And>k. rel_option (\<lambda>c d. c_state c = c_state d \<and> c_sockfd c = c_sockfd d) (conns s k) (conns s1 k)"
  shows "waiting_stays s s2"
  unfolding waiting_stays_def
proof (intro allI impI, elim conjE)
  fix k c e
  assume c: "conns s k = Some c" "content (c_output c) \<noteq> []" "conns s2 k = Some e"
  with same [of k] obtain d where d: "conns s1 k = Some d" "c_sockfd d = c_sockfd c" by (auto simp: option_rel_Some1)
  with c assms(1) obtain x where x: "content (c_output d) = content (c_output c) @ x" "wire s1 (c_sockfd c) = wire s (c_sockfd c)"
    unfolding waiting_stays_def by blast
  with c have "content (c_output d) \<noteq> []" by simp
  with d c(3) assms(2) obtain y where "content (c_output e) = content (c_output d) @ y" "wire s2 (c_sockfd c) = wire s1 (c_sockfd c)"
    unfolding waiting_stays_def by metis
  with x show "(\<exists>more. content (c_output e) = content (c_output c) @ more) \<and> wire s2 (c_sockfd c) = wire s (c_sockfd c)" by simp
qed

lemma tame_trans:
  assumes "tame s s1" "tame s1 s2"
  shows "tame s s2"
proof -
  have "waiting_stays s s2" by (rule waiting_stays_trans [of s s1]) (use assms in \<open>simp_all add: tame_def\<close>)
  with assms show ?thesis unfolding tame_def option.rel_sel by metis
qed

lemma tame_put: "conns s k = Some c \<Longrightarrow> c_state d = c_state c \<Longrightarrow> c_sockfd d = c_sockfd c \<Longrightarrow> malloc s' = malloc s \<Longrightarrow> open_fds s' = open_fds s \<Longrightarrow> timers s' = timers s \<Longrightarrow>
  timer_heap s' = timer_heap s \<Longrightarrow> timerfd_due s' = timerfd_due s \<Longrightarrow> timerfd s' = timerfd s \<Longrightarrow>
  acceptFd s' = acceptFd s \<Longrightarrow> world.more s' = world.more s \<Longrightarrow> conns s' k = Some d \<Longrightarrow> (\<And>j. j \<noteq> k \<Longrightarrow> conns s' j = conns s j) \<Longrightarrow> waiting_stays s s' \<Longrightarrow> tame s s'"
  unfolding tame_def
proof (intro conjI allI)
  fix j
  assume *: "conns s k = Some c" "c_state d = c_state c" "c_sockfd d = c_sockfd c" "conns s' k = Some d" "\<And>j. j \<noteq> k \<Longrightarrow> conns s' j = conns s j"
  show "rel_option (\<lambda>c d. c_state c = c_state d \<and> c_sockfd c = c_sockfd d) (conns s j) (conns s' j)"
    using * by (cases "j = k") (simp_all add: option.rel_refl)
qed

lemma tame_timers: "tame s s' \<Longrightarrow> timers s' = timers s" "tame s s' \<Longrightarrow> timer_heap s' = timer_heap s" "tame s s' \<Longrightarrow> malloc s' = malloc s"
  "tame s s' \<Longrightarrow> timerfd_due s' = timerfd_due s"
  by (simp_all add: tame_def)

lemma tame_fds: "tame s s' \<Longrightarrow> timerfd s' = timerfd s" "tame s s' \<Longrightarrow> acceptFd s' = acceptFd s"
  by (simp_all add: tame_def)

lemma dtor_timers: "timers (TcpConnection_dtor k s) = timers s" "timer_heap (TcpConnection_dtor k s) = timer_heap s"
  "malloc (TcpConnection_dtor k s) = malloc s" "timerfd_due (TcpConnection_dtor k s) = timerfd_due s"
  by (simp_all add: TcpConnection_dtor_def split: option.split)

lemma dtor_fds: "timerfd (TcpConnection_dtor k s) = timerfd s" "acceptFd (TcpConnection_dtor k s) = acceptFd s"
  by (simp_all add: TcpConnection_dtor_def split: option.split)

lemma conn_change_safe:
  assumes inv: "net_inv T None [] [] s" and k: "conns s k = Some c" "connections s (c_name c) = Some k"
    and per: "persist (c_channel c) s s'" and ok': "poller_ok s'" "kernel_ok s'" "clock_ok s'"
    and at: "conn_at s k c ch" "conn_at s' k c' (ch\<lparr>ch_events := ev\<rparr>)"
    and c': "c' = c\<lparr>c_input := bi, c_output := bo\<rparr>" "idle_input bi" "output_ok bo" "output_waits c' (ch\<lparr>ch_events := ev\<rparr>)"
    and others: "\<And>j. j \<noteq> k \<Longrightarrow> conns s' j = conns s j" "channels s' = channels s" "connections s' = connections s"
      "pendingFunctors s' = pendingFunctors s" "open_fds s' = open_fds s" "malloc s' = malloc s" "timers s' = timers s"
      "nextConnId s' = nextConnId s" "server_name s' = server_name s" "server_callbacks s' = server_callbacks s"
      "newConnectionCallback s' = newConnectionCallback s" "threadId s' = threadId s"
  shows "net_inv T None [] [] s'" "calm s s'"
proof -
  let ?ch = "ch\<lparr>ch_events := ev\<rparr>" and ?a = "c_channel c"
  from open_conn [OF inv k] at(1) have o: "c_state c \<in> {kConnected, kDisconnecting}" "k \<notin> set (destroys (pendingFunctors s))"
    "chan_ok s ?a ch" "readCallback ch = Some (ConnectionRead k)"
    by (metis append_Nil conn_at_fun)+
  note D = conns_okD [OF inv k(1)]
  have ap: "apart k ?a s" by (rule apart_own [OF inv k(1)])
  have at': "conns s' k = Some c'" "heap s' ?a = Some ?ch"
    using conn_atD(1,2) [OF at(2)] by (simp_all add: c'(1))
  have keep: "\<exists>c. conns s' j = Some c \<and> c_channel c = c_channel d" if "conns s j = Some d" for j d
    using that others(1) [of j] k(1) at'(1) by (cases "j = k") (auto simp: c'(1))
  have ch': "chan_ok s' ?a ?ch"
    using o(3) keep unfolding chan_ok_def by (simp, metis)
  have fits: "conn_fits None [] [] s' k c'"
    using at(2) c'(2-4) o(1,2) k(2) by (auto simp: conn_fits_def c'(1) others)
  have "conns_ok None [] [] s'"
  proof (rule conns_ok_step [OF inv per ap])
    show "c_sockfd d \<in> open_fds s'" if "conns s j = Some d" for j d using conns_okD(1) [OF inv that] by (simp add: others)
    show "c_sockfd d \<in> open_fds s' \<and> c_closeCallback d \<and> c_connectionCallback d \<noteq> None \<and> c_messageCallback d \<noteq> None
       \<and> (\<exists>ch. heap s' (c_channel d) = Some ch \<and> readCallback ch = Some (ConnectionRead k)) \<and> conn_fits None [] [] s' k d"
      if "conns s' k = Some d" for d
    proof -
      have d: "d = c'" using that at'(1) by simp
      show ?thesis unfolding d using D fits at'(2) o(4) by (simp add: c'(1) others)
    qed
  qed (simp_all add: others same_role_def)
  moreover have "chans_ok s'"
  proof (rule chans_ok_step [OF inv per ap])
    show "f \<in> open_fds s' \<and> (\<exists>ch. heap s' ?a = Some ch \<and> chan_ok s' ?a ch)" if "channels s' f = Some ?a" for f
    proof -
      have "chans_ok s" using inv by (simp add: net_inv_def)
      with that have "f \<in> open_fds s" unfolding chans_ok_def others by blast
      with at'(2) ch' show ?thesis by (auto simp: others)
    qed
  qed (simp_all add: others)
  moreover have "fds_ok s'"
  proof (rule fds_ok_cong [of s])
    show "\<exists>c. conns s j = Some c \<and> c_sockfd d = c_sockfd c \<and> c_channel d = c_channel c" if "conns s' j = Some d" for j d
      using that others(1) [of j] k(1) at'(1) by (cases "j = k") (auto simp: c'(1))
  qed (use inv in \<open>simp_all add: net_inv_def others\<close>)
  moreover have "memory_ok s'"
  proof (rule memory_ok_step [OF _ per])
    show "memory_ok s" using inv by (simp add: net_inv_def)
    show "conns s' j = None" if "conns s j = None" for j using that k(1) others(1) [of j] by (cases "j = k") auto
  qed (use conn_atD(2) [OF at(1)] in \<open>simp_all add: others\<close>)
  moreover have "map_ok None [] s'"
  proof -
    have "map_ok None [] s" using inv by (simp add: net_inv_def)
    moreover have "\<exists>c. conns s' j = Some c \<and> c_name c = nm" if "conns s j = Some d" "c_name d = nm" for j d nm
      using that others(1) [of j] k(1) at'(1) by (cases "j = k") (auto simp: c'(1))
    ultimately show ?thesis unfolding map_ok_def others by blast
  qed
  moreover have "queue_ok None [] [] s'"
  proof -
    have "conns s' j \<noteq> None" if "conns s j \<noteq> None" for j
      using that others(1) [of j] at'(1) by (cases "j = k") auto
    then show ?thesis using inv unfolding net_inv_def queue_ok_def others by blast
  qed
  ultimately show "net_inv T None [] [] s'" using inv ok' by (simp add: net_inv_def others)
  have "live b s'" if "live b s" for b
  proof (cases "b = ?a")
    case True
    with at'(2) ch' o(4) at'(1) k(2) show ?thesis by (auto simp: live_def others c'(1))
  next
    case False
    show ?thesis by (rule live_step [OF per ap _ _ False that]) (simp_all add: others)
  qed
  moreover have "\<exists>d'. heap s' b = Some d' \<and> writeCallback d' = writeCallback d" if "heap s b = Some d" for b d
  proof (cases "b = ?a")
    case True
    with that at'(2) conn_atD(2) [OF at(1)] show ?thesis by simp
  next
    case False
    from per False that obtain i where "heap s' b = Some (d\<lparr>ch_index := i\<rparr>)" by (rule persistE) blast
    then show ?thesis by simp
  qed
  ultimately show "calm s s'" by (simp add: calm_def)
qed

lemma sent_safe:
  assumes inv: "net_inv T None [] [] s" and k: "conns s k = Some c" "connections s (c_name c) = Some k"
    and sent: "sent_more k m message s c s'" and small: "m + length message \<le> 2 ^ 40"
  obtains c' where "net_inv T None [] [] s'" "calm s s'" "conns s' k = Some c'" "c_state c' = c_state c"
    "c_name c' = c_name c" "connections s' = connections s" "buf_budget (m + length message) (c_output c')" "tame s s'"
proof -
  from sent obtain c2 ch2 where 2: "poller_ok s'" "conn_step k s s'" "conn_at s' k c2 ch2" "output_waits c2 ch2"
    "buf_budget (m + length message) (c_output c2)" "sent s' c2 = sent s c @ message"
    "content (c_output c) \<noteq> [] \<longrightarrow> wire s' (c_sockfd c) = wire s (c_sockfd c)" unfolding sent_more_def by blast
  from 2(2) obtain c1 ch b ev H F C W R where 1: "conn_at s k c1 ch" "conn_at s' k (c1\<lparr>c_output := b\<rparr>) (ch\<lparr>ch_events := ev\<rparr>)"
     "s' = s\<lparr>heap := H, pollfds := F, conns := C, wire := W, write_results := R\<rparr>"
     "\<forall>j. j \<noteq> k \<longrightarrow> C j = conns s j" "persist (c_channel c1) s s'" "\<forall>f. f \<noteq> c_sockfd c1 \<longrightarrow> W f = wire s f"
    unfolding conn_step_def by blast
  from conn_atD(1) [OF 1(1)] k(1) have c1: "c1 = c" by simp
  from conn_at_fun [OF 1(2) 2(3)] have c2: "c2 = c\<lparr>c_output := b\<rparr>" "ch2 = ch\<lparr>ch_events := ev\<rparr>" by (simp_all add: c1)
  from open_conn [OF inv k] have inp: "idle_input (c_input c)" by metis
  have out: "output_ok b" using 2(5) small by (auto simp: output_ok_def buf_budget_def c2 budget_defs)
  have "kernel_ok s'" "clock_ok s'" using inv by (simp_all add: 1(3) net_inv_def kernel_ok_def clock_ok_def)
  note safe = conn_change_safe [OF inv k 1(5) [unfolded c1] 2(1) this 1(1) [unfolded c1] 1(2) [unfolded c1] _ inp out]
  have eq: "c\<lparr>c_output := b\<rparr> = c\<lparr>c_input := c_input c, c_output := b\<rparr>" by simp
  have waits: "output_waits (c\<lparr>c_output := b\<rparr>) (ch\<lparr>ch_events := ev\<rparr>)" using 2(4) by (simp add: c2)
  have chs: "channels s' = channels s" by (simp add: 1(3))
  have F: "conns s' j = conns s j" if "j \<noteq> k" for j using 1(4) that by (simp add: 1(3))
  have "net_inv T None [] [] s'" by (rule safe(1) [OF eq waits F]) (simp_all add: 1(3))
  moreover have "calm s s'" by (rule safe(2) [OF eq waits F]) (simp_all add: 1(3))
  moreover have "waiting_stays s s'"
    unfolding waiting_stays_def
  proof (intro allI impI, elim conjE)
    fix j d e
    assume j: "conns s j = Some d" "content (c_output d) \<noteq> []" "conns s' j = Some e"
    show "(\<exists>more. content (c_output e) = content (c_output d) @ more) \<and> wire s' (c_sockfd d) = wire s (c_sockfd d)"
    proof (cases "j = k")
      case True
      with j k(1) conn_atD(1) [OF 2(3)] have eq: "d = c" "e = c2" by simp_all
      have "wire s' (c_sockfd c) = wire s (c_sockfd c)" using 2(7) j(2) by (simp add: eq)
      with 2(6) show ?thesis by (simp add: eq sent_def c2)
    next
      case False
      have "fds_ok s" using inv by (simp add: net_inv_def)
      from fds_okD(1) [OF this j(1) k(1)] False have "c_sockfd d \<noteq> c_sockfd c" by blast
      with 1(6) have "wire s' (c_sockfd d) = wire s (c_sockfd d)" by (simp add: 1(3) c1)
      with F [OF False] j show ?thesis by simp
    qed
  qed
  then have "tame s s'"
    by (rule tame_put [OF k(1) _ _ _ _ _ _ _ _ _ _ conn_atD(1) [OF 2(3)] F, rotated -1]) (simp_all add: c2 1(3))
  ultimately have "net_inv T None [] [] s'" "calm s s'" "tame s s'" .
  with that conn_atD(1) [OF 2(3)] 2(5) show thesis by (simp add: c2 1(3))
qed

section \<open>The callbacks of main.cpp\<close>

lemma sample_send:
  assumes inv: "net_inv T None [] [] s" and k: "conns s k = Some c" "connections s (c_name c) = Some k" "c_state c = kConnected"
    and budget: "buf_budget m (c_output c)" "m + length message \<le> 2 ^ 40"
  shows "okR (\<lambda>s'. net_inv T None [] [] s' \<and> calm s s' \<and> tame s s' \<and> (\<exists>c'. conns s' k = Some c' \<and> c_state c' = kConnected
      \<and> connections s' (c_name c') = Some k \<and> buf_budget (m + length message) (c_output c')))
    (TcpConnection_send T v message k s)"
proof -
  have t: "threadId s = T" and ok: "poller_ok s" using inv by (simp_all add: net_inv_def)
  from open_conn [OF inv k(1,2)] obtain ch where ch: "conn_at s k c ch" "output_waits c ch" by metis
  have "TcpConnection_send T v message k s = sendInLoop T message k s"
    using k t by (simp add: TcpConnection_send_def get_conn_def isInLoopThread_def)
  moreover have "m + length message \<le> buffer_capacity" using budget(2) by (simp add: budget_defs)
  then have "okR (sent_more k m message s c) (sendInLoop T message k s)"
    by (rule sendInLoop_spec [OF ok ch(1) t budget(1) _ ch(2)])
  moreover have "net_inv T None [] [] s' \<and> calm s s' \<and> tame s s' \<and> (\<exists>c'. conns s' k = Some c' \<and> c_state c' = kConnected
      \<and> connections s' (c_name c') = Some k \<and> buf_budget (m + length message) (c_output c'))"
    if "sent_more k m message s c s'" for s'
    using sent_safe [OF inv k(1,2) that budget(2)] k(2,3) by metis
  ultimately show ?thesis by (auto elim!: okR_mono)
qed

lemma sample_up:
  assumes inv: "net_inv T None [] [] s" and k: "conns s k = Some c" "c_state c = kConnected" "connections s (c_name c) = Some k"
    and new: "new_buffer = Inr (c_output c)" and size: "length m1 + length m2 \<le> 2 ^ 40"
  shows "okR (\<lambda>s'. net_inv T None [] [] s' \<and> calm s s' \<and> tame s s') (onConnection m1 m2 k s)"
proof -
  have t: "threadId s' = T" if "net_inv T None [] [] s'" for s' using that by (simp add: net_inv_def)
  have budget: "buf_budget 0 (c_output c)" using buf_budget_new [OF new] by simp
  have run: "onConnection m1 m2 k s = bindR (TcpConnection_send T 1 m1 k s) (TcpConnection_send T 2 m2 k)"
    using k t [OF inv] by (simp add: onConnection_def get_conn_def)
  have size1: "0 + length m1 \<le> 2 ^ 40" using size by simp
  have second: "okR (\<lambda>s'. net_inv T None [] [] s' \<and> calm s s' \<and> tame s s') (TcpConnection_send T 2 m2 k s1)"
    if s1: "net_inv T None [] [] s1" "calm s s1" "tame s s1" "conns s1 k = Some c1" "c_state c1 = kConnected"
      "connections s1 (c_name c1) = Some k" "buf_budget (0 + length m1) (c_output c1)" for s1 c1
  proof (rule okR_mono [OF sample_send [OF s1(1,4,6,5,7)]])
    show "0 + length m1 + length m2 \<le> 2 ^ 40" using size by simp
  qed (use s1(2,3) calm_trans tame_trans in blast)
  show ?thesis
    unfolding run okR_bindR
    by (rule okR_mono [OF sample_send [OF inv k(1,3,2) budget size1]]) (use second in blast)
qed

lemma sample_message:
  assumes inv: "net_inv T None [] [] s" and k: "conns s k = Some c" "connections s (c_name c) = Some k"
    and b: "buf_ok b" "length (storage b) \<le> 2 ^ 31"
  shows "okR (\<lambda>s'. net_inv T None [] [] s' \<and> calm s s' \<and> tame s s') (onMessage k ts (put_conn k (c\<lparr>c_input := b\<rparr>) s))"
proof -
  let ?c = "c\<lparr>c_input := retrieveAll b, c_output := c_output c\<rparr>"
  let ?s = "put_conn k ?c s"
  have run: "onMessage k ts (put_conn k (c\<lparr>c_input := b\<rparr>) s) = Inr ?s"
    by (simp add: onMessage_def get_conn_def put_conn_def)
  from open_conn [OF inv k] obtain ch where ch: "conn_at s k c ch" "output_waits c ch" "output_ok (c_output c)" by metis
  have idle: "idle_input (retrieveAll b)"
    using retrieveAll_spec [OF b(1)] b(2) by (auto simp: idle_input_def buf_holds_def retrieveAll_def kCheapPrepend_def)
  have "poller_ok ?s" using inv poller_cong(2) [of ?s s] by (simp add: net_inv_def)
  moreover have "kernel_ok ?s" "clock_ok ?s" using inv by (simp_all add: net_inv_def kernel_ok_def clock_ok_def)
  moreover have "persist (c_channel c) s ?s"
    using persist_cong(1) [of ?s s "c_channel c" s] persist_refl [of "c_channel c" s] by simp
  moreover have "conn_at ?s k ?c (ch\<lparr>ch_events := ch_events ch\<rparr>)" using ch(1) by (simp add: conn_at_def)
  moreover have "output_waits ?c (ch\<lparr>ch_events := ch_events ch\<rparr>)" using ch(2) by (simp add: output_waits_def)
  ultimately have "net_inv T None [] [] ?s" "calm s ?s"
    using conn_change_safe [OF inv k _ _ _ _ ch(1) _ refl idle ch(3), of ?s "ch_events ch"] by simp_all
  moreover have "waiting_stays s ?s" using k(1) by (auto simp: waiting_stays_def)
  then have "tame s ?s" by (intro tame_put [OF k(1)]) simp_all
  ultimately show ?thesis unfolding run by simp
qed

text \<open>The sample server, with \<open>user\<close> for what the functors of the user do, and the lengths of its messages.\<close>

definition main_with ::
  "(main_fun \<Rightarrow> (main_fun, 'z) world_scheme \<Rightarrow> (main_fun, 'z) world_scheme res) \<Rightarrow> 32 word \<Rightarrow> 32 word \<Rightarrow> (main_fun, 'z) program" where
  "main_with user n1 n2 = (main_code (replicate (unat n1) (CHR ''A'')) (replicate (unat n2) (CHR ''B'')))\<lparr>run_user := user\<rparr>"

lemma main_with_simps:
  "run_user (main_with user n1 n2) = user" "on_message (main_with user n1 n2) u = onMessage"
  "on_connection (main_with user n1 n2) u = onConnection (replicate (unat n1) (CHR ''A'')) (replicate (unat n2) (CHR ''B''))"
  by (simp_all add: main_with_def main_code_def)

lemma main_with_return: "main_with (\<lambda>u s. Inr s) n1 n2 = main_code (replicate (unat n1) (CHR ''A'')) (replicate (unat n2) (CHR ''B''))"
  by (simp add: main_with_def main_code_def)

text \<open>Its callbacks keep the contract with every invariant \<open>G\<close> of what they leave alone.\<close>

lemma sample_users:
  assumes faults: "server_faults \<subseteq> E"
    and user: "\<And>ds fs u s. net_inv T None ds fs s \<Longrightarrow> G s \<Longrightarrow> safeR E (\<lambda>s'. net_inv T None ds fs s' \<and> G s') (user u s)"
    and alarm: "\<And>s. net_inv T None [] [] s \<Longrightarrow> G s \<Longrightarrow>
      safeR E (\<lambda>s'. (net_inv T None [] [] s' \<and> calm s s') \<and> G s') (TimerQueue_handleRead user T s)"
    and tame: "\<And>s s'. G s \<Longrightarrow> tame s s' \<Longrightarrow> G s'"
    and opened: "\<And>s k c s'. G s \<Longrightarrow> opened s k c s' \<Longrightarrow> G s'"
    and closed: "\<And>s k c s'. G s \<Longrightarrow> conns s k = Some c \<Longrightarrow> same_lives (put_conn k (c\<lparr>c_state := kDisconnected\<rparr>) s) s' \<Longrightarrow> G s'"
    and destroyed: "\<And>s k c. G s \<Longrightarrow> conns s k = Some c \<Longrightarrow> G (TcpConnection_dtor k s)"
    and kept: "\<And>s s'. G s \<Longrightarrow> same_lives s s' \<Longrightarrow> G s'"
  shows "server_users (main_with user n1 n2) T G E"
proof unfold_locales
  let ?m1 = "replicate (unat n1) (CHR ''A'')" and ?m2 = "replicate (unat n2) (CHR ''B'')" and ?P = "main_with user n1 n2"
  have "unat n1 < 2 ^ 32" "unat n2 < 2 ^ 32" using unsigned_less [of n1] unsigned_less [of n2] by simp_all
  then have size: "length ?m1 + length ?m2 \<le> 2 ^ 40" by simp
  fix s s0 s' and k c and u :: main_fun and b :: buffer and ts and ds fs :: "main_fun task list"
  show "safeR E (\<lambda>s'. net_inv T None ds fs s' \<and> G s') (run_user ?P u s)" if "net_inv T None ds fs s" "G s"
    using user [OF that] by (simp add: main_with_simps)
  show "safeR E (\<lambda>s'. (net_inv T None [] [] s' \<and> calm s s') \<and> G s') (TimerQueue_handleRead (run_user ?P) T s)"
    if "net_inv T None [] [] s" "G s"
    using alarm [OF that] by (simp add: main_with_simps)
  show "safeR E (\<lambda>s'. (net_inv T None [] [] s' \<and> calm s s') \<and> G s') (on_connection ?P u k s)"
    if "net_inv T None [] [] s" "conns s k = Some c" "c_state c = kConnected"
      "connections s (c_name c) = Some k" "new_buffer = Inr (c_output c)" "opened s0 k c s" "G s0"
    using sample_up [OF that(1-5) size] tame [OF opened [OF that(7,6)]]
    by (auto simp: main_with_simps intro: okR_safeR elim!: okR_mono)
  show "safeR E (\<lambda>s'. (net_inv T None [] [] s' \<and> calm s s') \<and> G s') (on_message ?P u k ts (put_conn k (c\<lparr>c_input := b\<rparr>) s))"
    if "net_inv T None [] [] s" "conns s k = Some c" "connections s (c_name c) = Some k" "buf_ok b" "length (storage b) \<le> 2 ^ 31" "G s"
    using sample_message [OF that(1-5), of ts] tame [OF that(6)]
    by (auto simp: main_with_simps intro: okR_safeR elim!: okR_mono)
  show "safeR E (\<lambda>s'. net_inv T (Some k) ds fs s' \<and> G s') (on_connection ?P u k s)"
    if "net_inv T (Some k) ds fs s" "conns s0 k = Some c" "c_state c \<in> {kConnected, kDisconnecting}"
      "same_lives (put_conn k (c\<lparr>c_state := kDisconnected\<rparr>) s0) s" "G s0"
  proof -
    have "conns s k = Some (c\<lparr>c_state := kDisconnected\<rparr>)" using that(4) by (simp add: same_lives_def)
    with that(1) closed [OF that(5,2,4)] show ?thesis by (simp add: main_with_simps onConnection_def get_conn_def)
  qed
qed (use faults destroyed kept in blast)+

text \<open>The program as it is sets no timers.\<close>

interpretation sample: server_users
    "main_code (replicate (unat n1) (CHR ''A'')) (replicate (unat n2) (CHR ''B''))" T "\<lambda>s. timers s = []" server_faults
  for n1 n2 :: "32 word" and T :: int
  unfolding main_with_return [symmetric]
proof (rule sample_users)
  fix s :: "(main_fun, 'a) world_scheme"
  show "safeR server_faults (\<lambda>s'. (net_inv T None [] [] s' \<and> calm s s') \<and> timers s' = []) (TimerQueue_handleRead (\<lambda>u s. Inr s) T s)"
    if "net_inv T None [] [] s" "timers s = []"
    using that(2) by (auto intro!: okR_safeR okR_mono [OF idle_alarm [OF that]] simp: same_lives_def)
qed (auto simp: tame_def opened_def same_lives_def TcpConnection_dtor_def)

end
