(* ===== verification/Startup.thy ===== *)
theory Startup
  imports SampleServer
begin

text \<open>
  From an empty memory to the invariant: the constructors of the loop and of the server, \<open>start\<close>, and
  with them the whole run of \<open>main\<close>.
\<close>

section \<open>A loop without connections\<close>

definition boot_ok :: "int \<Rightarrow> ('u, 'z) world_scheme \<Rightarrow> bool" where
  "boot_ok t s \<longleftrightarrow> threadId s = t \<and> poller_ok s \<and> chans_ok s \<and> memory_ok s \<and> kernel_ok s \<and> clock_ok s
     \<and> conns s = Map.empty \<and> timers s = [] \<and> pendingFunctors s = [] \<and> \<not> looping s"

definition reader :: "callback \<Rightarrow> nat \<Rightarrow> int \<Rightarrow> callback channel" where
  "reader cb loop f = setReadCallBack cb (new_channel loop f)"

lemma boot_cong:
  assumes P: "heap s' = heap s" "pollfds s' = pollfds s" "channels s' = channels s" "loopId s' = loopId s"
    and F: "threadId s' = threadId s" "conns s' = conns s" "timers s' = timers s"
      "pendingFunctors s' = pendingFunctors s" "looping s' = looping s" "open_fds s \<subseteq> open_fds s'"
    and C: "clock s' = clock s" "accepts s' = accepts s" "reads s' = reads s"
    and M: "inj (malloc s')" "\<And>i. \<exists>j. malloc s' i = malloc s j"
    and ok: "boot_ok t s"
  shows "boot_ok t s'"
proof -
  have "chan_ok s' = chan_ok s" by (intro ext) (simp add: chan_ok_def F)
  moreover have "chans_ok s" using ok by (simp add: boot_ok_def)
  ultimately have "chans_ok s'" using F(6) unfolding chans_ok_def P by (metis subsetD)
  moreover have "memory_ok s'"
  proof -
    have "memory_ok s" using ok by (simp add: boot_ok_def)
    then have "heap s (malloc s' i) = None \<and> conns s (malloc s' i) = None" for i
      using M(2) [of i] by (auto simp: memory_ok_def)
    with M(1) show ?thesis by (simp add: memory_ok_def P F)
  qed
  moreover have "kernel_ok s'" "clock_ok s'" using ok by (simp_all add: boot_ok_def kernel_ok_def clock_ok_def C)
  ultimately show ?thesis using ok by (simp add: boot_ok_def poller_cong [OF P] F)
qed

lemma boot_channel:
  assumes ok: "boot_ok t s" and a: "heap s a = None" "\<And>i. malloc s i \<noteq> a"
  shows "boot_ok t (put_channel a (reader cb l f) s)"
proof -
  let ?s = "put_channel a (reader cb l f) s"
  have F: "heap ?s = (heap s)(a \<mapsto> reader cb l f)" "channels ?s = channels s" by (simp_all add: put_channel_def)
  have old: "chans_ok s" "poller_ok s" using ok by (simp_all add: boot_ok_def)
  have ch: "chan_ok ?s = chan_ok s" by (intro ext) (simp add: chan_ok_def)
  have "chans_ok ?s"
    unfolding chans_ok_def
  proof (intro allI impI)
    fix g b
    assume "channels ?s g = Some b"
    with old(1) obtain d where "g \<in> open_fds s" "heap s b = Some d" "chan_ok s b d" unfolding chans_ok_def F by blast
    with a(1) show "g \<in> open_fds ?s \<and> (\<exists>ch. heap ?s b = Some ch \<and> chan_ok ?s b ch)" by (auto simp: F ch)
  qed
  moreover have "poller_ok ?s"
    using old(2) a(1) by (rule put_new_channel_ok) (simp add: reader_def setReadCallBack_def new_channel_def)
  moreover have "memory_ok ?s" using ok a(2) by (simp add: boot_ok_def memory_ok_def F)
  moreover have "kernel_ok ?s" "clock_ok ?s" using ok by (simp_all add: boot_ok_def kernel_ok_def clock_ok_def)
  ultimately show ?thesis using ok by (simp add: boot_ok_def)
qed

lemma boot_enable:
  assumes ok: "boot_ok t s" and a: "heap s a = Some (reader cb (loopId s) f)" and f: "0 \<le> f" "f \<in> open_fds s" "channels s f = None"
    and cb: "\<And>k. cb \<noteq> ConnectionRead k"
  obtains s' where "Channel_set_interest t EnableReading a s = Inr s'" "boot_ok t s'" "channels s' = (channels s)(f \<mapsto> a)"
    "poller.more s' = poller.more s" "loopId s' = loopId s" "\<And>b. b \<noteq> a \<Longrightarrow> heap s' b = heap s b"
proof -
  let ?ch = "reader cb (loopId s) f"
  let ?s = "interest_set EnableReading a ?ch s"
  have w: "watchable s a ?ch" using a f by (simp add: watchable_def reader_def setReadCallBack_def new_channel_def)
  have p: "poller_ok s" "threadId s = t" "chans_ok s" using ok by (simp_all add: boot_ok_def)
  from interest_set_channel [OF w, of EnableReading] obtain i where
    h: "heap ?s a = Some (?ch\<lparr>ch_events := kReadEvent, ch_index := i\<rparr>)" (is "_ = Some ?ch'")
    and chs: "channels ?s = (channels s)(f \<mapsto> a)" and others: "\<And>b. b \<noteq> a \<Longrightarrow> heap ?s b = heap s b"
    by (auto simp: reader_def setReadCallBack_def new_channel_def)
  have ch: "chan_ok ?s = chan_ok s" by (intro ext) (simp add: chan_ok_def)
  have mine: "chan_ok s a ?ch'" using cb by (simp add: chan_ok_def reader_def setReadCallBack_def new_channel_def)
  have "chans_ok ?s"
    unfolding chans_ok_def
    unfolding ch
  proof (intro allI impI)
    fix g b
    assume g: "channels ?s g = Some b"
    show "g \<in> open_fds ?s \<and> (\<exists>ch. heap ?s b = Some ch \<and> chan_ok s b ch)"
    proof (cases "g = f")
      case True
      with g f(2) h mine show ?thesis by (auto simp: chs)
    next
      case False
      with g have "channels s g = Some b" by (simp add: chs)
      with p(3) obtain d where d: "g \<in> open_fds s" "heap s b = Some d" "chan_ok s b d" unfolding chans_ok_def by blast
      show ?thesis
      proof (cases "b = a")
        case True
        with d(1) h mine show ?thesis by simp
      next
        case False
        with d others [OF False] show ?thesis by simp
      qed
    qed
  qed
  moreover have "poller_ok ?s" using p(1) w by (rule interest_set_ok)
  moreover have "memory_ok ?s"
  proof -
    have mem: "memory_ok s" using ok by (simp add: boot_ok_def)
    then have "malloc s i \<noteq> a" for i using a by (metis memory_ok_def option.distinct(1))
    with mem show ?thesis by (simp add: memory_ok_def others)
  qed
  moreover have "kernel_ok ?s" "clock_ok ?s" using ok by (simp_all add: boot_ok_def kernel_ok_def clock_ok_def)
  ultimately have "boot_ok t ?s" using ok by (simp add: boot_ok_def)
  moreover have "Channel_set_interest t EnableReading a s = Inr ?s" by (rule set_interest_eq [OF p(1) w p(2)])
  ultimately show thesis using that chs others by simp
qed

section \<open>main up to the loop\<close>

definition blank :: "('u, 'z) world_scheme \<Rightarrow> bool" where
  "blank s \<longleftrightarrow> heap s = Map.empty \<and> conns s = Map.empty \<and> inj (malloc s) \<and> kernel_ok s \<and> clock_ok s"

lemma poller_ok_empty: "heap s = Map.empty \<Longrightarrow> pollfds s = [] \<Longrightarrow> channels s = Map.empty \<Longrightarrow> poller_ok s"
  by (simp add: poller_ok_def)

lemma fresh_reader:
  assumes ok: "boot_ok t s" and f: "0 \<le> f" "f \<in> open_fds s" "channels s f = None" and a: "heap s a = None" "\<And>i. malloc s i \<noteq> a"
    and cb: "\<And>k. cb \<noteq> ConnectionRead k" and l: "l = loopId s"
  obtains s' where "Channel_set_interest t EnableReading a (put_channel a (reader cb l f) s) = Inr s'" "boot_ok t s'"
    "channels s' = (channels s)(f \<mapsto> a)" "poller.more s' = poller.more s" "loopId s' = loopId s" "\<And>b. b \<noteq> a \<Longrightarrow> heap s' b = heap s b"
proof -
  let ?p = "put_channel a (reader cb l f) s"
  have P: "heap ?p a = Some (reader cb (loopId ?p) f)" "channels ?p = channels s" "loopId ?p = loopId s"
    "poller.more ?p = poller.more s" "\<And>b. b \<noteq> a \<Longrightarrow> heap ?p b = heap s b" by (simp_all add: put_channel_def l)
  from boot_enable [OF boot_channel [OF ok a] P(1) f(1) _ _ cb] f(2,3) that show thesis
    unfolding P(2-4) by (simp add: P(5)) blast
qed

lemma EventLoop_ctor_ok:
  assumes s: "blank s" and fds: "0 \<le> efd" "0 \<le> tfd" "efd \<noteq> tfd"
  obtains s1 where "EventLoop_ctor t self (Success efd) tfd Map.empty s = Inr ([t \<mapsto> self], s1)" "boot_ok t s1"
    "channels s1 = [tfd \<mapsto> malloc s 0, efd \<mapsto> malloc s (Suc 0)]" "malloc s1 = (\<lambda>i. malloc s (Suc (Suc i)))"
    "\<forall>i. heap s1 (malloc s1 i) = None" "world.more s1 = world.more s" "open_fds s1 = insert efd (insert tfd (open_fds s))"
    "timer_heap s1 = Map.empty" "timerfd s1 = tfd"
proof -
  let ?b = "malloc s 0" and ?a = "malloc s (Suc 0)"
  define s2 where "s2 = s\<lparr>malloc := \<lambda>i. malloc s (Suc (Suc i)), loopId := self, threadId := t, pollfds := [], channels := Map.empty,
      looping := False, quit_flag := False, callingPendingFunctors := False, wakeupFd := efd, wakeupChannel := ?a,
      eventCount := 0, pendingFunctors := [], open_fds := insert efd (insert tfd (open_fds s)),
      timerfd := tfd, timerfdChannel := ?b, timers := [], timer_heap := Map.empty, timerfd_due := None,
      timerfd_ticks := 0, timer_vars := Map.empty\<rparr>"
  have inj: "inj (malloc s)" and empty: "heap s = Map.empty" using s by (simp_all add: blank_def)
  have M: "malloc s2 = (\<lambda>i. malloc s (Suc (Suc i)))" "channels s2 = Map.empty" "heap s2 = Map.empty" "loopId s2 = self"
    "open_fds s2 = insert efd (insert tfd (open_fds s))"
    using empty by (simp_all add: s2_def)
  have "inj (malloc s2)" using inj by (auto simp: M inj_def)
  moreover have "poller_ok s2" by (rule poller_ok_empty) (simp_all add: M, simp add: s2_def)
  moreover have "kernel_ok s2" "clock_ok s2" using s by (simp_all add: blank_def kernel_ok_def clock_ok_def s2_def)
  moreover have "chans_ok s2" by (simp add: chans_ok_def M)
  ultimately have ok: "boot_ok t s2" using s by (simp add: boot_ok_def memory_ok_def M) (simp add: s2_def blank_def)
  have ne: "malloc s i \<noteq> malloc s j" if "i \<noteq> j" for i j using inj that by (auto dest: injD)
  have "tfd \<in> open_fds s2" "channels s2 tfd = None" "heap s2 ?b = None" "\<And>i. malloc s2 i \<noteq> ?b" "self = loopId s2"
    by (simp_all add: M ne)
  from fresh_reader [OF ok fds(2) this(1-4) _ this(5), where cb = TimerRead] obtain s3 where
    s3: "Channel_set_interest t EnableReading ?b (put_channel ?b (reader TimerRead self tfd) s2) = Inr s3" "boot_ok t s3"
    "channels s3 = (channels s2)(tfd \<mapsto> ?b)" "poller.more s3 = poller.more s2" "loopId s3 = loopId s2"
    "\<And>c. c \<noteq> ?b \<Longrightarrow> heap s3 c = heap s2 c" by auto
  note F3 = more_eqD [OF s3(4)]
  have "efd \<in> open_fds s3" "channels s3 efd = None" "heap s3 ?a = None" "\<And>i. malloc s3 i \<noteq> ?a" "self = loopId s3"
    using fds(3) by (simp_all add: F3 s3(3,5,6) M ne)
  from fresh_reader [OF s3(2) fds(1) this(1-4) _ this(5), where cb = WakeupRead] obtain s4 where
    s4: "Channel_set_interest t EnableReading ?a (put_channel ?a (reader WakeupRead self efd) s3) = Inr s4" "boot_ok t s4"
    "channels s4 = (channels s3)(efd \<mapsto> ?a)" "poller.more s4 = poller.more s3"
    "\<And>c. c \<noteq> ?a \<Longrightarrow> heap s4 c = heap s3 c" by auto
  note F4 = more_eqD [OF s4(4)]
  have "EventLoop_ctor t self (Success efd) tfd Map.empty s = Inr ([t \<mapsto> self], s4)"
    using s3(1) s4(1) fds(2) by (simp add: EventLoop_ctor_def createEventfd_def or_die_def new_address_def Let_def
        TimerQueue_ctor_def createTimerfd_def reader_def s2_def)
  moreover have "heap s4 (malloc s4 i) = None" for i by (simp add: F4 F3 M s4(5) s3(6) ne)
  moreover have "world.more s4 = world.more s" "open_fds s4 = insert efd (insert tfd (open_fds s))" "timer_heap s4 = Map.empty" "timerfd s4 = tfd"
    by (simp_all add: F4 F3 M) (simp_all add: s2_def)
  ultimately show thesis using that s4(2,3) s3(3) by (simp add: M F4 F3)
qed

lemma boot_net_inv:
  assumes ok: "boot_ok t s" and f: "nextConnId s = 1" "connections s = Map.empty" "newConnectionCallback s"
    "server_callbacks s = (Some u, Some v)"
  shows "net_inv t None [] [] s"
proof -
  have "fds_ok s" "conns_ok None [] [] s" "map_ok None [] s" "queue_ok None [] [] s"
    using ok f by (simp_all add: fds_ok_def conns_ok_def map_ok_def queue_ok_def boot_ok_def)
  with ok f show ?thesis by (simp add: boot_ok_def net_inv_def)
qed

lemma main_setup_up:
  assumes s: "blank s" and fds: "0 \<le> efd" "0 \<le> tfd" "0 \<le> lfd" "distinct [efd, tfd, lfd]"
    and K: "eventfd_answer K = Success efd" "timerfd_answer K = tfd" "socket_answer K = Success lfd"
      "bind_answer K = Success ()" "listen_answer K = Success ()"
  obtains s1 where "main_setup t self K s = Inr s1" "net_inv t None [] [] s1" "\<not> looping s1"
    "\<exists>a. channels s1 lfd = Some a" "conns s1 = Map.empty" "timers s1 = []" "world.more s1 = world.more s"
    "open_fds s1 = insert lfd (insert efd (insert tfd (open_fds s)))" "timer_heap s1 = Map.empty"
    "malloc s1 = (\<lambda>i. malloc s (Suc (Suc (Suc i))))" "acceptFd s1 = lfd" "timerfd s1 = tfd"
proof -
  have "efd \<noteq> tfd" using fds(4) by simp
  with s fds(1,2) obtain s1 where s1:
    "EventLoop_ctor t self (Success efd) tfd Map.empty s = Inr ([t \<mapsto> self], s1)" "boot_ok t s1"
    "channels s1 = [tfd \<mapsto> malloc s 0, efd \<mapsto> malloc s (Suc 0)]" "malloc s1 = (\<lambda>i. malloc s (Suc (Suc i)))"
    "\<forall>i. heap s1 (malloc s1 i) = None" "world.more s1 = world.more s" "open_fds s1 = insert efd (insert tfd (open_fds s))"
    "timer_heap s1 = Map.empty" "timerfd s1 = tfd" by (rule EventLoop_ctor_ok [where t = t and self = self])
  let ?a = "malloc s1 0"
  define x where "x = s1\<lparr>malloc := \<lambda>i. malloc s1 (Suc i), reuse_addr := (case reuse_answer K of Success _ \<Rightarrow> insert lfd (reuse_addr s1) | Errno _ \<Rightarrow> reuse_addr s1),
      acceptFd := lfd, acceptChannel := ?a, listenning := False,
      newConnectionCallback := False, open_fds := insert lfd (open_fds s1)\<rparr>"
  let ?x = "put_channel ?a (reader AcceptorRead (loopId s1) lfd) x"
  define y where "y = ?x\<lparr>server_name := ''TcpServer'', nextConnId := 1, connections := Map.empty, newConnectionCallback := True,
      server_callbacks := (Some OnConnection, Some OnMessage), started := True, listenning := True\<rparr>"
  have inj: "inj (malloc s1)" using s1(2) by (simp add: boot_ok_def memory_ok_def)
  have M: "malloc x = (\<lambda>i. malloc s1 (Suc i))" "malloc y = malloc ?x" "heap x = heap s1" by (simp_all add: x_def y_def)
  have "inj (malloc x)" using inj by (auto simp: M inj_def)
  then have "boot_ok t x"
    by (rule boot_cong [where s = s1 and s' = x, rotated 13, OF _ _ s1(2)])
      (simp_all add: M, simp_all add: x_def subset_insertI, blast)
  then have okx: "boot_ok t ?x"
    by (rule boot_channel) (use inj in \<open>auto simp: M s1(5) dest: injD\<close>)
  then have "inj (malloc ?x)" by (simp add: boot_ok_def memory_ok_def)
  then have ok: "boot_ok t y"
    by (intro boot_cong [where s = ?x and s' = y, rotated 13, OF _ _ okx]) (simp_all add: y_def M(3), blast)
  have "heap y ?a = Some (reader AcceptorRead (loopId y) lfd)" "lfd \<in> open_fds y" "channels y lfd = None"
    using fds(4) by (simp_all add: y_def, simp_all add: x_def put_channel_def s1(3))
  from boot_enable [OF ok this(1) fds(3) this(2,3)] obtain s2 where
    s2: "Channel_set_interest t EnableReading ?a y = Inr s2" "boot_ok t s2"
    "channels s2 = (channels y)(lfd \<mapsto> ?a)" "poller.more s2 = poller.more y" by auto
  note F = more_eqD [OF s2(4)]
  have thr: "threadId s1 = t" using s1(2) by (simp add: boot_ok_def)
  have "TcpServer_ctor ''TcpServer'' (Success lfd) (reuse_answer K) (Success ()) s1 = Inr (?x\<lparr>server_name := ''TcpServer'', started := False,
      nextConnId := 1, connections := Map.empty, server_callbacks := (None, None), newConnectionCallback := True\<rparr>)"
    by (cases "reuse_answer K") (simp_all add: TcpServer_ctor_def Acceptor_ctor_def Socket_setReuseAddr_def createNonblockingOrDie_def bindOrDie_def or_die_def new_address_def
        reader_def x_def)
  then have "main_setup t self K s = Channel_set_interest t EnableReading ?a y"
    using thr by (simp add: main_setup_def K s1(1) TcpServer_start_def TcpServer_setCallbacks_def runInLoop_def isInLoopThread_def
        Acceptor_listen_def assertInLoopThread_def listenOrDie_def or_die_def y_def x_def)
  with s2(1) have "main_setup t self K s = Inr s2" by simp
  moreover have "net_inv t None [] [] s2"
    by (rule boot_net_inv [OF s2(2)]) (simp_all only: F, simp_all add: y_def)
  moreover have "\<not> looping s2" using s2(2) by (simp add: boot_ok_def)
  moreover have "\<exists>a. channels s2 lfd = Some a" by (simp add: s2(3))
  moreover have "conns s2 = Map.empty" "timers s2 = []" using s2(2) by (simp_all add: boot_ok_def)
  moreover have "world.more s2 = world.more s" "open_fds s2 = insert lfd (insert efd (insert tfd (open_fds s)))"
    "timer_heap s2 = Map.empty" "malloc s2 = (\<lambda>i. malloc s (Suc (Suc (Suc i))))"
    "acceptFd s2 = lfd" "timerfd s2 = tfd"
    using s1(4,6-9) by (simp_all add: F) (simp_all add: y_def, simp_all add: x_def)
  ultimately show thesis using that by blast
qed

lemma main_setup_ok:
  assumes s: "blank s" and fds: "0 \<le> efd" "0 \<le> tfd" "0 \<le> lfd" "distinct [efd, tfd, lfd]"
  obtains s1 where "main_setup t self (granted efd tfd lfd) s = Inr s1" "net_inv t None [] [] s1" "\<not> looping s1"
    "\<exists>a. channels s1 lfd = Some a" "conns s1 = Map.empty" "timers s1 = []" "world.more s1 = world.more s"
    "open_fds s1 = insert lfd (insert efd (insert tfd (open_fds s)))" "timer_heap s1 = Map.empty"
    "malloc s1 = (\<lambda>i. malloc s (Suc (Suc (Suc i))))" "acceptFd s1 = lfd" "timerfd s1 = tfd"
proof -
  have K: "eventfd_answer (granted efd tfd lfd) = Success efd" "timerfd_answer (granted efd tfd lfd) = tfd"
    "socket_answer (granted efd tfd lfd) = Success lfd" "bind_answer (granted efd tfd lfd) = Success ()"
    "listen_answer (granted efd tfd lfd) = Success ()" by (simp_all add: granted_def)
  show thesis by (rule main_setup_up [OF assms K, of t self]) (rule that)
qed

section \<open>The run of main\<close>

text \<open>The start-up ends at the first call of the kernel that fails; \<open>setsockopt\<close> is not looked at.\<close>

definition start_fault :: "start_answers \<Rightarrow> fault option" where
  "start_fault K = (case eventfd_answer K of Errno _ \<Rightarrow> Some (Aborted ''createEventfd'') | Success _ \<Rightarrow>
     if timerfd_answer K < 0 then Some (AssertFailed ''timerfd >= 0'') else
     case socket_answer K of Errno _ \<Rightarrow> Some (Aborted ''sockets::createNonblockingOrDie'') | Success _ \<Rightarrow>
     case bind_answer K of Errno _ \<Rightarrow> Some (Aborted ''sockets::bindOrDie'') | Success _ \<Rightarrow>
     case listen_answer K of Errno _ \<Rightarrow> Some (Aborted ''sockets::listenOrDie'') | Success _ \<Rightarrow> None)"

text \<open>What the kernel promises: a descriptor it gives is not negative, nor one that it has just given.\<close>

definition new_fds :: "start_answers \<Rightarrow> bool" where
  "new_fds K \<longleftrightarrow> (\<forall>e. eventfd_answer K = Success e \<longrightarrow> 0 \<le> e \<and> e \<noteq> timerfd_answer K)
     \<and> (\<forall>f. socket_answer K = Success f \<longrightarrow> 0 \<le> f \<and> f \<noteq> timerfd_answer K \<and> eventfd_answer K \<noteq> Success f)"

lemma new_fdsD:
  assumes "new_fds K" "eventfd_answer K = Success e" "\<not> timerfd_answer K < 0" "socket_answer K = Success f"
  shows "0 \<le> e" "0 \<le> timerfd_answer K" "0 \<le> f" "distinct [e, timerfd_answer K, f]"
  using assms by (auto simp: new_fds_def)

lemma main_program_up:
  assumes s: "blank s" and K: "new_fds K" "start_fault K = None"
  shows "safeR (insert LengthError server_faults) (\<lambda>(ended, s'). server_inv t None [] [] s')
    (main_program args t self K outcomes s)"
proof -
  obtain n1 n2 where args: "main_lengths args = (n1, n2)" by force
  from K(2) obtain e f where A: "eventfd_answer K = Success e" "\<not> timerfd_answer K < 0" "socket_answer K = Success f"
    "bind_answer K = Success ()" "listen_answer K = Success ()"
    by (auto simp: start_fault_def split: sysres.splits if_splits)
  obtain s1 where s1: "main_setup t self K s = Inr s1" "net_inv t None [] [] s1" "\<not> looping s1" "timers s1 = []"
    by (rule main_setup_up [OF s new_fdsD [OF K(1) A(1-3)] A(1) refl A(3-5), of t self]) (rule that)
  have t: "threadId s1 = t" using s1(2) by (simp add: net_inv_def)
  have "safeR server_faults (\<lambda>(ended, s'). server_inv t None [] [] s')
      (server_loop (main_code (replicate (unat n1) (CHR ''A'')) (replicate (unat n2) (CHR ''B''))) t outcomes s1)"
    unfolding server_loop_def server_inv_def by (rule sample.loop_safe [OF _ s1(3) t]) (use s1(2,4) in simp)
  then show ?thesis
    by (auto simp: main_program_def args message_resize_def s1(1) Let_def safeR_def split: sum.splits)
qed

lemma main_program_safe:
  assumes s: "blank s" and fds: "0 \<le> efd" "0 \<le> tfd" "0 \<le> lfd" "distinct [efd, tfd, lfd]"
  shows "safeR (insert LengthError server_faults) (\<lambda>(ended, s'). server_inv t None [] [] s')
    (main_program args t self (granted efd tfd lfd) outcomes s)"
  by (rule main_program_up [OF s]) (use fds in \<open>auto simp: new_fds_def start_fault_def granted_def\<close>)

text \<open>A call that fails ends \<open>main\<close> there, unless a length on the command line already has.\<close>

lemma EventLoop_ctor_fails:
  "EventLoop_ctor t self (Errno e) tfd lo s = Inl (Aborted ''createEventfd'')"
  "tfd < 0 \<Longrightarrow> lo t = None \<Longrightarrow> EventLoop_ctor t self (Success efd) tfd lo s = Inl (AssertFailed ''timerfd >= 0'')"
  by (simp_all add: EventLoop_ctor_def createEventfd_def or_die_def new_address_def Let_def TimerQueue_ctor_def createTimerfd_def)

lemma main_setup_fails:
  assumes s: "blank s" and K: "new_fds K" "start_fault K = Some e"
  shows "main_setup t self K s = Inl e"
proof (cases "eventfd_answer K")
  case (Errno n)
  with K(2) show ?thesis by (simp add: start_fault_def main_setup_def EventLoop_ctor_fails)
next
  case (Success efd)
  note ev = this
  show ?thesis
  proof (cases "timerfd_answer K < 0")
    case True
    with ev K(2) show ?thesis by (simp add: start_fault_def main_setup_def EventLoop_ctor_fails)
  next
    case False
    have fds: "0 \<le> efd" "0 \<le> timerfd_answer K" "efd \<noteq> timerfd_answer K" using K(1) ev False by (simp_all add: new_fds_def)
    obtain s1 where s1: "EventLoop_ctor t self (Success efd) (timerfd_answer K) Map.empty s = Inr ([t \<mapsto> self], s1)" "boot_ok t s1"
      by (rule EventLoop_ctor_ok [OF s fds, of t self]) (rule that)
    have thr: "threadId s1 = t" using s1(2) by (simp add: boot_ok_def)
    show ?thesis using K(2) ev False s1(1) thr
      by (cases "reuse_answer K")
        (auto simp: start_fault_def main_setup_def TcpServer_ctor_def Acceptor_ctor_def Socket_setReuseAddr_def TcpServer_start_def
          TcpServer_setCallbacks_def runInLoop_def isInLoopThread_def Acceptor_listen_def assertInLoopThread_def new_address_def
          createNonblockingOrDie_def bindOrDie_def listenOrDie_def or_die_def split: sysres.splits)
  qed
qed


definition demo_world :: "main_fun world" where
  "demo_world = \<lparr>loopId = 0, threadId = 0, heap = Map.empty, pollfds = [], channels = Map.empty,
     looping = True, quit_flag = False, callingPendingFunctors = False, wakeupFd = 0, wakeupChannel = 0, eventCount = 0,
     pendingFunctors = [], clock = \<lambda>i. (1600000000, 0), last_reading = Timestamp 0, timerfd = 0, timerfdChannel = 0,
     timer_heap = Map.empty, timers = [], timerfd_due = None, timerfd_ticks = 0, timer_vars = Map.empty, malloc = \<lambda>i. 100 + i,
     conns = Map.empty, message_vars = Map.empty, server_name = [], started = False, nextConnId = 0, connections = Map.empty,
     server_callbacks = (None, None), acceptFd = 0, acceptChannel = 0, listenning = False, newConnectionCallback = False,
     open_fds = {0, 1, 2}, reads = \<lambda>i f. if i = 0 then Inr ''hello'' else Inr [], write_results = \<lambda>i. 15,
     wire = \<lambda>f. [], shut_wr = {}, accepts = \<lambda>i F. if 7 \<in> F then Errno 24 else Success (7, zero_sockaddr),
     local_addrs = \<lambda>i. Success zero_sockaddr, reuse_addr = {}\<rparr>"

lemma demo_world_blank: "blank demo_world"
  by (auto simp: blank_def demo_world_def inj_def kernel_ok_def clock_ok_def timestamp_now_def kMicroSecondsPerSecond_def in_int64_def)


end
