(* ===== verification/ConnLife.thy ===== *)
theory ConnLife
  imports Startup
begin

text \<open>
  Properties of one connection of a server: what \<open>send\<close>, the write handler, \<open>shutdown\<close>, the read
  handler and the close handler do, and what does not work (output that waits, calls from other
  threads).
\<close>

section \<open>A server with one connection\<close>

definition demo_buffer :: buffer where
  "demo_buffer = \<lparr>storage = replicate 8 (CHR 0x00) @ ''tail'' @ replicate 1020 (CHR 0x00), readerIndex = 8, writerIndex = 12\<rparr>"

definition empty_buffer :: buffer where
  "empty_buffer = \<lparr>storage = replicate 1032 (CHR 0x00), readerIndex = 8, writerIndex = 8\<rparr>"

definition demo_chan :: "32 word \<Rightarrow> callback channel" where
  "demo_chan ev = \<lparr>ch_loop = 50, ch_fd = 7, ch_events = ev, ch_revents = 0, ch_index = 0, eventHandling = False,
     readCallback = Some (ConnectionRead 100), writeCallback = None, errorCallback = None, closeCallback = None\<rparr>"

definition demo_conn :: "buffer \<Rightarrow> main_fun tcpconn" where
  "demo_conn out = \<lparr>c_name = conn_name ''TcpServer'' 1, c_state = kConnected, c_sockfd = 7, c_channel = 200,
     c_localAddr = zero_sockaddr, c_peerAddr = zero_sockaddr, c_connectionCallback = Some OnConnection,
     c_messageCallback = Some OnMessage, c_closeCallback = True, c_input = empty_buffer, c_output = out\<rparr>"

definition demo_server :: "32 word \<Rightarrow> buffer \<Rightarrow> main_fun world" where
  "demo_server ev out = demo_world\<lparr>loopId := 50, threadId := 7, heap := [200 \<mapsto> demo_chan ev],
     pollfds := [\<lparr>pfd_fd = 7, pfd_events = ucast ev, pfd_revents = 0\<rparr>], channels := [7 \<mapsto> 200], malloc := \<lambda>i. 300 + i,
     conns := [100 \<mapsto> demo_conn out], server_name := ''TcpServer'', nextConnId := 2,
     connections := [conn_name ''TcpServer'' 1 \<mapsto> 100], server_callbacks := (Some OnConnection, Some OnMessage),
     newConnectionCallback := True, open_fds := {0, 1, 2, 7}\<rparr>"

lemma demo_buffers:
  "buf_budget 0 empty_buffer" "content empty_buffer = []" "buf_budget 0 demo_buffer" "content demo_buffer = ''tail''"
  by (simp_all add: empty_buffer_def demo_buffer_def budget_defs buf_ok_def content_def)

lemma demo_server_simps [simp]:
  "threadId (demo_server ev out) = 7" "heap (demo_server ev out) = [200 \<mapsto> demo_chan ev]"
  "conns (demo_server ev out) = [100 \<mapsto> demo_conn out]" "c_output (demo_conn out) = out" "c_input (demo_conn out) = empty_buffer"
  "c_state (demo_conn out) = kConnected" "c_channel (demo_conn out) = 200" "c_sockfd (demo_conn out) = 7"
  "connections (demo_server ev out) = [conn_name ''TcpServer'' 1 \<mapsto> 100]" "c_name (demo_conn out) = conn_name ''TcpServer'' 1"
  "channels (demo_server ev out) = [7 \<mapsto> 200]" "pendingFunctors (demo_server ev out) = []" "wire (demo_server ev out) = (\<lambda>f. [])"
  "isWriting (demo_chan kWriteEvent)" "\<not> isWriting (demo_chan kReadEvent)"
  by (simp_all add: demo_server_def demo_conn_def demo_world_def demo_chan_def isWriting_def kWriteEvent_def kReadEvent_def
      poll_masks)

lemma demo_server_at: "conn_at (demo_server ev out) 100 (demo_conn out) (demo_chan ev)"
  by (simp add: conn_at_def) (simp add: demo_server_def demo_chan_def)

lemma demo_server_poller: "ev \<in> legal_events \<Longrightarrow> poller_ok (demo_server ev out)"
  unfolding poller_ok_def slot_ok_def
  by (auto simp: demo_server_def demo_chan_def real_fd_def split: if_splits intro!: exI [of _ 200])

lemma demo_net_inv:
  assumes ev: "ev \<in> legal_events" and out: "buf_budget 0 out" "content out \<noteq> [] \<longrightarrow> isWriting (demo_chan ev)"
  shows "net_inv 7 None [] [] (demo_server ev out)"
proof -
  let ?s = "demo_server ev out"
  have "poller_ok ?s" by (rule demo_server_poller [OF ev])
  moreover have "conn_fits None [] [] ?s 100 (demo_conn out)"
    using demo_server_at [of ev out] out demo_buffers(1)
    by (auto simp: conn_fits_def output_waits_def idle_input_def output_ok_def budget_defs) (auto simp: empty_buffer_def)
  then have "conns_ok None [] [] ?s"
    by (simp add: conns_ok_def) (simp add: demo_server_def demo_conn_def demo_chan_def)
  moreover have "map_ok None [] ?s"
    by (simp add: map_ok_def, simp add: demo_server_def demo_world_def) (auto intro!: exI [of _ 1])
  moreover have "queue_ok None [] [] ?s" by (simp add: queue_ok_def)
  moreover have "chans_ok ?s" 
    by (simp add: chans_ok_def chan_ok_def, simp add: demo_server_def demo_world_def demo_chan_def demo_conn_def)
  moreover have "fds_ok ?s" by (simp add: fds_ok_def)
  moreover have "memory_ok ?s" by (simp add: memory_ok_def, simp add: demo_server_def inj_def)
  moreover have "kernel_ok ?s" "clock_ok ?s"
    using demo_world_blank by (simp_all add: blank_def kernel_ok_def clock_ok_def demo_server_def)
  ultimately show ?thesis by (simp add: net_inv_def) (simp add: demo_server_def demo_world_def)
qed

section \<open>Output\<close>

text \<open>C7. A message sent in the loop's thread is neither lost, duplicated nor reordered: what the kernel
  has taken followed by what waits in the output buffer grows by exactly the message, however much
  \<open>write\<close> accepts and whatever was waiting before; and what waits, waits with the channel writing.\<close>

theorem send_stream:
  assumes "poller_ok s" and c: "conn_at s k c ch" and t: "threadId s = t" and st: "c_state c = kConnected"
    and "buf_budget m (c_output c)" and "m + length message \<le> buffer_capacity"
    and "content (c_output c) \<noteq> [] \<longrightarrow> isWriting ch"
  shows "okR (\<lambda>s'. \<exists>c' ch'. conn_at s' k c' ch' \<and> (content (c_output c') \<noteq> [] \<longrightarrow> isWriting ch')
      \<and> wire s' (c_sockfd c') @ content (c_output c') = wire s (c_sockfd c) @ content (c_output c) @ message)
    (TcpConnection_send t v message k s)"
proof -
  have "output_waits c ch" using assms(7) by (simp add: output_waits_def)
  then have "okR (sent_more k m message s c) (sendInLoop t message k s)"
    by (rule sendInLoop_spec [OF assms(1-3,5,6)])
  then have "okR (\<lambda>s'. \<exists>c' ch'. conn_at s' k c' ch' \<and> (content (c_output c') \<noteq> [] \<longrightarrow> isWriting ch')
      \<and> wire s' (c_sockfd c') @ content (c_output c') = wire s (c_sockfd c) @ content (c_output c) @ message)
    (sendInLoop t message k s)"
    by (rule okR_mono) (auto simp: sent_more_def output_waits_def sent_def)
  then show ?thesis using st t conn_atD(7) [OF c] by (simp add: TcpConnection_send_def isInLoopThread_def)
qed

lemma send_stream_witness:
  "okR (\<lambda>s'. \<exists>c' ch'. conn_at s' 100 c' ch' \<and> (content (c_output c') \<noteq> [] \<longrightarrow> isWriting ch')
      \<and> wire s' (c_sockfd c') @ content (c_output c') = ''tail'' @ ''more'')
    (TcpConnection_send 7 1 ''more'' 100 (demo_server kWriteEvent demo_buffer))"
proof -
  have "kWriteEvent \<in> legal_events" by (simp add: legal_events_def)
  then show ?thesis
    using send_stream [OF demo_server_poller demo_server_at [of kWriteEvent demo_buffer], where t = 7 and m = 0 and message = "''more''" and v = 1]
      demo_buffers(3,4) by (simp add: budget_defs)
qed

lemma conn_at_shut [simp]: "conn_at (sys_shutdown_write f s) k c ch = conn_at s k c ch"
  by (simp add: conn_at_def sys_shutdown_write_def)

text \<open>What one call of \<open>write\<close> does, by how much of the data the kernel takes.\<close>

lemma sys_write_amount:
  obtains n r where "sys_write f d s = (r, s\<lparr>write_results := \<lambda>i. write_results s (Suc i),
      wire := (wire s)(f := wire s f @ take n d)\<rparr>)"
    and "n \<le> length d" "r = int n \<or> r < 0 \<and> n = 0"
    and "n = (if write_results s 0 < 0 then 0 else min (nat (write_results s 0)) (length d))"
  by (cases "write_results s 0 < 0") (force simp: sys_write_def Let_def)+

lemma output_bytes:
  "buf_ok b \<Longrightarrow> mem_read (storage b) (peek b) (readableBytes b) = Inr (content b)"
  using buf_okD [of b] by (simp add: mem_read_def content_def peek_def readable_ok)

lemma handleWrite_refused:
  assumes "conn_at s k c ch" and "threadId s = t" and "isWriting ch" and "buf_ok (c_output c)"
    and "sys_write (c_sockfd c) (content (c_output c)) s = (r, s1)" and "\<not> 0 < r"
  shows "handleWrite t k s = Inr s1"
  using assms conn_atD(4,7,8) [OF assms(1)] by (simp add: handleWrite_def in_loop_thread output_bytes)

text \<open>When \<open>n\<close> bytes were taken: the rest stays, or writing ends, with the shutdown that was waiting.\<close>

lemma handleWrite_accepted:
  assumes c: "conn_at s k c ch" and t: "threadId s = t" and w: "isWriting ch" and b: "buf_ok (c_output c)"
    and wr: "sys_write (c_sockfd c) (content (c_output c)) s = (int n, s1)"
    and n: "0 < n" "n \<le> length (content (c_output c))" and ok: "poller_ok s1" and c1: "conn_at s1 k c ch"
  shows "\<exists>b'. buf_ok b' \<and> content b' = drop n (content (c_output c))
    \<and> handleWrite t k s = Inr (let s2 = put_conn k (c\<lparr>c_output := b'\<rparr>) s1; s3 = interest_set DisableWriting (c_channel c) ch s2 in
        if n < length (content (c_output c)) then s2
        else if c_state c = kDisconnecting then sys_shutdown_write (c_sockfd c) s3 else s3)"
proof -
  let ?out = "content (c_output c)"
  have thr: "assertInLoopThread t s' = Inr ()" if "threadId s' = t" for s' :: "('a, 'b) world_scheme"
    by (rule in_loop_thread) (rule that)
  have t1: "threadId s1 = t" using wr t by (auto simp: sys_write_def Let_def split: if_splits)
  from retrieve_spec [OF b n(2)] obtain b' where b': "retrieve n (c_output c) = Inr b'" "content b' = drop n ?out" "buf_ok b'"
    by (auto simp: okR_iff buf_holds_def)
  let ?c = "c\<lparr>c_output := b'\<rparr>" and ?s2 = "put_conn k (c\<lparr>c_output := b'\<rparr>) s1"
  let ?s3 = "interest_set DisableWriting (c_channel c) ch ?s2"
  have at: "conn_at ?s2 k ?c ch" using c1 by (simp add: conn_at_def)
  have int: "conn_interest t DisableWriting k ?s2 = Inr ?s3"
    using conn_interest_eq [OF _ at, of t DisableWriting] poller_cong(2) [of ?s2 s1] ok t1 by simp
  have at3: "conn_at ?s3 k ?c (ch\<lparr>ch_events := ch_events ch AND NOT kWriteEvent\<rparr>)"
    using conn_at_interest_set(1) [where oper = DisableWriting, OF at] by simp
  have nw: "\<not> isWriting (ch\<lparr>ch_events := ch_events ch AND NOT kWriteEvent\<rparr>)"
    by (simp add: isWriting_def) (rule bit_eqI, simp add: bit_simps)
  have shut: "shutdownInLoop t k ?s3 = Inr (sys_shutdown_write (c_sockfd c) ?s3)"
    using conn_atD(7,8) [OF at3] nw t1 by (simp add: shutdownInLoop_def thr)
  have empty: "readableBytes b' = 0 \<longleftrightarrow> \<not> n < length ?out"
    using n(2) b'(2) by (auto simp flip: length_content [OF b'(3)])
  have "handleWrite t k s = (if readableBytes b' = 0
      then bindR (conn_interest t DisableWriting k ?s2) (\<lambda>s3. if c_state c = kDisconnecting then shutdownInLoop t k s3 else Inr s3)
      else Inr ?s2)"
    using n w conn_atD(4,7,8) [OF c] wr by (simp add: handleWrite_def thr t output_bytes [OF b] b'(1))
  then have "handleWrite t k s = Inr (if n < length ?out then ?s2
      else if c_state c = kDisconnecting then sys_shutdown_write (c_sockfd c) ?s3 else ?s3)"
    by (simp add: empty int shut)
  with b' show ?thesis by (auto simp: Let_def)
qed

text \<open>C8. The write handler takes bytes off the front of the output as the kernel accepts them, loses none,
  and when the last one is gone stops writing and performs a shutdown that was waiting for it.\<close>

theorem handleWrite_stream:
  assumes ok: "poller_ok s" and c: "conn_at s k c ch" and t: "threadId s = t" and w: "isWriting ch" and b: "buf_ok (c_output c)"
  shows "okR (\<lambda>s'. \<exists>c' ch'. conn_at s' k c' ch' \<and> c_state c' = c_state c
      \<and> wire s' (c_sockfd c) @ content (c_output c') = wire s (c_sockfd c) @ content (c_output c)
      \<and> (if 0 < write_results s 0 \<and> content (c_output c) \<noteq> [] \<and> length (content (c_output c)) \<le> nat (write_results s 0)
         then content (c_output c') = [] \<and> \<not> isWriting ch'
           \<and> shut_wr s' = (if c_state c = kDisconnecting then insert (c_sockfd c) (shut_wr s) else shut_wr s)
         else isWriting ch' \<and> shut_wr s' = shut_wr s))
    (handleWrite t k s)"
proof -
  let ?out = "content (c_output c)"
  obtain n r where wr: "sys_write (c_sockfd c) ?out s = (r, s\<lparr>write_results := \<lambda>i. write_results s (Suc i),
      wire := (wire s)(c_sockfd c := wire s (c_sockfd c) @ take n ?out)\<rparr>)" (is "_ = (r, ?s1)")
    and n: "n \<le> length ?out" "r = int n \<or> r < 0 \<and> n = 0"
    and amount: "n = (if write_results s 0 < 0 then 0 else min (nat (write_results s 0)) (length ?out))"
    by (rule sys_write_amount)
  have at: "conn_at ?s1 k c ch" using c by (simp add: conn_at_def)
  show ?thesis
  proof (cases "0 < r")
    case False
    then have "n = 0" using n(2) by auto
    moreover from this have "\<not> (0 < write_results s 0 \<and> ?out \<noteq> [])" using amount by (auto simp: min_def split: if_splits)
    ultimately show ?thesis using handleWrite_refused [OF c t w b wr False] at w by auto
  next
    case True
    then have r: "r = int n" "0 < n" using n(2) by auto
    have "poller_ok ?s1" using ok poller_cong(2) [of ?s1 s] by simp
    from handleWrite_accepted [OF c t w b wr [unfolded r(1)] r(2) n(1) this at] obtain b' where
      b': "content b' = drop n ?out" and run: "handleWrite t k s = Inr (let s2 = put_conn k (c\<lparr>c_output := b'\<rparr>) ?s1;
        s3 = interest_set DisableWriting (c_channel c) ch s2 in if n < length ?out then s2
        else if c_state c = kDisconnecting then sys_shutdown_write (c_sockfd c) s3 else s3)" by blast
    let ?c = "c\<lparr>c_output := b'\<rparr>" and ?s2 = "put_conn k (c\<lparr>c_output := b'\<rparr>) ?s1" and ?ch = "ch\<lparr>ch_events := ch_events ch AND NOT kWriteEvent\<rparr>"
    let ?s3 = "interest_set DisableWriting (c_channel c) ch ?s2"
    have at2: "conn_at ?s2 k ?c ch" using c by (simp add: conn_at_def)
    have at3: "conn_at ?s3 k ?c ?ch" using conn_at_interest_set(1) [where oper = DisableWriting, OF at2] by simp
    have nw: "\<not> isWriting ?ch" by (simp add: isWriting_def) (rule bit_eqI, simp add: bit_simps)
    have cond: "0 < write_results s 0 \<and> ?out \<noteq> [] \<and> length ?out \<le> nat (write_results s 0) \<longleftrightarrow> \<not> n < length ?out"
      using r(2) amount by (cases "write_results s 0 < 0") (auto simp: min_def split: if_splits)
    show ?thesis
    proof (cases "n < length ?out")
      case True
      then show ?thesis unfolding cond
        using at2 w by (simp add: run b' del: put_conn_fields) (intro exI [of _ ?c] exI [of _ ch], simp add: b')
    next
      case False
      let ?s4 = "if c_state c = kDisconnecting then sys_shutdown_write (c_sockfd c) ?s3 else ?s3"
      have "handleWrite t k s = Inr ?s4" using False by (simp add: run Let_def)
      moreover have "conn_at ?s4 k ?c ?ch" using at3 by simp
      moreover have "wire ?s4 (c_sockfd c) @ content b' = wire s (c_sockfd c) @ ?out"
        by (simp add: sys_shutdown_write_def b')
      moreover have "shut_wr ?s4 = (if c_state c = kDisconnecting then insert (c_sockfd c) (shut_wr s) else shut_wr s)"
        by (simp add: sys_shutdown_write_def)
      moreover have "content b' = []" using False b' by simp
      ultimately show ?thesis using nw unfolding cond
        by (simp only: okR_simps False not_False_eq_True if_True) (intro exI [of _ ?c] exI [of _ ?ch], simp)
    qed
  qed
qed

lemma handleWrite_stream_witness:
  "okR (\<lambda>s'. \<exists>c' ch'. conn_at s' 100 c' ch' \<and> content (c_output c') = [] \<and> wire s' 7 = ''tail'' \<and> \<not> isWriting ch')
    (handleWrite 7 100 (demo_server kWriteEvent demo_buffer))"
proof -
  have ev: "kWriteEvent \<in> legal_events" by (simp add: legal_events_def)
  have "write_results (demo_server kWriteEvent demo_buffer) 0 = 15" by (simp add: demo_server_def demo_world_def)
  moreover have "buf_ok demo_buffer" using demo_buffers(3) by (simp add: buf_budget_def)
  ultimately show ?thesis
    using handleWrite_stream [OF demo_server_poller [OF ev] demo_server_at [of kWriteEvent demo_buffer], where t = 7] demo_buffers(4)
    by (auto elim!: okR_mono) blast
qed

text \<open>\<open>shutdown\<close> from the loop's thread marks the connection at once, and shuts the write side unless
  output is still waiting, in which case that is left to the write handler.\<close>

lemma shutdown_defers:
  assumes c: "conn_at s k c ch" and t: "threadId s = t" and st: "c_state c = kConnected"
  shows "okR (\<lambda>s'. conn_at s' k (c\<lparr>c_state := kDisconnecting\<rparr>) ch
      \<and> shut_wr s' = (if isWriting ch then shut_wr s else insert (c_sockfd c) (shut_wr s)))
    (TcpConnection_shutdown t k s)"
proof -
  let ?s = "put_conn k (c\<lparr>c_state := kDisconnecting\<rparr>) s"
  have at: "conn_at ?s k (c\<lparr>c_state := kDisconnecting\<rparr>) ch" using c by (simp add: conn_at_def)
  have "TcpConnection_shutdown t k s = shutdownInLoop t k ?s"
    using conn_atD(7) [OF c] st t by (simp add: TcpConnection_shutdown_def setState_def runInLoop_def isInLoopThread_def)
  moreover have "assertInLoopThread t ?s = Inr ()" by (rule in_loop_thread) (simp add: t)
  ultimately show ?thesis
    using conn_atD(7,8) [OF at] at by (simp add: shutdownInLoop_def) (simp add: sys_shutdown_write_def)
qed

lemma shutdown_defers_witness:
  "okR (\<lambda>s'. 7 \<in> shut_wr s') (TcpConnection_shutdown 7 100 (demo_server kReadEvent empty_buffer))"
  using shutdown_defers [OF demo_server_at, of kReadEvent empty_buffer 7] by (auto elim!: okR_mono)

section \<open>Input\<close>

text \<open>C17. The read handler: received bytes are appended to the input buffer and the message callback is
  called once with it; end of stream closes; an error leaves everything but the kernel as it is.\<close>

theorem handleRead_cases:
  assumes c: "conn_at s k c ch" and b: "buf_ok (c_input c)" and size: "length (storage (c_input c)) + extrabuf_size \<le> vector_max"
  shows "case reads s 0 (c_sockfd c) of
      Inl e \<Rightarrow> TcpConnection_handleRead P t k ts s = Inr (s\<lparr>reads := \<lambda>i. reads s (Suc i)\<rparr>)
    | Inr d \<Rightarrow> if d = [] then TcpConnection_handleRead P t k ts s = handleClose t k (s\<lparr>reads := \<lambda>i. reads s (Suc i)\<rparr>)
        else \<exists>b. buf_ok b \<and> content b = content (c_input c) @ take (writableBytes (c_input c) + extrabuf_size) d
          \<and> TcpConnection_handleRead P t k ts s =
              messageCallback P k ts (put_conn k (c\<lparr>c_input := b\<rparr>) (s\<lparr>reads := \<lambda>i. reads s (Suc i)\<rparr>))"
proof -
  let ?s = "s\<lparr>reads := \<lambda>i. reads s (Suc i)\<rparr>"
  have same: "put_conn k c ?s = ?s" using conn_atD(1) [OF c] by (simp add: put_conn_def fun_upd_idem)
  have at: "conn_at ?s k c ch" using c by (simp add: conn_at_def)
  have run: "TcpConnection_handleRead P t k ts s = bindR (readFd (reads s 0 (c_sockfd c)) (c_input c))
      (\<lambda>(n, savedErrno, b, rest). let s1 = put_conn k (c\<lparr>c_input := b\<rparr>) ?s in
       if 0 < n then messageCallback P k ts s1 else if n = 0 then handleClose t k s1 else handleError k s1)"
    using conn_atD(4,7,8) [OF c] by (simp add: TcpConnection_handleRead_def)
  show ?thesis
  proof (cases "reads s 0 (c_sockfd c)")
    case (Inl e)
    then show ?thesis
      using readFd_nothing(1) [OF b, of e] conn_atD(8) [OF at] same by (auto simp: run Let_def handleError_def)
  next
    case (Inr d)
    show ?thesis
    proof (cases "d = []")
      case True
      with Inr show ?thesis using readFd_nothing(2) [OF b] by (auto simp: run same)
    next
      case False
      let ?got = "take (writableBytes (c_input c) + extrabuf_size) d"
      have "0 < length ?got" using False by (simp add: extrabuf_size_def)
      with readFd_spec [OF b size, of d] obtain n err b' rest where r: "readFd (Inr d) (c_input c) = Inr (n, err, b', rest)"
        "0 < n" "buf_ok b'" "content b' = content (c_input c) @ ?got" by (auto simp: okR_iff buf_holds_def)
      then have "TcpConnection_handleRead P t k ts s = messageCallback P k ts (put_conn k (c\<lparr>c_input := b'\<rparr>) ?s)"
        by (simp add: run Inr)
      with Inr False r(3,4) show ?thesis by auto
    qed
  qed
qed

lemma handleRead_cases_witness:
  "\<exists>b. content b = ''hello'' \<and> TcpConnection_handleRead (main_code ''A'' ''B'') 7 100 (Timestamp 0) (demo_server kReadEvent empty_buffer) =
     messageCallback (main_code ''A'' ''B'') 100 (Timestamp 0) (put_conn 100 ((demo_conn empty_buffer)\<lparr>c_input := b\<rparr>)
       ((demo_server kReadEvent empty_buffer)\<lparr>reads := \<lambda>i. reads (demo_server kReadEvent empty_buffer) (Suc i)\<rparr>))"
proof -
  let ?s = "demo_server kReadEvent empty_buffer"
  have r: "reads ?s 0 7 = Inr ''hello''" by (simp add: demo_server_def demo_world_def)
  have b: "buf_ok empty_buffer" "length (storage empty_buffer) + extrabuf_size \<le> vector_max"
    using demo_buffers(1) by (simp_all add: budget_defs empty_buffer_def)
  have "\<exists>b. buf_ok b \<and> content b = content empty_buffer @ take (writableBytes empty_buffer + extrabuf_size) ''hello''
      \<and> TcpConnection_handleRead (main_code ''A'' ''B'') 7 100 (Timestamp 0) ?s =
        messageCallback (main_code ''A'' ''B'') 100 (Timestamp 0) (put_conn 100 ((demo_conn empty_buffer)\<lparr>c_input := b\<rparr>)
          (?s\<lparr>reads := \<lambda>i. reads ?s (Suc i)\<rparr>))"
    using handleRead_cases [OF demo_server_at [of kReadEvent empty_buffer], where P = "main_code ''A'' ''B''" and t = 7 and ts = "Timestamp 0"] b
    by (simp add: r)
  then show ?thesis using demo_buffers(2) by (auto simp: extrabuf_size_def)
qed

section \<open>Output that waits\<close>

text \<open>A connection whose output did not go out at once waits for the socket to become writable, and no longer for
  input; no write callback is bound, so whatever the next poll reports for it, handling that runs nothing at all.\<close>

lemma waiting_output_is_stuck:
  assumes inv: "net_inv T m ds fs s" and c: "conn_at s k c ch" and w: "isWriting ch"
    and poll: "Poller_poll (PollReady ready) s = Inr (active, s1)" and a: "c_channel c \<in> set active"
  shows "\<exists>ch1. heap s1 (c_channel c) = Some ch1 \<and>
    handleEvent (call_back P) ts (c_channel c) s1 = Inr (put_channel (c_channel c) (ch1\<lparr>eventHandling := False\<rparr>) s1)"
proof -
  have ok: "poller_ok s" "chans_ok s" using inv by (simp_all add: net_inv_def)
  from poll_spec [OF ok(1), of ready] poll a conn_atD(2) [OF c] have
    h1: "heap s1 (c_channel c) = Some (ch\<lparr>ch_revents := scast (found ready ch)\<rparr>)" (is "_ = Some ?ch") by (metis Inr_inject prod.inject)
  have "chan_ok s (c_channel c) ch" using ok(2) conn_atD(2,3) [OF c] unfolding chans_ok_def by force
  then have none: "writeCallback ch = None" "errorCallback ch = None" "closeCallback ch = None" by (simp_all add: chan_ok_def)
  have "ch_events ch \<in> legal_events" using ok(1) conn_atD(2) [OF c] by (auto simp: poller_ok_def)
  with w have ev: "ch_events ch = kWriteEvent"
    by (auto simp: legal_events_def isWriting_def kNoneEvent_def kReadEvent_def kWriteEvent_def poll_masks)
  have "scast (found ready ch) AND (POLLIN OR POLLPRI OR POLLRDHUP) =
      scast (ready (ch_fd ch)) AND ((scast (ucast (ch_events ch) OR always_polled) :: 32 word) AND (POLLIN OR POLLPRI OR POLLRDHUP))"
    by (simp only: found_def signed_and_eq ac_simps)
  also have "(scast (ucast (ch_events ch) OR always_polled) :: 32 word) AND (POLLIN OR POLLPRI OR POLLRDHUP) = 0"
    by (simp add: ev kWriteEvent_def always_polled_def poll_masks)
  finally have "\<not> read_ready (ch_revents ?ch)" by (simp add: read_ready_def)
  then have quiet: "fire (call_back P) ts (c_channel c) h s' = Inr s'" if "h \<in> set handlers"
    "s' = put_channel (c_channel c) (?ch\<lparr>eventHandling := True\<rparr>) s1" for h s'
    using that none by (auto simp: fire_def handlers_def get_channel_def put_channel_def)
  have "foldR (fire (call_back P) ts (c_channel c)) hs s' = Inr s'" if "set hs \<subseteq> set handlers"
    "s' = put_channel (c_channel c) (?ch\<lparr>eventHandling := True\<rparr>) s1" for hs s'
    using that by (induction hs) (simp_all add: quiet)
  then have "handleEvent (call_back P) ts (c_channel c) s1 =
      modify_channel (c_channel c) (\<lambda>c. c\<lparr>eventHandling := False\<rparr>) (put_channel (c_channel c) (?ch\<lparr>eventHandling := True\<rparr>) s1)"
    by (simp add: handleEvent_def h1)
  also have "\<dots> = Inr (put_channel (c_channel c) (?ch\<lparr>eventHandling := False\<rparr>) s1)"
    by (simp add: modify_channel_def get_channel_def put_channel_def)
  finally show ?thesis using h1 by blast
qed

lemma waiting_output_is_stuck_witness:
  "\<exists>(s1 :: main_fun world) ch1. heap s1 200 = Some ch1 \<and> ch_revents ch1 = POLLOUT \<and>
    handleEvent (call_back (main_code ''A'' ''B'')) (Timestamp 0) 200 s1 = Inr (put_channel 200 (ch1\<lparr>eventHandling := False\<rparr>) s1)"
proof -
  let ?s = "demo_server kWriteEvent demo_buffer" and ?r = "\<lambda>f. 4"
  have ev: "kWriteEvent \<in> legal_events" by (simp add: legal_events_def)
  have fd: "pfd_fd (pollfds ?s ! nat (ch_index (demo_chan kWriteEvent))) = 7" "ch_fd (demo_chan kWriteEvent) = 7"
    "ch_events (demo_chan kWriteEvent) = kWriteEvent" by (simp_all add: demo_server_def demo_chan_def)
  then have "watched ?s 200 (demo_chan kWriteEvent)" by (simp add: watched_def registered_def)
  moreover have found: "found ?r (demo_chan kWriteEvent) = 4"
    using fd(3) by (simp add: found_def always_polled_def kWriteEvent_def poll_masks)
  ultimately have "200 \<in> ready_channels ?r ?s" by (auto simp: ready_channels_def)
  with poll_spec [OF demo_server_poller [OF ev, of demo_buffer], of ?r] obtain active s1 where
    p: "Poller_poll (PollReady ?r) ?s = Inr (active, s1)" "200 \<in> set active"
    "heap s1 200 = Some ((demo_chan kWriteEvent)\<lparr>ch_revents := scast (found ?r (demo_chan kWriteEvent))\<rparr>)"
    by (metis demo_server_simps(2) fun_upd_same)
  have inv: "net_inv 7 None [] [] ?s"
    by (rule demo_net_inv [OF ev]) (use demo_buffers(3) in simp_all)
  from p show ?thesis
    using waiting_output_is_stuck [OF inv demo_server_at _ p(1), where ts = "Timestamp 0" and P = "main_code ''A'' ''B''"]
    by (intro exI [of _ s1] exI [of _ "(demo_chan kWriteEvent)\<lparr>ch_revents := 4\<rparr>"]) (auto simp: found POLLOUT_def)
qed

section \<open>Calls from other threads\<close>

text \<open>\<open>send\<close> from another thread queues a functor that refers to the caller's string and sends nothing
  itself; should the string be gone when the loop runs it, as after any call that passed a temporary,
  the loop reads freed memory.\<close>

lemma send_other_thread_dangles:
  assumes "conns s k = Some c" and "c_state c = kConnected" and "t \<noteq> threadId s"
  shows "okR (\<lambda>s'. pendingFunctors s' = pendingFunctors s @ [SendInLoop k v] \<and> wire s' = wire s \<and> conns s' = conns s
      \<and> (\<forall>s2. message_vars s2 v = None \<longrightarrow>
          run_task P r (SendInLoop k v) s2 = Inl (Undefined ''reference to a string that is gone'')))
    (TcpConnection_send t v message k s)"
  using assms by (simp add: TcpConnection_send_def get_conn_def isInLoopThread_def runInLoop_def queueInLoop_def push_functor_def
      wakeup_def run_task_def send_captured_def Let_def)

lemma send_other_thread_dangles_witness:
  "okR (\<lambda>s'. pendingFunctors s' = [SendInLoop 100 1]) (TcpConnection_send 8 1 ''more'' 100 (demo_server kReadEvent empty_buffer))"
  by (rule okR_mono [OF send_other_thread_dangles [where c = "demo_conn empty_buffer" and P = "main_code [] []" and r = "Success ()"]])
    (simp, simp, simp, drule conjunct1, simp)

text \<open>\<open>shutdown\<close> from another thread changes the state there and then (the loop's own field, without a
  lock) and queues a functor with a bare pointer: once the connection is gone, running it touches freed
  memory.\<close>

lemma shutdown_other_thread_dangles:
  assumes "conns s k = Some c" and "c_state c = kConnected" and "t \<noteq> threadId s"
  shows "okR (\<lambda>s'. pendingFunctors s' = pendingFunctors s @ [ShutdownInLoop k] \<and> shut_wr s' = shut_wr s
      \<and> conns s' = (conns s)(k \<mapsto> c\<lparr>c_state := kDisconnecting\<rparr>)
      \<and> (\<forall>s2. conns s2 k = None \<longrightarrow> run_task P r (ShutdownInLoop k) s2 = Inl (Undefined ''dangling connection'')))
    (TcpConnection_shutdown t k s)"
  using assms by (simp add: TcpConnection_shutdown_def setState_def get_conn_def isInLoopThread_def runInLoop_def queueInLoop_def
      push_functor_def wakeup_def run_task_def shutdownInLoop_def assertInLoopThread_def put_conn_def Let_def)

lemma shutdown_other_thread_dangles_witness:
  "okR (\<lambda>s'. pendingFunctors s' = [ShutdownInLoop 100]) (TcpConnection_shutdown 8 100 (demo_server kReadEvent empty_buffer))"
  by (rule okR_mono [OF shutdown_other_thread_dangles [where c = "demo_conn empty_buffer" and P = "main_code [] []" and r = "Success ()"]])
    (simp, simp, simp, drule conjunct1, simp)

section \<open>The life of a connection\<close>

text \<open>C39. The name of a connection is the server's name, a hash and its number in decimal, never cut by the
  32 byte buffer; so connections with different numbers have different names.\<close>

theorem conn_name_unique:
  assumes "1 \<le> i" "i < 2 ^ 31" "1 \<le> j" "j < 2 ^ 31"
  shows "conn_name nm i = nm @ ''#'' @ decimal (nat i) \<and> (conn_name nm i = conn_name nm j \<longleftrightarrow> i = j)"
proof -
  have "length (decimal (nat i)) \<le> 10" by (rule length_decimal) (use assms in simp_all)
  then have "snprintf 32 (''#'' @ fmt_d i) = ''#'' @ decimal (nat i)"
    using assms by (simp add: fmt_d_def snprintf_whole)
  with conn_name_inj [of nm i j] assms show ?thesis by (auto simp: conn_name_def)
qed

lemma conn_name_unique_witness: "conn_name ''TcpServer'' 12 = ''TcpServer#12''"
  using conn_name_unique [of 12 12 "''TcpServer''"] by (simp add: decimal.simps digit_def)

text \<open>C16. Accepting a connection on a server: the object is in the server's map under its new name,
  connected, with the two addresses, and its channel watched for input, when the user's connection
  callback is called with it; the server's invariant holds at that point.\<close>

theorem newConnection_registers:
  assumes inv: "net_inv T None [] [] s" and f: "0 \<le> f" "f \<in> open_fds s" "channels s f = None"
      "\<forall>j c. conns s j = Some c \<longrightarrow> c_sockfd c \<noteq> f"
    and id: "nextConnId s < 2 ^ 31 - 1" and la: "local_addrs s 0 = Success la"
  shows "\<exists>u k c ch s1. newConnection P T f pa s = on_connection P u k s1 \<and> fst (server_callbacks s) = Some u
    \<and> net_inv T None [] [] s1 \<and> conns s k = None \<and> conn_at s1 k c ch \<and> ch_events ch = kReadEvent
    \<and> c_state c = kConnected \<and> c_sockfd c = f \<and> c_localAddr c = la \<and> c_peerAddr c = pa
    \<and> connections s1 = (connections s)(conn_name (server_name s) (nextConnId s) \<mapsto> k)"
proof -
  let ?e = "established la pa f s" and ?k = "malloc s 0" and ?c = "fresh_conn la pa f s"
  have fd: "c_sockfd c \<noteq> f" if "conns s j = Some c" for j c using f(4) that by blast
  obtain u where u: "fst (server_callbacks s) = Some u" using inv by (auto simp: net_inv_def)
  note r = registering_ready(1,2) [where la = la and pa = pa, OF inv f(1,3)]
  have "threadId s = T" using inv by (simp add: net_inv_def)
  from newConnection_eq [OF this id la r u, of P] have "newConnection P T f pa s = on_connection P u ?k ?e" .
  moreover have "net_inv T None [] [] ?e" by (rule established_safe(1) [OF inv f(1-3) fd id])
  moreover have "conns s ?k = None" by (rule registering_ready(3) [OF inv f(1,3)])
  moreover obtain i where "heap ?e (malloc s (Suc 0)) = Some ((conn_chan f s)\<lparr>ch_events := kReadEvent, ch_index := i\<rparr>)" "0 \<le> i"
    "channels ?e = (channels s)(f \<mapsto> malloc s (Suc 0))"
    using interest_set_channel [OF r(2), of EnableReading] unfolding established_def [symmetric]
    by (auto simp: registering_def conn_chan_def setReadCallBack_def new_channel_def)
  then have "conn_at ?e ?k ?c ((conn_chan f s)\<lparr>ch_events := kReadEvent, ch_index := i\<rparr>)"
    using f(1) by (simp add: conn_at_def established_def)
      (simp add: registering_def fresh_conn_def conn_chan_def setReadCallBack_def new_channel_def Let_def)
  moreover have "c_state ?c = kConnected \<and> c_sockfd ?c = f \<and> c_localAddr ?c = la \<and> c_peerAddr ?c = pa"
    by (simp add: fresh_conn_def Let_def)
  moreover have "connections ?e = (connections s)(conn_name (server_name s) (nextConnId s) \<mapsto> ?k)"
    by (simp add: established_def) (simp add: registering_def)
  ultimately show ?thesis using u
    by (intro exI [of _ u] exI [of _ ?k] exI [of _ ?c] exI [of _ "(conn_chan f s)\<lparr>ch_events := kReadEvent, ch_index := i\<rparr>"]
        exI [of _ ?e]) simp
qed

lemma newConnection_registers_witness:
  "\<exists>u k s1 c. newConnection (main_code ''A'' ''B'') 7 2 zero_sockaddr (demo_server kReadEvent empty_buffer) =
      on_connection (main_code ''A'' ''B'') u k s1 \<and> conns s1 k = Some c \<and> c_sockfd c = 2
      \<and> connections s1 (conn_name ''TcpServer'' 2) = Some k"
proof -
  let ?s = "demo_server kReadEvent empty_buffer"
  have "net_inv 7 None [] [] ?s" by (rule demo_net_inv) (use demo_buffers(1,2) in \<open>simp_all add: legal_events_def\<close>)
  moreover have "nextConnId ?s = 2" "local_addrs ?s 0 = Success zero_sockaddr" "server_name ?s = ''TcpServer''" "2 \<in> open_fds ?s"
    by (simp_all add: demo_server_def demo_world_def)
  moreover have "\<forall>j c. conns ?s j = Some c \<longrightarrow> c_sockfd c \<noteq> 2" by auto
  ultimately obtain u k c ch s1 where "newConnection (main_code ''A'' ''B'') 7 2 zero_sockaddr ?s = on_connection (main_code ''A'' ''B'') u k s1"
    "conn_at s1 k c ch" "c_sockfd c = 2" "connections s1 = (connections ?s)(conn_name (server_name ?s) (nextConnId ?s) \<mapsto> k)"
    "nextConnId ?s = 2" "server_name ?s = ''TcpServer''"
    using newConnection_registers [of 7 ?s 2 zero_sockaddr "main_code ''A'' ''B''" zero_sockaddr] by auto
  then show ?thesis using conn_atD(1) [of s1 k c ch]
    by (intro exI [of _ u] exI [of _ k] exI [of _ s1] exI [of _ c]) simp
qed

lemma destroy_main:
  assumes inv: "net_inv T None ds (ConnectDestroyed k # fs) s" and c: "conns s k = Some c"
  shows "okR (\<lambda>s'. conns s' = (conns s)(k \<mapsto> c\<lparr>c_state := kDisconnected\<rparr>) \<and> channels s' = (channels s)(c_sockfd c := None)
      \<and> connections s' = connections s \<and> open_fds s' = open_fds s \<and> pendingFunctors s' = pendingFunctors s)
    (connectDestroyed (main_code m1 m2) T k s)"
proof -
  from closing_conn [OF inv] c obtain ch where ch: "conn_at s k c ch" "c_state c \<in> {kConnected, kDisconnecting}"
    "connections s (c_name c) \<noteq> Some k" "k \<notin> set (destroys (ds @ fs @ pendingFunctors s))" "chan_ok s (c_channel c) ch"
    "readCallback ch = Some (ConnectionRead k)" by (metis option.inject)
  let ?c = "c\<lparr>c_state := kDisconnected\<rparr>" and ?s = "half_destroyed k c ch s"
  have t: "threadId s = T" and ok: "poller_ok s" using inv by (simp_all add: net_inv_def)
  have at1: "conn_at (put_conn k ?c s) k ?c ch" using ch(1) by (simp add: conn_at_def)
  have ok1: "poller_ok (put_conn k ?c s)" using ok poller_cong(2) [of "put_conn k ?c s" s] by simp
  have int: "conn_interest T DisableAll k (put_conn k ?c s) = Inr ?s"
    using conn_interest_eq [OF ok1 at1, of T DisableAll] t by (simp add: half_destroyed_def)
  have inv': "net_inv T (Some k) (ds @ [ConnectDestroyed k]) fs ?s"
    by (rule half_destroyed_ok [OF inv c ch(1,3-6)])
  obtain u where u: "c_connectionCallback c = Some u" using conns_okD(3) [OF inv c] by auto
  have cs: "conns ?s = (conns s)(k \<mapsto> ?c)" by (simp add: half_destroyed_def)
  then have cb: "connectionCallback (main_code m1 m2) k ?s = Inr ?s"
    using u by (simp add: connectionCallback_def get_conn_def main_code_def onConnection_def)
  have run: "connectDestroyed (main_code m1 m2) T k s = EventLoop_removeChannel T (c_channel c) ?s"
    using c ch(2) int in_loop_thread [OF t] cb cs by (auto simp: connectDestroyed_def setState_def get_conn_def)
  have chs: "channels ?s = channels s"
    using conn_at_interest_set(2) [where oper = DisableAll, OF at1] by (simp add: half_destroyed_def)
  from conns_okD(5) [OF inv', of k ?c] cs obtain h where h: "conn_at ?s k ?c h" "removable ?s (c_channel c) h"
    by (auto simp: conn_fits_def)
  have "poller_ok ?s" "threadId ?s = T" using inv' by (simp_all add: net_inv_def)
  from remove_spec [OF this(1) h(2) this(2)] obtain s' where "EventLoop_removeChannel T (c_channel c) ?s = Inr s'"
    "channels s' = (channels ?s)(ch_fd h := None)" "poller.more s' = poller.more ?s" by metis
  then show ?thesis
    using conn_atD(4) [OF h(1)] by (simp add: run cs chs more_eqD [of s' ?s]) (simp add: half_destroyed_def)
qed

text \<open>C9. The end of a connection of the sample server: once the peer has closed and the loop has run its
  functors, the object and its entries in the server's map and in the poller are gone, its descriptor
  is closed, and every other connection is untouched.\<close>

theorem close_releases:
  assumes inv: "net_inv T None [] [] s" and c: "conns s k = Some c" "connections s (c_name c) = Some k"
    and q: "pendingFunctors s = []"
  shows "okR (\<lambda>s'. conns s' = (conns s)(k := None) \<and> connections s' = (connections s)(c_name c := None)
      \<and> channels s' (c_sockfd c) = None \<and> open_fds s' = open_fds s - {c_sockfd c} \<and> pendingFunctors s' = [])
    (bindR (handleClose T k s) (doPendingFunctors (run_task (main_code m1 m2) r) release_tasks))"
proof -
  have t: "threadId s = T" using inv by (simp add: net_inv_def)
  from close_safe [OF inv c, unfolded t] obtain s1 where s1: "handleClose T k s = Inr s1" "net_inv T None [] [] s1"
    "pendingFunctors s1 = [ConnectDestroyed k]" "conns s1 = conns s" "connections s1 = (connections s)(c_name c := None)"
    "open_fds s1 = open_fds s" using q by (metis append_Nil)
  let ?s2 = "s1\<lparr>callingPendingFunctors := True, pendingFunctors := []\<rparr>"
  have inv2: "net_inv T None [] [ConnectDestroyed k] ?s2"
    using taken_safe [OF s1(2)] by (simp add: take_functors_def s1(3))
  have c2: "conns ?s2 k = Some c" using c(1) s1(4) by simp
  have t2: "threadId ?s2 = T" using inv2 by (simp add: net_inv_def)
  have run: "bindR (handleClose T k s) (doPendingFunctors (run_task (main_code m1 m2) r) release_tasks) =
      bindR (connectDestroyed (main_code m1 m2) T k ?s2) (\<lambda>s3. Inr (release_tasks [ConnectDestroyed k] (s3\<lparr>callingPendingFunctors := False\<rparr>)))"
    using t2 by (simp add: s1(1,3) doPendingFunctors_def take_functors_def run_task_def)
  show ?thesis
    unfolding run okR_bindR
    by (rule okR_mono [OF destroy_main [OF inv2 c2, of m1 m2]])
      (simp add: release_tasks_def release_task_def TcpConnection_dtor_def s1(4-6) fun_upd_idem)
qed

lemma close_releases_witness:
  "okR (\<lambda>s'. conns s' = Map.empty \<and> connections s' = Map.empty \<and> open_fds s' = {0, 1, 2})
    (bindR (handleClose 7 100 (demo_server kReadEvent empty_buffer))
      (doPendingFunctors (run_task (main_code ''A'' ''B'') (Success ())) release_tasks))"
proof -
  let ?s = "demo_server kReadEvent empty_buffer"
  have inv: "net_inv 7 None [] [] ?s" by (rule demo_net_inv) (use demo_buffers(1,2) in \<open>simp_all add: legal_events_def\<close>)
  have "open_fds ?s - {7} = {0, 1, 2}" by (auto simp: demo_server_def)
  with close_releases [OF inv, of 100 "demo_conn empty_buffer" "''A''" "''B''" "Success ()"] show ?thesis
    by (auto elim!: okR_mono)
qed

end
