(* ===== verification/CallOrder.thy ===== *)
theory CallOrder
  imports Startup
begin

text \<open>
  The order of the callbacks that a user of the server sees for one connection: the connection callback
  when it is up, the message callback any number of times, the connection callback when it is down.
  Every call is recorded in the user's part of the state; the record is shown to have that form for every
  connection of the program of \<open>main.cpp\<close>.
\<close>

section \<open>Recording the calls\<close>

datatype conn_event = Up | Message | Down

record 'u recorded = "'u world" +
  calls :: "(nat \<times> conn_event) list"

definition log_call :: "nat \<Rightarrow> conn_event \<Rightarrow> ('u, 'z) recorded_scheme \<Rightarrow> ('u, 'z) recorded_scheme" where
  "log_call k e s = s\<lparr>calls := calls s @ [(k, e)]\<rparr>"

definition calls_of :: "nat \<Rightarrow> ('u, 'z) recorded_scheme \<Rightarrow> conn_event list" where
  "calls_of k s = map snd (filter (\<lambda>x. fst x = k) (calls s))"

text \<open>The program with every callback recorded before it is called; \<open>conn->connected()\<close> tells up from down.\<close>

definition record_calls ::
  "('u, ('u, 'z) recorded_scheme) user_code \<Rightarrow> ('u, ('u, 'z) recorded_scheme) user_code" where
  "record_calls P = \<lparr>run_user = run_user P,
     on_connection = \<lambda>u k s. bindR (get_conn k s) (\<lambda>c.
       on_connection P u k (log_call k (if c_state c = kConnected then Up else Down) s)),
     on_message = \<lambda>u k ts s. on_message P u k ts (log_call k Message s)\<rparr>"

definition up_calls :: "conn_event list \<Rightarrow> bool" where
  "up_calls h \<longleftrightarrow> (\<exists>n. h = Up # replicate n Message)"

definition all_calls :: "conn_event list \<Rightarrow> bool" where
  "all_calls h \<longleftrightarrow> (\<exists>n. h = Up # replicate n Message @ [Down])"

lemma up_calls_more: "up_calls [Up]" "up_calls h \<Longrightarrow> up_calls (h @ [Message])" "up_calls h \<Longrightarrow> all_calls (h @ [Down])"
  unfolding up_calls_def all_calls_def by (auto simp flip: replicate_append_same intro: exI [of _ "Suc _"])

lemma log_call_fields [simp]:
  "calls_of j (log_call k e s) = (if j = k then calls_of j s @ [e] else calls_of j s)"
  "heap (log_call k e s) = heap s" "pollfds (log_call k e s) = pollfds s" "channels (log_call k e s) = channels s"
  "loopId (log_call k e s) = loopId s" "threadId (log_call k e s) = threadId s" "conns (log_call k e s) = conns s"
  "connections (log_call k e s) = connections s" "pendingFunctors (log_call k e s) = pendingFunctors s"
  "open_fds (log_call k e s) = open_fds s" "malloc (log_call k e s) = malloc s" "timers (log_call k e s) = timers s"
  "nextConnId (log_call k e s) = nextConnId s" "server_name (log_call k e s) = server_name s"
  "server_callbacks (log_call k e s) = server_callbacks s" "newConnectionCallback (log_call k e s) = newConnectionCallback s"
  by (simp_all add: log_call_def calls_of_def)

lemma log_call_inv:
  "net_inv T m ds fs (log_call k e s) = net_inv T m ds fs s" "live a (log_call k e s) = live a s"
  using net_inv_cong [of "log_call k e s" s] by (simp_all add: kernel_ok_def clock_ok_def log_call_def)

lemma log_call_calm: "calm (log_call k e s) s' = calm s s'"
  by (simp add: calm_def log_call_inv)

lemma log_call_put_conn: "log_call k e (put_conn j c s) = put_conn j c (log_call k e s)"
  by (simp add: log_call_def put_conn_def)

lemma calls_of_more: "world.more s' = world.more s \<Longrightarrow> calls_of k s' = calls_of k s"
  by (cases s; cases s') (simp add: calls_of_def)

section \<open>The invariant\<close>

definition calls_ok :: "('u, 'z) recorded_scheme \<Rightarrow> bool" where
  "calls_ok s \<longleftrightarrow> (\<forall>k c. conns s k = Some c \<longrightarrow> (if c_state c = kDisconnected then all_calls (calls_of k s) else up_calls (calls_of k s)))
     \<and> (\<forall>k. conns s k = None \<longrightarrow> calls_of k s = [] \<or> all_calls (calls_of k s)) \<and> (\<forall>i. calls_of (malloc s i) s = [])"

lemma calls_okD:
  assumes "calls_ok s"
  shows "conns s k = Some c \<Longrightarrow> c_state c = kDisconnected \<Longrightarrow> all_calls (calls_of k s)"
    "conns s k = Some c \<Longrightarrow> c_state c \<noteq> kDisconnected \<Longrightarrow> up_calls (calls_of k s)"
    "conns s k = None \<Longrightarrow> calls_of k s = [] \<or> all_calls (calls_of k s)" "calls_of (malloc s i) s = []"
  using assms unfolding calls_ok_def by (auto split: if_splits)

lemma calls_okI:
  assumes "\<And>k c. conns s k = Some c \<Longrightarrow> c_state c = kDisconnected \<Longrightarrow> all_calls (calls_of k s)"
    and "\<And>k c. conns s k = Some c \<Longrightarrow> c_state c \<noteq> kDisconnected \<Longrightarrow> up_calls (calls_of k s)"
    and "\<And>k. conns s k = None \<Longrightarrow> calls_of k s = [] \<or> all_calls (calls_of k s)" and "\<And>i. calls_of (malloc s i) s = []"
  shows "calls_ok s"
  using assms unfolding calls_ok_def by auto

lemma tame_conns:
  assumes "tame s s'"
  shows "conns s' k = Some d \<Longrightarrow> \<exists>c. conns s k = Some c \<and> c_state c = c_state d \<and> c_sockfd c = c_sockfd d" "conns s' k = None \<Longrightarrow> conns s k = None"
proof -
  have "rel_option (\<lambda>c d. c_state c = c_state d \<and> c_sockfd c = c_sockfd d) (conns s k) (conns s' k)" using assms by (simp add: tame_def)
  then show "conns s' k = Some d \<Longrightarrow> \<exists>c. conns s k = Some c \<and> c_state c = c_state d \<and> c_sockfd c = c_sockfd d" "conns s' k = None \<Longrightarrow> conns s k = None"
    by (auto elim: option.rel_cases)
qed

lemma calls_ok_tame:
  assumes ok: "calls_ok s" and t: "tame s s'"
  shows "calls_ok s'"
proof (rule calls_okI)
  have same: "calls_of k s' = calls_of k s" "malloc s' = malloc s" for k using t by (simp_all add: tame_def calls_of_more [of s' s])
  note D = calls_okD [OF ok] and C = tame_conns [OF t]
  fix k c i
  show "all_calls (calls_of k s')" if "conns s' k = Some c" "c_state c = kDisconnected"
    using C(1) [OF that(1)] D(1) [of k] that(2) by (auto simp: same)
  show "up_calls (calls_of k s')" if "conns s' k = Some c" "c_state c \<noteq> kDisconnected"
    using C(1) [OF that(1)] D(2) [of k] that(2) by (auto simp: same)
  show "calls_of k s' = [] \<or> all_calls (calls_of k s')" if "conns s' k = None"
    using D(3) [OF C(2) [OF that]] by (simp add: same)
  show "calls_of (malloc s' i) s' = []" using D(4) by (simp add: same)
qed

lemma calls_ok_same: "calls_ok s \<Longrightarrow> same_lives s s' \<Longrightarrow> calls_ok s'"
  using calls_of_more [of s' s] by (simp add: calls_ok_def same_lives_def)

lemma calls_ok_up:
  assumes o: "opened s0 k c s" and ok: "calls_ok s0" and c: "c_state c = kConnected" and m: "\<And>i. malloc s i \<noteq> k"
  shows "calls_ok (log_call k Up s)"
proof -
  have F: "conns s = (conns s0)(k \<mapsto> c)" "malloc s = (\<lambda>i. malloc s0 (Suc (Suc i)))" "calls_of j s = calls_of j s0" "calls_of k s0 = []" for j
    using o calls_okD(4) [OF ok, of 0] by (auto simp: opened_def calls_of_more [of s s0])
  show ?thesis
    by (rule calls_okI) (use calls_okD [OF ok] c m up_calls_more(1) in \<open>auto simp: F split: if_splits\<close>)
qed

lemma calls_ok_message:
  assumes ok: "calls_ok s" and c: "conns s k = Some c" "c_state c \<noteq> kDisconnected" and m: "\<And>i. malloc s i \<noteq> k"
  shows "calls_ok (log_call k Message s)"
  by (rule calls_okI) (use calls_okD [OF ok] c m up_calls_more(2) in \<open>auto split: if_splits\<close>)

lemma calls_ok_down:
  assumes ok: "calls_ok s0" and c: "conns s0 k = Some c" "c_state c \<noteq> kDisconnected" and m: "\<And>i. malloc s i \<noteq> k"
    and same: "same_lives (put_conn k (c\<lparr>c_state := kDisconnected\<rparr>) s0) s"
  shows "calls_ok (log_call k Down s)"
proof -
  have F: "conns s = (conns s0)(k \<mapsto> c\<lparr>c_state := kDisconnected\<rparr>)" "malloc s = malloc s0" "calls_of j s = calls_of j s0" for j
    using same by (simp_all add: same_lives_def calls_of_more [of s s0])
  have "up_calls (calls_of k s0)" by (rule calls_okD(2) [OF ok c])
  then show ?thesis
    by (intro calls_okI) (use calls_okD [OF ok] c m up_calls_more(3) in \<open>auto simp: F split: if_splits\<close>)
qed

lemma calls_ok_destroyed:
  assumes ok: "calls_ok s" and c: "conns s k = Some c" "c_state c = kDisconnected"
  shows "calls_ok (TcpConnection_dtor k s)"
proof -
  let ?s = "TcpConnection_dtor k s"
  have F: "conns ?s = (conns s)(k := None)" "malloc ?s = malloc s" "calls_of j ?s = calls_of j s" for j
    using c(1) by (simp_all add: TcpConnection_dtor_def calls_of_def)
  show ?thesis
    by (rule calls_okI) (use calls_okD [OF ok] c in \<open>auto simp: F split: if_splits\<close>)
qed

lemma not_allocated: "net_inv T m ds fs s \<Longrightarrow> conns s k = Some c \<Longrightarrow> malloc s i \<noteq> k"
  by (auto simp: net_inv_def memory_ok_def)

section \<open>The server of main.cpp\<close>

interpretation recorded_sample: server_users
    "record_calls (main_code (replicate (unat n1) (CHR ''A'')) (replicate (unat n2) (CHR ''B'')))" T
    "\<lambda>s. calls_ok s \<and> timers s = []" server_faults
  for n1 n2 :: "32 word" and T :: int
proof unfold_locales
  let ?m1 = "replicate (unat n1) (CHR ''A'')" and ?m2 = "replicate (unat n2) (CHR ''B'')"
  let ?P = "record_calls (main_code ?m1 ?m2) :: (main_fun, (main_fun, 'a) recorded_scheme) user_code"
  have "unat n1 < 2 ^ 32" "unat n2 < 2 ^ 32" using unsigned_less [of n1] unsigned_less [of n2] by simp_all
  then have size: "length ?m1 + length ?m2 \<le> 2 ^ 40" by simp
  fix s s0 s' :: "(main_fun, 'a) recorded_scheme" and k c and u :: main_fun and b :: buffer and ts and ds fs :: "main_fun task list"
  show "safeR server_faults (\<lambda>s'. net_inv T None ds fs s' \<and> calls_ok s' \<and> timers s' = []) (run_user ?P u s)"
    if "net_inv T None ds fs s" "calls_ok s \<and> timers s = []"
    using that by (simp add: record_calls_def main_code_def)
  show "safeR server_faults (\<lambda>s'. (net_inv T None [] [] s' \<and> calm s s') \<and> calls_ok s' \<and> timers s' = []) (on_connection ?P u k s)"
    if up: "net_inv T None [] [] s" "conns s k = Some c" "c_state c = kConnected" "connections s (c_name c) = Some k"
      "new_buffer = Inr (c_output c)" "opened s0 k c s" "calls_ok s0 \<and> timers s0 = []"
  proof -
    let ?s = "log_call k Up s"
    have "calls_ok ?s" by (rule calls_ok_up [OF up(6) conjunct1 [OF up(7)] up(3) not_allocated [OF up(1,2)]])
    moreover have "timers ?s = []" using up(6,7) by (simp add: opened_def)
    ultimately have "calls_ok s' \<and> timers s' = []" if "tame ?s s'" for s' using that by (metis calls_ok_tame tame_timers)
    moreover have "net_inv T None [] [] ?s" "conns ?s k = Some c" "connections ?s (c_name c) = Some k"
      using up by (simp_all add: log_call_inv)
    from sample_up [OF this(1,2) up(3) this(3) up(5) size] have
      "okR (\<lambda>s'. net_inv T None [] [] s' \<and> calm s s' \<and> tame ?s s') (onConnection ?m1 ?m2 k ?s)" by (simp add: log_call_calm)
    ultimately show ?thesis
      using up(2,3) by (auto simp: record_calls_def main_code_def get_conn_def intro: okR_safeR elim!: okR_mono)
  qed
  show "safeR server_faults (\<lambda>s'. (net_inv T None [] [] s' \<and> calm s s') \<and> calls_ok s' \<and> timers s' = [])
      (on_message ?P u k ts (put_conn k (c\<lparr>c_input := b\<rparr>) s))"
    if msg: "net_inv T None [] [] s" "conns s k = Some c" "connections s (c_name c) = Some k" "buf_ok b"
      "length (storage b) \<le> 2 ^ 31" "calls_ok s \<and> timers s = []"
  proof -
    let ?s = "log_call k Message s"
    have "c_state c \<in> {kConnected, kDisconnecting}" by (rule open_conn [OF msg(1-3)])
    then have "c_state c \<noteq> kDisconnected" by auto
    then have "calls_ok ?s" by (rule calls_ok_message [OF conjunct1 [OF msg(6)] msg(2) _ not_allocated [OF msg(1,2)]])
    moreover have "timers ?s = []" using msg(6) by simp
    ultimately have "calls_ok s' \<and> timers s' = []" if "tame ?s s'" for s' using that by (metis calls_ok_tame tame_timers)
    moreover have "net_inv T None [] [] ?s" "conns ?s k = Some c" "connections ?s (c_name c) = Some k"
      using msg by (simp_all add: log_call_inv)
    from sample_message [OF this msg(4,5), of ts] have
      "okR (\<lambda>s'. net_inv T None [] [] s' \<and> calm s s' \<and> tame ?s s') (onMessage k ts (put_conn k (c\<lparr>c_input := b\<rparr>) ?s))"
      by (simp add: log_call_calm)
    ultimately show ?thesis
      by (auto simp: record_calls_def main_code_def log_call_put_conn intro: okR_safeR elim!: okR_mono)
  qed
  show "safeR server_faults (\<lambda>s'. net_inv T (Some k) ds fs s' \<and> calls_ok s' \<and> timers s' = []) (on_connection ?P u k s)"
    if down: "net_inv T (Some k) ds fs s" "conns s0 k = Some c" "c_state c \<in> {kConnected, kDisconnecting}"
      "same_lives (put_conn k (c\<lparr>c_state := kDisconnected\<rparr>) s0) s" "calls_ok s0 \<and> timers s0 = []"
  proof -
    have c: "conns s k = Some (c\<lparr>c_state := kDisconnected\<rparr>)" using down(4) by (simp add: same_lives_def)
    have "c_state c \<noteq> kDisconnected" using down(3) by auto
    from calls_ok_down [OF conjunct1 [OF down(5)] down(2) this not_allocated [OF down(1) c] down(4)] have "calls_ok (log_call k Down s)" .
    moreover have "timers s = []" using down(4,5) by (simp add: same_lives_def)
    ultimately show ?thesis using c down(1)
      by (simp add: record_calls_def main_code_def onConnection_def get_conn_def log_call_inv)
  qed
  show "calls_ok (TcpConnection_dtor k s) \<and> timers (TcpConnection_dtor k s) = []"
    if "calls_ok s \<and> timers s = []" "conns s k = Some c" "c_state c = kDisconnected"
    using that calls_ok_destroyed by (auto simp: dtor_timers)
  show "calls_ok s' \<and> timers s' = []" if "calls_ok s \<and> timers s = []" "same_lives s s'"
    using that calls_ok_same same_lives_timers(1) by metis
  show "safeR server_faults (\<lambda>s'. (net_inv T None [] [] s' \<and> calm s s') \<and> calls_ok s' \<and> timers s' = [])
      (TimerQueue_handleRead (run_user ?P) T s)" if "net_inv T None [] [] s" "calls_ok s \<and> timers s = []"
    by (rule okR_safeR [OF okR_mono [OF idle_alarm [OF that(1) conjunct2 [OF that(2)]]]])
      (use that(2) calls_ok_same same_lives_timers(1) in metis)
qed simp

definition recorded_main ::
  "32 word \<Rightarrow> 32 word \<Rightarrow> int \<Rightarrow> nat \<Rightarrow> start_answers \<Rightarrow> poll_outcome list
   \<Rightarrow> (main_fun, 'z) recorded_scheme \<Rightarrow> (bool \<times> (main_fun, 'z) recorded_scheme) res" where
  "recorded_main len1 len2 t self K outcomes s =
     bindR (message_resize (CHR ''A'') len1) (\<lambda>message1.
     bindR (message_resize (CHR ''B'') len2) (\<lambda>message2.
     bindR (main_setup t self K s) (\<lambda>s1.
     server_loop (record_calls (main_code message1 message2)) t outcomes s1)))"

text \<open>C4. Whatever the network and the kernel do, the user sees every connection come up exactly once, then
  its messages, and, once it is gone, its going down exactly once and nothing after: at the end of a run of
  any number of rounds a live connection's calls are \<open>Up, Message, ..., Message\<close>, and those of a connection
  that has been destroyed are \<open>Up, Message, ..., Message, Down\<close>.\<close>

theorem callbacks_in_order:
  assumes s: "blank s" and fds: "0 \<le> efd" "0 \<le> tfd" "0 \<le> lfd" "distinct [efd, tfd, lfd]" and new: "calls s = []"
  shows "safeR (insert LengthError server_faults) (\<lambda>(ended, s'). \<forall>k.
      if conns s' k = None then calls_of k s' = [] \<or> all_calls (calls_of k s') else up_calls (calls_of k s'))
    (recorded_main len1 len2 t self (granted efd tfd lfd) outcomes s)"
proof -
  from main_setup_ok [OF s fds, of t self] obtain s1 where s1: "main_setup t self (granted efd tfd lfd) s = Inr s1"
    "net_inv t None [] [] s1" "\<not> looping s1" "conns s1 = Map.empty" "timers s1 = []" "world.more s1 = world.more s" by metis
  have t: "threadId s1 = t" using s1(2) by (simp add: net_inv_def)
  have "calls_of k s1 = []" for k using calls_of_more [OF s1(6)] new by (simp add: calls_of_def)
  then have "calls_ok s1" using s1(4) by (intro calls_okI) auto
  with s1(2,5) have run: "safeR server_faults (\<lambda>(ended, s'). net_inv t None [] [] s' \<and> calls_ok s' \<and> timers s' = [])
      (server_loop (record_calls (main_code (replicate (unat len1) (CHR ''A'')) (replicate (unat len2) (CHR ''B'')))) t outcomes s1)"
    unfolding server_loop_def by (intro recorded_sample.loop_safe [OF _ s1(3) t]) simp
  have ordered: "if conns s' k = None then calls_of k s' = [] \<or> all_calls (calls_of k s') else up_calls (calls_of k s')"
    if "net_inv t None [] [] s' \<and> calls_ok s' \<and> timers s' = []" for s' :: "(main_fun, 'a) recorded_scheme" and k
  proof (cases "conns s' k")
    case (Some c)
    with that conns_okD(5) [of t None "[]" "[]" s' k c] have "c_state c \<noteq> kDisconnected" by (auto simp: conn_fits_def)
    with Some calls_okD(2) [of s' k c] that show ?thesis by simp
  qed (use that calls_okD(3) [of s' k] in simp)
  let ?r = "server_loop (record_calls (main_code (replicate (unat len1) (CHR ''A'')) (replicate (unat len2) (CHR ''B'')))) t outcomes s1"
  let ?Q = "\<lambda>(ended, s'). \<forall>k.
      if conns s' k = None then calls_of k s' = [] \<or> all_calls (calls_of k s') else up_calls (calls_of k s')"
  have "safeR server_faults ?Q ?r" by (rule safeR_mono [OF run]) (clarify, rule ordered, simp)
  then have "safeR (insert LengthError server_faults) ?Q ?r" by (cases ?r) simp_all
  then show ?thesis by (simp add: recorded_main_def message_resize_def s1(1))
qed

lemma callbacks_in_order_witness:
  "safeR (insert LengthError server_faults) (\<lambda>(ended, s'). \<forall>k.
      if conns s' k = None then calls_of k s' = [] \<or> all_calls (calls_of k s') else up_calls (calls_of k s'))
    (recorded_main 10 20 7 50 (granted 3 4 5) (map PollReady [\<lambda>f. if f = 5 then 1 else 0, \<lambda>f. if f = 7 then 1 else 0])
      (world.extend demo_world \<lparr>calls = []\<rparr>))"
proof (rule callbacks_in_order)
  show "blank (world.extend demo_world \<lparr>calls = []\<rparr>)"
    using demo_world_blank by (simp add: blank_def kernel_ok_def clock_ok_def world.defs)
qed (simp_all add: world.defs)

end
