(* ===== verification/SharedLoop.thy ===== *)
theory SharedLoop
  imports Startup Wakeups
begin

text \<open>
  A server whose loop other threads use at the same time: they queue functors of the user's, wake the loop and
  ask it to quit, between any two callbacks or functors of the loop thread. The sample server keeps its invariant
  along every run of the loop with the other threads.
\<close>

section \<open>The contract\<close>

locale shared_reactor = reactor E inv live call run release
  for E :: "fault set" and inv :: "'u task list \<Rightarrow> 'u task list \<Rightarrow> ('u, 'z) evloop_scheme \<Rightarrow> bool"
    and live call run release +
  assumes inv_push: "inv ds fs s \<Longrightarrow> inv ds fs (push_functor (UserTask u) s)"
    and inv_wake: "inv ds fs s \<Longrightarrow> inv ds fs (wakeup s)"
    and inv_quit: "inv ds fs s \<Longrightarrow> inv ds fs (s\<lparr>quit_flag := True\<rparr>)"
    and live_push: "live a s \<Longrightarrow> live a (push_functor (UserTask u) s)"
    and live_wake: "live a s \<Longrightarrow> live a (wakeup s)"
    and live_quit: "live a s \<Longrightarrow> live a (s\<lparr>quit_flag := True\<rparr>)"
begin

definition phase_inv :: "'u phase \<Rightarrow> ('u, 'z) evloop_scheme \<Rightarrow> bool" where
  "phase_inv p s = (case p of Waiting \<Rightarrow> inv [] [] s | Polling \<Rightarrow> inv [] [] s | Handling as \<Rightarrow> inv [] [] s \<and> distinct as \<and> (\<forall>a \<in> set as. live a s)
     | Calling ds fs \<Rightarrow> inv ds fs s | Over \<Rightarrow> inv [] [] s | Crashed e \<Rightarrow> e \<in> E)"

lemma phase_inv_others:
  "phase_inv p s \<Longrightarrow> phase_inv p (push_functor (UserTask u) s)" "phase_inv p s \<Longrightarrow> phase_inv p (wakeup s)"
  "phase_inv p s \<Longrightarrow> phase_inv p (s\<lparr>quit_flag := True\<rparr>)"
  using inv_push inv_wake inv_quit live_push live_wake live_quit by (simp_all add: phase_inv_def split: phase.splits)

lemma own_inv:
  assumes "loop_own call run release (p, s) (p', s')" and "phase_inv p s"
  shows "phase_inv p' s'"
  using assms(1)
proof (cases rule: loop_ownE)
  case (polled outcome s0 active s1)
  with assms(2) reactor.polled [OF reactor_axioms, of s outcome] show ?thesis by (simp add: phase_inv_def)
next
  case (poll_fails outcome s0 e)
  with assms(2) reactor.polled [OF reactor_axioms, of s outcome] show ?thesis by (simp add: phase_inv_def)
next
  case (handled a s0 s1 as)
  with assms(2) event [of s a] show ?thesis by (auto simp: phase_inv_def)
next
  case (handle_fails a s0 e as)
  with assms(2) event [of s a] show ?thesis by (auto simp: phase_inv_def)
next
  case (taken s0 fs s1)
  with assms(2) reactor.taken [OF reactor_axioms, of s] show ?thesis by (auto simp: phase_inv_def take_functors_def)
next
  case (called f s0 s1 ds fs)
  with assms(2) reactor.called [OF reactor_axioms, of ds f fs s] show ?thesis by (simp add: phase_inv_def)
next
  case (call_fails f s0 e ds fs)
  with assms(2) reactor.called [OF reactor_axioms, of ds f fs s] show ?thesis by (simp add: phase_inv_def)
next
  case (released ds s0)
  with assms(2) reactor.released [OF reactor_axioms, of ds s] show ?thesis by (simp add: phase_inv_def)
next
  case (ended s0)
  with assms(2) flags [of s, where b = False and q = "quit_flag s"] show ?thesis by (simp add: phase_inv_def)
qed (use assms(2) in \<open>simp_all add: phase_inv_def\<close>)

lemma step_inv:
  assumes "loop_step call run release (p, s) (p', s')" and "phase_inv p s"
  shows "phase_inv p' s'"
  using assms(1) by (cases rule: loop_stepE) (use assms(2) own_inv phase_inv_others in auto)

lemma run_inv:
  assumes "(loop_step call run release)\<^sup>*\<^sup>* (p, s) (p', s')" and "phase_inv p s"
  shows "phase_inv p' s'"
  using assms
proof (induction "(p', s')" arbitrary: p' s' rule: rtranclp_induct)
  case (step y)
  then show ?case using step_inv by (cases y) blast
qed simp

end

section \<open>The server\<close>

lemma net_inv_push:
  assumes inv: "net_inv T m ds fs s"
  shows "net_inv T m ds fs (push_functor (UserTask u) s)"
proof -
  let ?s = "push_functor (UserTask u) s"
  have P: "heap ?s = heap s" "pollfds ?s = pollfds s" "channels ?s = channels s" "loopId ?s = loopId s" by simp_all
  have F: "conns ?s = conns s" "connections ?s = connections s" "open_fds ?s = open_fds s" "malloc ?s = malloc s" "timers ?s = timers s"
    "nextConnId ?s = nextConnId s" "server_name ?s = server_name s" "server_callbacks ?s = server_callbacks s"
    "newConnectionCallback ?s = newConnectionCallback s" "kernel_ok ?s = kernel_ok s" "clock_ok ?s = clock_ok s"
    by (simp_all add: push_functor_def kernel_ok_def clock_ok_def)
  have pend: "destroys (xs @ pendingFunctors ?s) = destroys (xs @ pendingFunctors s)" for xs by (simp add: destroys_def)
  have "conn_at ?s = conn_at s" by (intro ext) (simp add: conn_at_def F)
  moreover have "removable ?s = removable s" by (intro ext) (simp add: removable_def poller_cong [OF P])
  ultimately have "conn_fits m ds fs ?s = conn_fits m ds fs s"
    using pend [of "ds @ fs"] by (intro ext) (simp add: conn_fits_def poller_cong [OF P] F destroys_def)
  moreover have "chan_ok ?s = chan_ok s" by (intro ext) (simp add: chan_ok_def F)
  moreover have "queue_ok m ds fs ?s" using inv by (auto simp: net_inv_def queue_ok_def destroys_def F)
  moreover have "fds_ok ?s = fds_ok s" by (simp add: fds_ok_def F)
  ultimately show ?thesis using inv
    by (simp add: net_inv_def conns_ok_def map_ok_def chans_ok_def memory_ok_def poller_cong [OF P] F)
qed

lemma live_others:
  fixes s :: "('u, 'z) world_scheme"
  shows "live a s \<Longrightarrow> live a (push_functor f s)" "live a s \<Longrightarrow> live a (wakeup s)" "live a s \<Longrightarrow> live a (s\<lparr>quit_flag := q\<rparr>)"
  by (simp_all add: live_def chan_ok_def push_functor_def wakeup_def)

lemma net_inv_wake: "net_inv T m ds fs s \<Longrightarrow> net_inv T m ds fs (wakeup s)"
  using net_inv_cong(1) [of "wakeup s" s T m ds fs] by (simp add: wakeup_def kernel_ok_def clock_ok_def)

sublocale server_users \<subseteq> shared_reactor E "\<lambda>ds fs s. net_inv T None ds fs s \<and> G s" live "call_back P"
  "run_task P r" release_tasks for r
proof unfold_locales
  fix ds fs u a and s :: "('u, 'z) world_scheme"
  show "net_inv T None ds fs (push_functor (UserTask u) s) \<and> G (push_functor (UserTask u) s)" if "net_inv T None ds fs s \<and> G s"
    using that net_inv_push by (auto simp: same_lives_def push_functor_def intro: kept [of s])
  show "net_inv T None ds fs (wakeup s) \<and> G (wakeup s)" if "net_inv T None ds fs s \<and> G s"
  proof -
    have "same_lives s (wakeup s)" by (simp add: same_lives_def wakeup_def)
    with that net_inv_wake kept show ?thesis by blast
  qed
  show "net_inv T None ds fs (s\<lparr>quit_flag := True\<rparr>) \<and> G (s\<lparr>quit_flag := True\<rparr>)" if "net_inv T None ds fs s \<and> G s"
    using that flags_safe [where b = "callingPendingFunctors s" and l = "looping s" and q = True]
    by (force simp: same_lives_def intro: kept [of s])
qed (simp_all add: live_others)

context server_users begin

lemma shared_run:
  assumes "(loop_step (call_back P) (run_task P r) release_tasks)\<^sup>*\<^sup>* (Waiting, s) (p, s')" and "net_inv T None [] [] s" and "G s"
  shows "(\<forall>e. p = Crashed e \<longrightarrow> e \<in> E) \<and> (p \<in> {Waiting, Over} \<longrightarrow> net_inv T None [] [] s' \<and> G s')"
  using run_inv [OF assms(1)] assms(2,3) by (auto simp: phase_inv_def)

end

definition shared_step ::
  "(main_fun, 'z) program \<Rightarrow> main_fun phase \<times> (main_fun, 'z) world_scheme \<Rightarrow> main_fun phase \<times> (main_fun, 'z) world_scheme \<Rightarrow> bool" where
  "shared_step P = loop_step (call_back P) (run_task P (Success ())) release_tasks"

text \<open>C2. The sample server shared with other threads, which may queue functors, wake the loop and ask it to
  quit at any time: if the functors of the user keep the server's invariant, so does every run, and it ends
  in no fault but those of \<open>server_faults\<close>.\<close>

theorem server_shared:
  assumes s: "blank s" and fds: "0 \<le> efd" "0 \<le> tfd" "0 \<le> lfd" "distinct [efd, tfd, lfd]"
    and user: "\<And>ds fs u s. server_inv t None ds fs s \<Longrightarrow> safeR server_faults (server_inv t None ds fs) (user u s)"
  shows "\<exists>s1. main_setup t self (granted efd tfd lfd) s = Inr s1 \<and> (\<forall>p s'.
    (shared_step (main_with user n1 n2))\<^sup>*\<^sup>* (Waiting, s1\<lparr>looping := True, quit_flag := False\<rparr>) (p, s') \<longrightarrow>
    (\<forall>e. p = Crashed e \<longrightarrow> e \<in> server_faults) \<and> (p \<in> {Waiting, Over} \<longrightarrow> server_inv t None [] [] s'))"
proof -
  from main_setup_ok [OF s fds, of t self] obtain s1 where s1: "main_setup t self (granted efd tfd lfd) s = Inr s1" "net_inv t None [] [] s1" "timers s1 = []"
    by metis
  let ?P = "main_with user n1 n2"
  have users: "server_users ?P t (\<lambda>s. timers s = []) server_faults"
  proof (rule sample_users)
    fix s :: "(main_fun, 'a) world_scheme" and ds fs u
    show "safeR server_faults (\<lambda>s'. net_inv t None ds fs s' \<and> timers s' = []) (user u s)" if "net_inv t None ds fs s" "timers s = []"
      by (rule safeR_mono [OF user]) (use that in \<open>simp_all add: server_inv_def\<close>)
    show "safeR server_faults (\<lambda>s'. (net_inv t None [] [] s' \<and> calm s s') \<and> timers s' = []) (TimerQueue_handleRead user t s)"
      if "net_inv t None [] [] s" "timers s = []"
      using that(2) by (auto intro!: okR_safeR okR_mono [OF idle_alarm [OF that]] simp: same_lives_def)
  qed (auto simp: tame_def opened_def same_lives_def TcpConnection_dtor_def)
  let ?s1 = "s1\<lparr>looping := True, quit_flag := False\<rparr>"
  have "net_inv t None [] [] ?s1" "timers ?s1 = []"
    using flags_safe [OF s1(2), where b = "callingPendingFunctors s1" and l = True and q = False] s1(3) by simp_all
  note server_users.shared_run [OF users _ this]
  then show ?thesis using s1(1) unfolding shared_step_def server_inv_def by blast
qed

text \<open>Functors that queue themselves again.\<close>

lemma server_shared_witness:
  "\<exists>s1. main_setup 7 50 (granted 3 4 5) demo_world = Inr s1 \<and> (\<forall>p s'.
    (shared_step (main_with (\<lambda>u s. Inr (queueInLoop 7 (UserTask u) s)) 10 20))\<^sup>*\<^sup>* (Waiting, s1\<lparr>looping := True, quit_flag := False\<rparr>) (p, s') \<longrightarrow>
    (\<forall>e. p = Crashed e \<longrightarrow> e \<in> server_faults) \<and> (p \<in> {Waiting, Over} \<longrightarrow> server_inv 7 None [] [] s'))"
proof (rule server_shared [OF demo_world_blank])
  show "safeR server_faults (server_inv 7 None ds fs) (Inr (queueInLoop 7 (UserTask u) s))"
    if "server_inv 7 None ds fs s" for ds fs u and s :: "main_fun world"
    using that net_inv_push [of 7 None ds fs s u] net_inv_wake [of 7 None ds fs "push_functor (UserTask u) s"]
    by (simp add: server_inv_def queueInLoop_def Let_def push_functor_def wakeup_def)
qed simp_all

end
