(* ===== verification/StuckOutput.thy ===== *)
theory StuckOutput
  imports SharedLoop
begin

text \<open>
  What a connection of the sample server could not write at once it never writes: the constructor of
  \<open>TcpConnection\<close> binds no write callback, and \<open>sendInLoop\<close> only writes while the output buffer is empty.
\<close>

text \<open>The object at \<open>k\<close>, if it lives, is a connection on \<open>f\<close> whose output begins with \<open>kept\<close>, while the wire has carried \<open>w\<close>.\<close>

definition stuck :: "nat \<Rightarrow> int \<Rightarrow> string \<Rightarrow> string \<Rightarrow> ('u, 'z) world_scheme \<Rightarrow> bool" where
  "stuck k f kept w s \<longleftrightarrow> (\<forall>i. malloc s i \<noteq> k) \<and> (\<forall>c. conns s k = Some c \<longrightarrow>
     c_sockfd c = f \<and> (\<exists>more. content (c_output c) = kept @ more) \<and> wire s f = w)"

lemma stuck_same:
  assumes "stuck k f kept w s" and "conns s' k = conns s k" "wire s' = wire s" "\<And>i. \<exists>j. malloc s' i = malloc s j"
  shows "stuck k f kept w s'"
  using assms unfolding stuck_def by metis

lemma stuck_tame:
  assumes s: "stuck k f kept w s" and kept: "kept \<noteq> []" and t: "tame s s'"
  shows "stuck k f kept w s'"
  unfolding stuck_def
proof (intro conjI allI impI)
  fix d
  assume d: "conns s' k = Some d"
  have "rel_option (\<lambda>c d. c_state c = c_state d \<and> c_sockfd c = c_sockfd d) (conns s k) (conns s' k)" using t by (simp add: tame_def)
  with d obtain c where c: "conns s k = Some c" "c_sockfd d = c_sockfd c" by (auto simp: option_rel_Some2)
  with s obtain more where m: "c_sockfd c = f" "content (c_output c) = kept @ more" "wire s f = w" by (auto simp: stuck_def)
  have "waiting_stays s s'" using t by (simp add: tame_def)
  with c(1) d m kept obtain x where "content (c_output d) = content (c_output c) @ x" "wire s' f = wire s f"
    unfolding waiting_stays_def by (metis append_is_Nil_conv)
  with m c(2) show "c_sockfd d = f" "\<exists>more. content (c_output d) = kept @ more" "wire s' f = w" by simp_all
qed (use s t in \<open>simp add: stuck_def tame_def\<close>)

lemma stuck_users:
  assumes kept: "kept \<noteq> []"
  shows "server_users (main_with (\<lambda>u s. Inr s) n1 n2) T (\<lambda>s. stuck k f kept w s \<and> timers s = []) server_faults"
proof (rule sample_users)
  fix s s' :: "(main_fun, 'a) world_scheme" and j c ds fs and u :: main_fun
  let ?G = "\<lambda>s. stuck k f kept w s \<and> timers s = []"
  show lives: "?G s'" if "?G s" "same_lives s s'" for s s' :: "(main_fun, 'a) world_scheme"
  proof -
    have "conns s' = conns s" "wire s' = wire s" "malloc s' = malloc s" "timers s' = timers s" using that(2) by (simp_all add: same_lives_def)
    with that(1) stuck_same [of k f kept w s s'] show ?thesis by auto
  qed
  show "?G s'" if "?G s" "tame s s'" using that(1) stuck_tame [OF _ kept that(2), of k f w] tame_timers(1) [OF that(2)] by simp
  show "?G s'" if "?G s" "opened s j c s'"
  proof -
    from that have "j \<noteq> k" by (auto simp: opened_def stuck_def)
    then have "conns s' k = conns s k" "wire s' = wire s" "malloc s' = (\<lambda>i. malloc s (Suc (Suc i)))" "timers s' = timers s"
      using that(2) by (simp_all add: opened_def)
    with that(1) stuck_same [of k f kept w s s'] show ?thesis by auto
  qed
  show "?G s'" if "?G s" "conns s j = Some c" "same_lives (put_conn j (c\<lparr>c_state := kDisconnected\<rparr>) s) s'"
  proof -
    have "stuck k f kept w (put_conn j (c\<lparr>c_state := kDisconnected\<rparr>) s)" using that(1,2) by (auto simp: stuck_def)
    with that(1) lives [OF _ that(3)] show ?thesis by simp
  qed
  show "?G (TcpConnection_dtor j s)" if "?G s" "conns s j = Some c"
    using that by (auto simp: TcpConnection_dtor_def stuck_def)
  show "safeR server_faults (\<lambda>s'. (net_inv T None [] [] s' \<and> calm s s') \<and> ?G s') (TimerQueue_handleRead (\<lambda>u s. Inr s) T s)"
    if "net_inv T None [] [] s" "?G s"
    by (rule okR_safeR [OF okR_mono [OF idle_alarm [OF that(1) conjunct2 [OF that(2)]]]]) (use that(2) lives in blast)
qed simp_all

text \<open>C37. Output that a connection of the sample server could not write at once is never written: whatever \<open>poll\<close>
  reports from then on (that the socket is writable, say), whatever arrives and whatever other threads do, as long
  as the connection lives its output buffer still begins with the bytes that waited, and not one more byte of it
  has gone on the wire.\<close>

theorem output_never_written:
  fixes n1 n2 :: "32 word"
  assumes s: "blank s" and fds: "0 \<le> efd" "0 \<le> tfd" "0 \<le> lfd" "distinct [efd, tfd, lfd]"
    and m: "m1 = replicate (unat n1) (CHR ''A'')" "m2 = replicate (unat n2) (CHR ''B'')"
  shows "\<exists>s1. main_setup t self (granted efd tfd lfd) s = Inr s1 \<and> (\<forall>x k c p y d.
    (shared_step (main_code m1 m2))\<^sup>*\<^sup>* (Waiting, s1\<lparr>looping := True, quit_flag := False\<rparr>) (Waiting, x) \<longrightarrow>
    conns x k = Some c \<and> content (c_output c) \<noteq> [] \<longrightarrow>
    (shared_step (main_code m1 m2))\<^sup>*\<^sup>* (Waiting, x) (p, y) \<and> p \<in> {Waiting, Over} \<and> conns y k = Some d \<longrightarrow>
    (\<exists>more. content (c_output d) = content (c_output c) @ more) \<and> wire y (c_sockfd c) = wire x (c_sockfd c))"
proof -
  let ?P = "main_with (\<lambda>u s. Inr s) n1 n2 :: (main_fun, 'a) program"
  have P: "main_code m1 m2 = ?P" by (simp add: m main_with_return)
  from main_setup_ok [OF s fds, of t self] obtain s1 where s1: "main_setup t self (granted efd tfd lfd) s = Inr s1" "net_inv t None [] [] s1" "timers s1 = []"
    by metis
  let ?s1 = "s1\<lparr>looping := True, quit_flag := False\<rparr>"
  have inv1: "net_inv t None [] [] ?s1" "timers ?s1 = []"
    using flags_safe [OF s1(2), where b = "callingPendingFunctors s1" and l = True and q = False] s1(3) by simp_all
  have "(\<exists>more. content (c_output d) = content (c_output c) @ more) \<and> wire y (c_sockfd c) = wire x (c_sockfd c)"
    if x: "(shared_step ?P)\<^sup>*\<^sup>* (Waiting, ?s1) (Waiting, x)" and c: "conns x k = Some c" "content (c_output c) \<noteq> []"
      and y: "(shared_step ?P)\<^sup>*\<^sup>* (Waiting, x) (p, y)" "p \<in> {Waiting, Over}" "conns y k = Some d" for x k c p y d
  proof -
    have "server_users ?P t (\<lambda>s. timers s = []) server_faults"
      unfolding main_with_return by (rule sample.server_users_axioms)
    from server_users.shared_run [OF this x [unfolded shared_step_def] inv1] have x1: "net_inv t None [] [] x" "timers x = []" by simp_all
    have "memory_ok x" using x1(1) by (simp add: net_inv_def)
    then have "malloc x i \<noteq> k" for i using c(1) by (auto simp: memory_ok_def)
    then have "stuck k (c_sockfd c) (content (c_output c)) (wire x (c_sockfd c)) x" using c(1) by (simp add: stuck_def)
    with server_users.shared_run [OF stuck_users [OF c(2)] y(1) [unfolded shared_step_def] x1(1)] x1(2) y(2)
    have "stuck k (c_sockfd c) (content (c_output c)) (wire x (c_sockfd c)) y" by blast
    with y(3) show ?thesis by (simp add: stuck_def)
  qed
  with s1(1) show ?thesis unfolding P by blast
qed

lemma output_never_written_witness:
  "\<exists>s1. main_setup 7 50 (granted 3 4 5) demo_world = Inr s1 \<and> (\<forall>x k c p y d.
    (shared_step (main_code (replicate 10 (CHR ''A'')) (replicate 20 (CHR ''B''))))\<^sup>*\<^sup>* (Waiting, s1\<lparr>looping := True, quit_flag := False\<rparr>) (Waiting, x) \<longrightarrow>
    conns x k = Some c \<and> content (c_output c) \<noteq> [] \<longrightarrow>
    (shared_step (main_code (replicate 10 (CHR ''A'')) (replicate 20 (CHR ''B''))))\<^sup>*\<^sup>* (Waiting, x) (p, y) \<and> p \<in> {Waiting, Over} \<and> conns y k = Some d \<longrightarrow>
    (\<exists>more. content (c_output d) = content (c_output c) @ more) \<and> wire y (c_sockfd c) = wire x (c_sockfd c))"
  by (rule output_never_written [where ?n1.0 = 10 and ?n2.0 = 20, OF demo_world_blank]) simp_all

end
