(* ===== verification/Leaks.thy ===== *)
theory Leaks
  imports Startup
begin

text \<open>
  Nothing leaks: the descriptors in use are always those that the process had, those of its loop and its
  acceptor, and one for each connection object; and every connection object is either in the server's map
  or about to be destroyed.
\<close>

section \<open>The descriptors in use\<close>

definition conn_fds :: "('u, 'z) world_scheme \<Rightarrow> int set" where
  "conn_fds s = c_sockfd ` ran (conns s)"

definition own_fds :: "('u, 'z) world_scheme \<Rightarrow> bool" where
  "own_fds s \<longleftrightarrow> (\<forall>j k c d. conns s j = Some c \<longrightarrow> conns s k = Some d \<longrightarrow> c_sockfd c = c_sockfd d \<longrightarrow> j = k)"

definition no_leak :: "int set \<Rightarrow> ('u, 'z) world_scheme \<Rightarrow> bool" where
  "no_leak base s \<longleftrightarrow> open_fds s = base \<union> conn_fds s \<and> base \<inter> conn_fds s = {} \<and> own_fds s"

lemma conn_fdsI: "conns s k = Some c \<Longrightarrow> c_sockfd c \<in> conn_fds s"
  by (auto simp: conn_fds_def ran_def)

lemma own_fdsD: "own_fds s \<Longrightarrow> conns s j = Some c \<Longrightarrow> conns s k = Some d \<Longrightarrow> c_sockfd c = c_sockfd d \<Longrightarrow> j = k"
  unfolding own_fds_def by blast

text \<open>The three ways in which the connection objects change.\<close>

lemma conn_fds_add: "conns s = (conns s0)(k \<mapsto> c) \<Longrightarrow> conns s0 k = None \<Longrightarrow> conn_fds s = insert (c_sockfd c) (conn_fds s0)"
  by (simp add: conn_fds_def)

lemma conn_fds_same:
  assumes "\<And>k. rel_option (\<lambda>c d. c_sockfd c = c_sockfd d) (conns s k) (conns s' k)"
  shows "conn_fds s' = conn_fds s" "own_fds s \<Longrightarrow> own_fds s'"
proof -
  have bwd: "\<exists>c. conns s k = Some c \<and> c_sockfd c = c_sockfd d" if "conns s' k = Some d" for k d
    using assms [of k] that by (auto elim: option.rel_cases)
  have fwd: "\<exists>d. conns s' k = Some d \<and> c_sockfd d = c_sockfd c" if "conns s k = Some c" for k c
    using assms [of k] that by (auto elim: option.rel_cases)
  show "conn_fds s' = conn_fds s"
  proof (intro equalityI subsetI)
    show "f \<in> conn_fds s" if f: "f \<in> conn_fds s'" for f
    proof -
      from f obtain k d where "conns s' k = Some d" "c_sockfd d = f" by (auto simp: conn_fds_def ran_def)
      with bwd conn_fdsI [of s] show ?thesis by metis
    qed
    show "f \<in> conn_fds s'" if f: "f \<in> conn_fds s" for f
    proof -
      from f obtain k d where "conns s k = Some d" "c_sockfd d = f" by (auto simp: conn_fds_def ran_def)
      with fwd conn_fdsI [of s'] show ?thesis by metis
    qed
  qed
  show "own_fds s'" if own: "own_fds s"
    unfolding own_fds_def
  proof (intro allI impI)
    fix j k c d
    assume "conns s' j = Some c" "conns s' k = Some d" "c_sockfd c = c_sockfd d"
    with bwd [of j c] bwd [of k d] own_fdsD [OF own] show "j = k" by metis
  qed
qed

lemma conn_fds_remove:
  assumes own: "own_fds s" and c: "conns s k = Some c" and s': "conns s' = (conns s)(k := None)"
  shows "conn_fds s' = conn_fds s - {c_sockfd c}"
proof (intro equalityI subsetI)
  fix f
  assume "f \<in> conn_fds s'"
  then obtain j d where "conns s' j = Some d" "c_sockfd d = f" by (auto simp: conn_fds_def ran_def)
  then have j: "j \<noteq> k" "conns s j = Some d" "c_sockfd d = f" by (auto simp: s' split: if_splits)
  with own_fdsD [OF own j(2) c] conn_fdsI [OF j(2)] show "f \<in> conn_fds s - {c_sockfd c}" by blast
next
  fix f
  assume "f \<in> conn_fds s - {c_sockfd c}"
  then obtain j d where j: "conns s j = Some d" "c_sockfd d = f" "f \<noteq> c_sockfd c" by (auto simp: conn_fds_def ran_def)
  then have "conns s' j = Some d" using c by (auto simp: s')
  with j(2) show "f \<in> conn_fds s'" using conn_fdsI [of s'] by blast
qed

lemma no_leak_tame:
  assumes ok: "no_leak base s" and t: "tame s s'"
  shows "no_leak base s'"
proof -
  have "rel_option (\<lambda>c d. c_sockfd c = c_sockfd d) (conns s k) (conns s' k)" for k
  proof -
    have "rel_option (\<lambda>c d. c_state c = c_state d \<and> c_sockfd c = c_sockfd d) (conns s k) (conns s' k)"
      using t by (simp add: tame_def)
    then show ?thesis by (rule option.rel_mono_strong) simp
  qed
  note conn_fds_same [OF this]
  with ok t show ?thesis by (simp add: no_leak_def tame_def)
qed

lemma no_leak_same: "no_leak base s \<Longrightarrow> same_lives s s' \<Longrightarrow> no_leak base s'"
  by (simp add: no_leak_def same_lives_def conn_fds_def own_fds_def)

lemma no_leak_opened:
  assumes ok: "no_leak base s0" and o: "opened s0 k c s"
  shows "no_leak base s"
proof -
  have F: "conns s = (conns s0)(k \<mapsto> c)" "open_fds s = insert (c_sockfd c) (open_fds s0)" "conns s0 k = None"
    "c_sockfd c \<notin> open_fds s0" using o by (auto simp: opened_def)
  note fds = conn_fds_add [OF F(1,3)]
  have new: "c_sockfd d \<noteq> c_sockfd c" if "conns s0 j = Some d" for j d
    using conn_fdsI [OF that] F(4) ok by (auto simp: no_leak_def)
  have "own_fds s"
    unfolding own_fds_def
  proof (intro allI impI)
    fix i j d e
    assume e: "conns s i = Some d" "conns s j = Some e" "c_sockfd d = c_sockfd e"
    show "i = j"
    proof (cases "i = k \<or> j = k")
      case True
      with e new [of i d] new [of j e] show ?thesis by (auto simp: F(1) split: if_splits)
    next
      case False
      with e have "conns s0 i = Some d" "conns s0 j = Some e" by (simp_all add: F(1))
      with e(3) ok show ?thesis using own_fdsD [of s0 i d j e] by (simp add: no_leak_def)
    qed
  qed
  with ok F(2,4) show ?thesis by (auto simp: no_leak_def fds)
qed

lemma no_leak_state:
  assumes ok: "no_leak base s0" and c: "conns s0 k = Some c" and same: "same_lives (put_conn k (c\<lparr>c_state := st\<rparr>) s0) s"
  shows "no_leak base s"
proof -
  let ?s = "put_conn k (c\<lparr>c_state := st\<rparr>) s0"
  have "rel_option (\<lambda>c d. c_sockfd c = c_sockfd d) (conns s0 j) (conns ?s j)" for j
    using c by (simp add: option.rel_refl)
  note conn_fds_same [OF this]
  with ok have "no_leak base ?s" by (simp add: no_leak_def)
  then show ?thesis using same by (rule no_leak_same)
qed

lemma no_leak_destroyed:
  assumes ok: "no_leak base s" and c: "conns s k = Some c"
  shows "no_leak base (TcpConnection_dtor k s)"
proof -
  let ?s = "TcpConnection_dtor k s"
  have F: "conns ?s = (conns s)(k := None)" "open_fds ?s = open_fds s - {c_sockfd c}" using c by (simp_all add: TcpConnection_dtor_def)
  have own: "own_fds s" using ok by (simp add: no_leak_def)
  note fds = conn_fds_remove [OF own c F(1)]
  have "own_fds ?s"
    unfolding own_fds_def
  proof (intro allI impI)
    fix i j d e
    assume "conns ?s i = Some d" "conns ?s j = Some e" "c_sockfd d = c_sockfd e"
    then show "i = j" using own_fdsD [OF own, of i d j e] by (auto simp: F(1) split: if_splits)
  qed
  moreover have "c_sockfd c \<notin> base" using ok conn_fdsI [OF c] by (auto simp: no_leak_def)
  ultimately show ?thesis using ok by (auto simp: no_leak_def F(2) fds)
qed

section \<open>The server of main.cpp\<close>

text \<open>The descriptors are in order, and the loop and the acceptor still have theirs; no timers are set.\<close>

definition tidy :: "int set \<Rightarrow> int \<Rightarrow> int \<Rightarrow> ('u, 'z) world_scheme \<Rightarrow> bool" where
  "tidy base tfd lfd s \<longleftrightarrow> no_leak base s \<and> timers s = [] \<and> timerfd s = tfd \<and> acceptFd s = lfd"

lemma tidyI: "no_leak base s' \<Longrightarrow> timers s' = timers s \<Longrightarrow> timerfd s' = timerfd s \<Longrightarrow> acceptFd s' = acceptFd s \<Longrightarrow>
    tidy base tfd lfd s \<Longrightarrow> tidy base tfd lfd s'"
  by (simp add: tidy_def)

lemma tidyD: "tidy base tfd lfd s \<Longrightarrow> no_leak base s" "tidy base tfd lfd s \<Longrightarrow> timers s = []"
  by (simp_all add: tidy_def)

lemma tidy_same:
  assumes "tidy base tfd lfd s" and "same_lives s s'"
  shows "tidy base tfd lfd s'"
  by (rule tidyI [OF no_leak_same [OF tidyD(1) [OF assms(1)] assms(2)] same_lives_timers(1) [OF assms(2)] same_lives_fds [OF assms(2)] assms(1)])

interpretation tidy_sample: server_users
    "main_code (replicate (unat n1) (CHR ''A'')) (replicate (unat n2) (CHR ''B''))" T "tidy base tfd lfd" server_faults
  for n1 n2 :: "32 word" and T :: int and base :: "int set" and tfd lfd :: int
  unfolding main_with_return [symmetric]
proof (rule sample_users)
  fix s :: "(main_fun, 'a) world_scheme"
  show "safeR server_faults (\<lambda>s'. (net_inv T None [] [] s' \<and> calm s s') \<and> tidy base tfd lfd s')
      (TimerQueue_handleRead (\<lambda>u s. Inr s) T s)" if "net_inv T None [] [] s" "tidy base tfd lfd s"
    by (rule okR_safeR [OF okR_mono [OF idle_alarm [OF that(1) tidyD(2) [OF that(2)]]]]) (use that(2) tidy_same in blast)
  fix s' :: "(main_fun, 'a) world_scheme" and k c
  show "tidy base tfd lfd s'" if "tidy base tfd lfd s" "tame s s'"
    by (rule tidyI [OF no_leak_tame [OF tidyD(1) [OF that(1)] that(2)] tame_timers(1) [OF that(2)] tame_fds [OF that(2)] that(1)])
  show "tidy base tfd lfd s'" if "tidy base tfd lfd s" "opened s k c s'"
    by (rule tidyI [OF no_leak_opened [OF tidyD(1) [OF that(1)] that(2)] opened_timers(1) [OF that(2)] opened_fds [OF that(2)] that(1)])
  show "tidy base tfd lfd s'" if "tidy base tfd lfd s" "conns s k = Some c" and same: "same_lives (put_conn k (c\<lparr>c_state := kDisconnected\<rparr>) s) s'"
  proof (rule tidyI [OF no_leak_state [OF tidyD(1) [OF that(1)] that(2) same] _ _ _ that(1)])
    show "timers s' = timers s" "timerfd s' = timerfd s" "acceptFd s' = acceptFd s"
      using same_lives_timers(1) [OF same] same_lives_fds [OF same] by simp_all
  qed
  show "tidy base tfd lfd (TcpConnection_dtor k s)" if "tidy base tfd lfd s" "conns s k = Some c"
    by (rule tidyI [OF no_leak_destroyed [OF tidyD(1) [OF that(1)] that(2)] dtor_timers(1) dtor_fds that(1)])
  show "tidy base tfd lfd s'" if "tidy base tfd lfd s" "same_lives s s'" using that by (rule tidy_same)
qed simp_all

text \<open>C5. Nothing leaks in the sample server: however the poll rounds went, the descriptors in use are those
  the process started with, the three of the loop and the acceptor, and one per connection object; and each of
  these objects is in the server's map or waits in the queue to be destroyed.\<close>

theorem nothing_leaks:
  assumes s: "blank s" and fds: "0 \<le> efd" "0 \<le> tfd" "0 \<le> lfd" "distinct [efd, tfd, lfd]"
  shows "safeR (insert LengthError server_faults) (\<lambda>(ended, s').
      open_fds s' = open_fds s \<union> {efd, tfd, lfd} \<union> {c_sockfd c | c. \<exists>k. conns s' k = Some c}
      \<and> (\<forall>k c. conns s' k = Some c \<longrightarrow> connections s' (c_name c) = Some k \<or> ConnectDestroyed k \<in> set (pendingFunctors s')))
    (main_program args t self (granted efd tfd lfd) outcomes s)"
proof -
  obtain n1 n2 where args: "main_lengths args = (n1, n2)" by force
  let ?base = "insert lfd (insert efd (insert tfd (open_fds s)))"
  from main_setup_ok [OF s fds, of t self] obtain s1 where s1: "main_setup t self (granted efd tfd lfd) s = Inr s1"
    "net_inv t None [] [] s1" "\<not> looping s1" "conns s1 = Map.empty" "open_fds s1 = ?base" "timers s1 = []" by metis
  have t: "threadId s1 = t" using s1(2) by (simp add: net_inv_def)
  have "no_leak ?base s1" using s1(4,5) by (simp add: no_leak_def conn_fds_def own_fds_def)
  let ?r = "server_loop (main_code (replicate (unat n1) (CHR ''A'')) (replicate (unat n2) (CHR ''B''))) t outcomes s1"
  let ?Q = "\<lambda>(ended, s'). open_fds s' = open_fds s \<union> {efd, tfd, lfd} \<union> {c_sockfd c | c. \<exists>k. conns s' k = Some c}
      \<and> (\<forall>k c. conns s' k = Some c \<longrightarrow> connections s' (c_name c) = Some k \<or> ConnectDestroyed k \<in> set (pendingFunctors s'))"
  have run: "safeR server_faults (\<lambda>(ended, s'). net_inv t None [] [] s' \<and> tidy ?base (timerfd s1) (acceptFd s1) s') ?r"
    unfolding server_loop_def by (rule tidy_sample.loop_safe [OF _ s1(3) t]) (use s1(2,6) \<open>no_leak ?base s1\<close> in \<open>simp add: tidy_def\<close>)
  have "connections s' (c_name c) = Some k \<or> ConnectDestroyed k \<in> set (pendingFunctors s')"
    if "net_inv t None [] [] s'" "conns s' k = Some c" for s' :: "(main_fun, 'a) world_scheme" and k c
    using conns_okD(5) [OF that] by (auto simp: conn_fits_def destroys_def split: if_splits task.splits)
  moreover have "open_fds s' = open_fds s \<union> {efd, tfd, lfd} \<union> {c_sockfd c | c. \<exists>k. conns s' k = Some c}"
    if "no_leak ?base s'" for s' :: "(main_fun, 'a) world_scheme"
    using that by (auto simp: no_leak_def conn_fds_def ran_def)
  ultimately have "?Q (ended, s')" if "net_inv t None [] [] s' \<and> tidy ?base (timerfd s1) (acceptFd s1) s'" for ended :: bool and s' :: "(main_fun, 'a) world_scheme"
    using that tidyD(1) [of ?base "timerfd s1" "acceptFd s1" s'] by simp
  then have "safeR server_faults ?Q ?r" by (intro safeR_mono [OF run]) auto
  then have "safeR (insert LengthError server_faults) ?Q ?r" by (cases ?r) simp_all
  then show ?thesis by (simp add: main_program_def args message_resize_def s1(1) Let_def)
qed

lemma nothing_leaks_witness:
  "safeR (insert LengthError server_faults) (\<lambda>(ended, s').
      open_fds s' = open_fds demo_world \<union> {3, 4, 5} \<union> {c_sockfd c | c. \<exists>k. conns s' k = Some c}
      \<and> (\<forall>k c. conns s' k = Some c \<longrightarrow> connections s' (c_name c) = Some k \<or> ConnectDestroyed k \<in> set (pendingFunctors s')))
    (main_program None 7 50 (granted 3 4 5) (map PollReady [\<lambda>f. if f = 5 then 1 else 0, \<lambda>f. if f = 7 then 1 else 0]) demo_world)"
  by (rule nothing_leaks [OF demo_world_blank]) simp_all

section \<open>A loop that comes and goes\<close>

text \<open>The poller's map holds each registered channel once; they all go with it.\<close>

lemma dtor_all:
  assumes "distinct as" and "\<And>a. a \<in> set as \<Longrightarrow> \<exists>c. heap s a = Some c \<and> \<not> eventHandling c"
  shows "foldR Channel_dtor as s = Inr (s\<lparr>heap := heap s |` (- set as)\<rparr>)"
  using assms
proof (induction as arbitrary: s)
  case (Cons a as)
  from Cons.prems(2) [of a] obtain c where "heap s a = Some c" "\<not> eventHandling c" by auto
  then have "Channel_dtor a s = Inr (s\<lparr>heap := (heap s)(a := None)\<rparr>)" by (simp add: Channel_dtor_def get_channel_def)
  moreover have "foldR Channel_dtor as (s\<lparr>heap := (heap s)(a := None)\<rparr>)
      = Inr (s\<lparr>heap := (heap s)(a := None) |` (- set as)\<rparr>)"
    using Cons.IH [of "s\<lparr>heap := (heap s)(a := None)\<rparr>"] Cons.prems by fastforce
  moreover have "(heap s)(a := None) |` (- set as) = heap s |` (- set (a # as))"
    by (intro ext) (simp add: restrict_map_def)
  ultimately show ?case by simp
qed (simp add: restrict_map_def)

lemma Poller_dtor_eq:
  assumes ok: "poller_ok s" and idle: "\<And>a c. heap s a = Some c \<Longrightarrow> \<not> eventHandling c"
  shows "Poller_dtor s = Inr (s\<lparr>pollfds := [], channels := Map.empty, heap := heap s |` (- ran (channels s))\<rparr>)"
proof -
  let ?as = "map (the \<circ> channels s) (sorted_list_of_set (dom (channels s)))"
  have slot: "\<exists>i c. slot_ok s i a c \<and> ch_fd c = f" if "channels s f = Some a" for f a
    using ok that by (simp add: poller_ok_def)
  have "dom (channels s) \<subseteq> real_fd ` set (pollfds s)"
  proof
    fix f
    assume "f \<in> dom (channels s)"
    with slot obtain i a c where "slot_ok s i a c" "ch_fd c = f" by blast
    then have "f = real_fd (pollfds s ! i)" "pollfds s ! i \<in> set (pollfds s)" by (simp_all add: slot_ok_def)
    then show "f \<in> real_fd ` set (pollfds s)" by blast
  qed
  then have fin: "finite (dom (channels s))" by (rule finite_subset) simp
  have "inj_on (the \<circ> channels s) (dom (channels s))"
  proof (rule inj_onI)
    fix f g
    assume fg: "f \<in> dom (channels s)" "g \<in> dom (channels s)" "(the \<circ> channels s) f = (the \<circ> channels s) g"
    then obtain a where a: "channels s f = Some a" "channels s g = Some a" by auto
    from slot [OF a(1)] slot [OF a(2)] show "f = g" by (auto simp: slot_ok_def)
  qed
  then have dist: "distinct ?as" using fin by (simp add: distinct_map)
  have set: "set ?as = ran (channels s)" using fin by (force simp: ran_def)
  have "\<exists>c. heap (s\<lparr>pollfds := [], channels := Map.empty\<rparr>) a = Some c \<and> \<not> eventHandling c" if a: "a \<in> set ?as" for a
  proof -
    from a obtain f where "channels s f = Some a" unfolding set by (auto simp: ran_def)
    with slot obtain i c where "slot_ok s i a c" by blast
    then have "heap s a = Some c" by (simp add: slot_ok_def)
    with idle show ?thesis by simp
  qed
  from dtor_all [OF dist this] show ?thesis unfolding Poller_dtor_def set by simp
qed

definition idle_channels :: "('cb, 'z) poller_scheme \<Rightarrow> bool" where
  "idle_channels s \<longleftrightarrow> (\<forall>a c. heap s a = Some c \<longrightarrow> \<not> eventHandling c)"

lemma set_interest_idle:
  assumes "Channel_set_interest t oper a s = Inr s'" and "idle_channels s"
  shows "idle_channels s'" "poller.more s' = poller.more s" "dom (heap s') = dom (heap s)"
  using assms by (auto simp: Channel_set_interest_def EventLoop_updateChannel_def Poller_updateChannel_def modify_channel_def
      get_channel_def put_channel_def idle_channels_def Let_def res_simps split: option.splits if_splits)

lemma EventLoop_ctor_result:
  assumes new: "EventLoop_ctor t self (Success efd) tfd lo s = Inr (lo', s')" and empty: "heap s = Map.empty" and inj: "inj (malloc s)"
  shows "\<not> looping s'" "timerfd s' = tfd" "timerfdChannel s' = malloc s 0" "wakeupChannel s' = malloc s 1" "idle_channels s'"
    "dom (heap s') = {malloc s 0, malloc s 1}"
proof -
  define s2 where "s2 = put_channel (malloc s 0) (setReadCallBack TimerRead (new_channel self tfd))
    (s\<lparr>malloc := \<lambda>i. malloc s (Suc (Suc i)), loopId := self, threadId := t, pollfds := [], channels := Map.empty,
      looping := False, quit_flag := False, callingPendingFunctors := False, wakeupFd := efd, wakeupChannel := malloc s 1,
      eventCount := 0, pendingFunctors := [], open_fds := insert efd (insert tfd (open_fds s)),
      timerfd := tfd, timerfdChannel := malloc s 0, timers := [], timer_heap := Map.empty, timerfd_due := None,
      timerfd_ticks := 0, timer_vars := Map.empty\<rparr>)"
  have idle: "\<not> eventHandling (setReadCallBack cb (new_channel l f))" for cb :: callback and l f
    by (simp add: setReadCallBack_def new_channel_def)
  from new obtain s3 where s3: "Channel_set_interest t EnableReading (malloc s 0) s2 = Inr s3"
    and s4: "Channel_set_interest t EnableReading (malloc s 1) (put_channel (malloc s 1) (setReadCallBack WakeupRead (new_channel self efd)) s3) = Inr s'"
    by (auto simp: EventLoop_ctor_def createEventfd_def or_die_def TimerQueue_ctor_def createTimerfd_def new_address_def
        Let_def s2_def res_simps split: if_splits)
  have "idle_channels s2" using idle empty by (simp add: s2_def idle_channels_def put_channel_def)
  note F3 = set_interest_idle [OF s3 this]
  have "idle_channels (put_channel (malloc s 1) (setReadCallBack WakeupRead (new_channel self efd)) s3)"
    using idle F3(1) by (simp add: idle_channels_def put_channel_def)
  note F4 = set_interest_idle [OF s4 this]
  have more: "poller.more s' = poller.more s2" using F3(2) F4(2) by (simp add: put_channel_def)
  note M = more_eqD [OF more]
  show "\<not> looping s'" "timerfd s' = tfd" "timerfdChannel s' = malloc s 0" "wakeupChannel s' = malloc s 1" "idle_channels s'"
    using F4(1) by (simp_all add: M) (simp_all add: s2_def)
  show "dom (heap s') = {malloc s 0, malloc s 1}" using F3(3) F4(3) empty by (auto simp: s2_def put_channel_def)
qed

text \<open>C38. A loop that is constructed and destroyed leaves exactly its eventfd behind: the channels and the timerfd
  are released, but no destructor closes \<open>wakeupFd_\<close>.\<close>

theorem loop_leaves_eventfd:
  assumes s: "blank s" and fds: "0 \<le> efd" "0 \<le> tfd" "efd \<noteq> tfd" "tfd \<notin> open_fds s"
  shows "\<exists>s1 s2. EventLoop_ctor t self (Success efd) tfd Map.empty s = Inr ([t \<mapsto> self], s1)
    \<and> EventLoop_leave t [t \<mapsto> self] s1 = Inr (Map.empty, s2) \<and> heap s2 = Map.empty \<and> open_fds s2 = insert efd (open_fds s)"
proof -
  obtain s1 where s1: "EventLoop_ctor t self (Success efd) tfd Map.empty s = Inr ([t \<mapsto> self], s1)" "boot_ok t s1"
    "channels s1 = [tfd \<mapsto> malloc s 0, efd \<mapsto> malloc s (Suc 0)]" "open_fds s1 = insert efd (insert tfd (open_fds s))"
    by (rule EventLoop_ctor_ok [OF s fds(1-3), of t self]) (rule that)
  have inj: "inj (malloc s)" and empty: "heap s = Map.empty" using s by (simp_all add: blank_def)
  note R = EventLoop_ctor_result [OF s1(1) empty inj]
  let ?s2 = "TimerQueue_dtor s1"
  have same: "heap ?s2 = heap s1" "pollfds ?s2 = pollfds s1" "channels ?s2 = channels s1" "loopId ?s2 = loopId s1"
    by (simp_all add: TimerQueue_dtor_def)
  have ok: "poller_ok ?s2" using s1(2) by (simp add: boot_ok_def poller_cong [OF same])
  have idle: "\<not> eventHandling c" if "heap ?s2 a = Some c" for a c using R(5) that by (simp add: same idle_channels_def)
  let ?s3 = "?s2\<lparr>pollfds := [], channels := Map.empty, heap := heap ?s2 |` (- ran (channels ?s2))\<rparr>"
  have pend: "pendingFunctors s1 = []" using s1(2) by (simp add: boot_ok_def)
  then have upd: "s1\<lparr>pendingFunctors := []\<rparr> = s1" by simp
  have "release_tasks [] s1 = s1" by (simp add: release_tasks_def)
  moreover have "Poller_dtor ?s2 = Inr ?s3" by (rule Poller_dtor_eq [OF ok]) (rule idle)
  ultimately have "EventLoop_leave t [t \<mapsto> self] s1 = Inr (Map.empty, ?s3)"
    unfolding EventLoop_leave_def pend upd using R(1) by (simp add: EventLoop_dtor_def)
  moreover have "heap ?s3 = Map.empty"
  proof -
    have "ran (channels s1) = dom (heap s1)" using R(6) fds(3) by (auto simp: s1(3))
    then show ?thesis by (intro ext) (auto simp: same restrict_map_def)
  qed
  moreover have "open_fds ?s3 = insert efd (open_fds s)" using s1(4) fds(3,4) R(2) by (auto simp: TimerQueue_dtor_def)
  ultimately show ?thesis using s1(1) by blast
qed

lemma loop_leaves_eventfd_witness:
  "\<exists>s1 s2. EventLoop_ctor 7 50 (Success 3) 4 Map.empty demo_world = Inr ([7 \<mapsto> 50], s1)
    \<and> EventLoop_leave 7 [7 \<mapsto> 50] s1 = Inr (Map.empty, s2) \<and> open_fds s2 = insert 3 (open_fds demo_world)"
  using loop_leaves_eventfd [OF demo_world_blank, of 3 4 7 50] by (auto simp: demo_world_def)

end
