(* ===== verification/ChannelEnds.thy ===== *)
theory ChannelEnds
  imports Leaks
begin

text \<open>
  The destructor of a channel asserts that no event of the channel is being handled. Whatever an operation does,
  it leaves no further channel marked so; between two rounds of the loop, which is when the channels of closed
  connections are destroyed, no channel is.
\<close>

section \<open>Channels whose event is being handled\<close>

definition handling :: "('cb, 'z) poller_scheme \<Rightarrow> nat set" where
  "handling s = {a. \<exists>c. heap s a = Some c \<and> eventHandling c}"

lemma handling_cong: "heap s' = heap s \<Longrightarrow> handling s' = handling s"
  by (simp add: handling_def)

lemma idle_iff: "idle_channels s \<longleftrightarrow> handling s = {}"
  by (auto simp: idle_channels_def handling_def)

lemmas heap_ops = handling_def put_channel_def modify_channel_def get_channel_def Let_def res_simps

lemma set_interest_handling: "Channel_set_interest t oper a s = Inr s' \<Longrightarrow> handling s' \<subseteq> handling s"
  by (auto simp: Channel_set_interest_def EventLoop_updateChannel_def Poller_updateChannel_def heap_ops
      split: option.splits if_splits)

lemma remove_handling: "EventLoop_removeChannel t a s = Inr s' \<Longrightarrow> handling s' \<subseteq> handling s"
  by (auto simp: EventLoop_removeChannel_def Poller_removeChannel_def heap_ops
      split: option.splits if_splits)

lemma poll_handling: "Poller_poll outcome s = Inr (active, s') \<Longrightarrow> handling s' \<subseteq> handling s"
proof -
  have "getActiveChannels pfds n s = Inr (active, s') \<Longrightarrow> handling s' \<subseteq> handling s" for pfds n and s :: "('a, 'b) poller_scheme" and active s'
  proof (induction pfds n s arbitrary: active s' rule: getActiveChannels.induct)
    case (2 pfd pfds n s)
    from "2.prems" show ?case
    proof (cases "0 < n \<and> 0 < sint (pfd_revents pfd)")
      case True
      with "2.prems" obtain ch s1 rest where s1: "channels s (pfd_fd pfd) = Some ch"
        "modify_channel ch (\<lambda>c. c\<lparr>ch_revents := scast (pfd_revents pfd)\<rparr>) s = Inr s1" "getActiveChannels pfds (n - 1) s1 = Inr (rest, s')"
        by (auto simp: res_simps split: option.splits)
      have "handling s1 \<subseteq> handling s" using s1(2) by (auto simp: heap_ops split: option.splits if_splits)
      with "2.IH"(1) [OF _ _ s1(1-3)] True show ?thesis by auto
    next
      case False
      with 2 show ?thesis by (auto split: if_splits)
    qed
  qed simp
  from this [of "snd (sys_poll outcome (pollfds s))" "fst (sys_poll outcome (pollfds s))" "s\<lparr>pollfds := snd (sys_poll outcome (pollfds s))\<rparr>"]
  show "Poller_poll outcome s = Inr (active, s') \<Longrightarrow> handling s' \<subseteq> handling s"
    by (auto simp: Poller_poll_def Let_def split_beta handling_def split: if_splits)
qed

section \<open>Operations that do not touch the channels\<close>

lemma heap_same [simp]:
  fixes s :: "('u, 'z) world_scheme"
  shows "heap (queueInLoop t f s) = heap s" "heap (EventLoop_handleRead s) = heap s" "heap (snd (sys_write fd data s)) = heap s"
    "heap (sys_shutdown_write fd s) = heap s" "heap (TcpConnection_dtor k s) = heap s" "heap (release_tasks fs s) = heap s"
    "heap (snd (new_address s)) = heap s" "heap (readTimerfd s) = heap s" "heap (timerfd_settime ts s) = heap s"
proof -
  show dtor: "heap (TcpConnection_dtor k s) = heap s" for k and s :: "('u, 'z) world_scheme"
    by (simp add: TcpConnection_dtor_def split: option.split)
  show "heap (release_tasks fs s) = heap s"
    unfolding release_tasks_def by (induction fs arbitrary: s) (auto simp: release_task_def dtor split: task.split)
qed (simp_all add: queueInLoop_def push_functor_def wakeup_def EventLoop_handleRead_def sys_write_def sys_shutdown_write_def
    new_address_def readTimerfd_def timerfd_settime_def Let_def)

lemma current_time_heap: "current_time s = Inr (now, s') \<Longrightarrow> heap s' = heap s"
  by (auto simp: current_time_def res_simps)

lemma insert_heap: "TimerQueue_insert a s = Inr (b, s') \<Longrightarrow> heap s' = heap s"
  by (auto simp: TimerQueue_insert_def res_simps Let_def split_beta)

lemma resetTimerfd_heap: "resetTimerfd when s = Inr s' \<Longrightarrow> heap s' = heap s"
  by (auto simp: resetTimerfd_def howMuchTimeFromNow_def timerfd_settime_def res_simps Let_def dest: current_time_heap split: if_splits)

lemma getExpired_heap: "getExpired now s = Inr (es, s') \<Longrightarrow> heap s' = heap s"
  by (auto simp: getExpired_def res_simps Let_def split: prod.splits)

lemma rearm_heap: "rearm now e s = Inr s' \<Longrightarrow> heap s' = heap s"
  by (auto simp: rearm_def res_simps dest: insert_heap split: if_splits)

lemma reset_heap: "TimerQueue_reset es now s = Inr s' \<Longrightarrow> heap s' = heap s"
proof -
  have "foldR (rearm now) es s = Inr s1 \<Longrightarrow> heap s1 = heap s" for s1
    by (rule foldR_safe [where I = "\<lambda>x. heap x = heap s"]) (auto dest: rearm_heap)
  then show "TimerQueue_reset es now s = Inr s' \<Longrightarrow> heap s' = heap s"
    by (auto simp: TimerQueue_reset_def res_simps dest: resetTimerfd_heap split: if_splits)
qed

lemma captured_heap: "add_captured_timer t v s = Inr s' \<Longrightarrow> heap s' = heap s"
  by (auto simp: add_captured_timer_def addTimerInLoop_def res_simps dest!: insert_heap resetTimerfd_heap split: option.splits if_splits)

section \<open>What the users keep\<close>

text \<open>The contract: the functions of the user, called with the connections that the library passes, mark no channel.\<close>

locale quiet_users =
  fixes P :: "('u, 'z) program"
  assumes user_quiet: "run_user P u s = Inr s' \<Longrightarrow> handling s' \<subseteq> handling s"
    and connection_quiet: "on_connection P u k s = Inr s' \<Longrightarrow> handling s' \<subseteq> handling s"
    and message_quiet: "on_message P u k ts s = Inr s' \<Longrightarrow> handling s' \<subseteq> handling s"
begin

lemma callbacks:
  "connectionCallback P k s = Inr s' \<Longrightarrow> handling s' \<subseteq> handling s"
  "messageCallback P k ts s = Inr s' \<Longrightarrow> handling s' \<subseteq> handling s"
  using connection_quiet message_quiet
  by (fastforce simp: connectionCallback_def messageCallback_def bad_function_call_def res_simps split: option.splits)+

end

lemma setState_heap: "setState st k s = Inr s' \<Longrightarrow> heap s' = heap s"
  by (auto simp: setState_def res_simps)

lemma conn_interest_handling: "conn_interest t oper k s = Inr s' \<Longrightarrow> handling s' \<subseteq> handling s"
  by (auto simp: conn_interest_def res_simps dest: set_interest_handling)

lemma shutdownInLoop_heap: "shutdownInLoop t k s = Inr s' \<Longrightarrow> heap s' = heap s"
  by (auto simp: shutdownInLoop_def res_simps split: if_splits)

lemma bindR_InrE: "bindR m f = Inr b \<Longrightarrow> (\<And>a. m = Inr a \<Longrightarrow> f a = Inr b \<Longrightarrow> R) \<Longrightarrow> R"
  by (cases m) simp_all

lemma sendInLoop_handling:
  fixes s :: "('u, 'z) world_scheme"
  assumes "sendInLoop t message k s = Inr s'"
  shows "handling s' \<subseteq> handling s"
  using assms unfolding sendInLoop_def
proof (elim bindR_InrE)
  fix c :: "'u tcpconn" and ch
  let ?w = "if \<not> isWriting ch \<and> readableBytes (c_output c) = 0
        then let (n, s1) = sys_write (ch_fd ch) message s in (if 0 \<le> n then n else 0, s1)
        else (0, s)"
  obtain nw s1 where w: "?w = (nw, s1)" by fastforce
  then have "heap s1 = heap s" using heap_same(3) [of "ch_fd ch" message s] by (auto simp: split_beta split: if_splits)
  then have h: "handling s1 = handling s" "\<And>d. handling (put_conn k d s1) = handling s" by (simp_all add: handling_def)
  assume "(let (nwrote, s1) = ?w in
     bindR (assertR ''nwrote >= 0'' (0 \<le> nwrote)) (\<lambda>_.
     if nat nwrote < length message
     then bindR (append_bytes (drop (nat nwrote) message) (c_output c)) (\<lambda>b.
          let s2 = put_conn k (c\<lparr>c_output := b\<rparr>) s1 in
          if \<not> isWriting ch then conn_interest t EnableWriting k s2 else Inr s2)
     else Inr s1)) = Inr s'"
  from this [unfolded w] h show ?thesis
    by (auto simp: res_simps Let_def dest!: conn_interest_handling split: if_splits)
qed

lemma send_handling: "TcpConnection_send t v message k s = Inr s' \<Longrightarrow> handling s' \<subseteq> handling s"
  by (auto simp: TcpConnection_send_def runInLoop_def res_simps handling_cong [OF heap_same(1)] dest: sendInLoop_handling split: if_splits)

lemma removeConnection_heap: "removeConnection t k s = Inr s' \<Longrightarrow> heap s' = heap s"
  by (auto simp: removeConnection_def res_simps Let_def)

lemma handleClose_handling:
  fixes s :: "('u, 'z) world_scheme"
  assumes "handleClose t k s = Inr s'"
  shows "handling s' \<subseteq> handling s"
  using assms unfolding handleClose_def
proof (elim bindR_InrE)
  fix c :: "'u tcpconn" and s1
  assume "conn_interest t DisableAll k s = Inr s1" and fin: "(if c_closeCallback c then removeConnection t k s1 else bad_function_call) = Inr s'"
  from this(1) have "handling s1 \<subseteq> handling s" by (rule conn_interest_handling)
  moreover have "heap s' = heap s1" using fin by (auto simp: bad_function_call_def dest: removeConnection_heap split: if_splits)
  ultimately show ?thesis by (simp add: handling_def)
qed

section \<open>The server\<close>

lemma handle_active_handling:
  assumes call: "\<And>cb ts s s'. call cb ts s = Inr s' \<Longrightarrow> handling s' \<subseteq> handling s"
    and run: "handle_active call a s = Inr s'" and idle: "handling s = {}"
  shows "handling s' = {}"
proof -
  from run obtain now s1 s2 s3 where s1: "current_time s = Inr (now, s1)"
    "modify_channel a (\<lambda>c. c\<lparr>eventHandling := True\<rparr>) s1 = Inr s2" "foldR (fire call now a) handlers s2 = Inr s3"
    "modify_channel a (\<lambda>c. c\<lparr>eventHandling := False\<rparr>) s3 = Inr s'"
    by (auto simp: handle_active_def handleEvent_def res_simps)
  have "heap s1 = heap s" by (rule current_time_heap [OF s1(1)])
  with s1(2) idle have "handling s2 \<subseteq> {a}" by (auto simp: heap_ops split: option.splits if_splits)
  moreover have "handling y \<subseteq> handling x" if "fire call now a h x = Inr y" for h x y
    using that call by (fastforce simp: fire_def res_simps split: if_splits option.splits)
  ultimately have "handling s3 \<subseteq> {a}"
    using foldR_safe [OF s1(3), where I = "\<lambda>x. handling x \<subseteq> {a}"] by blast
  moreover have "handling s' \<subseteq> handling s3 - {a}" using s1(4) by (auto simp: heap_ops split: option.splits if_splits)
  ultimately show ?thesis by blast
qed

context quiet_users begin

lemma established:
  assumes "connectEstablished P t k s = Inr s'"
  shows "handling s' \<subseteq> handling s"
  using assms unfolding connectEstablished_def
proof (elim bindR_InrE)
  fix s1 s2
  assume "setState kConnected k s = Inr s1" "conn_interest t EnableReading k s1 = Inr s2" "connectionCallback P k s2 = Inr s'"
  from callbacks(1) [OF this(3)] conn_interest_handling [OF this(2)] handling_cong [OF setState_heap [OF this(1)]]
  show ?thesis by simp
qed

lemma destroyed:
  assumes "connectDestroyed P t k s = Inr s'"
  shows "handling s' \<subseteq> handling s"
  using assms unfolding connectDestroyed_def
proof (elim bindR_InrE)
  fix s1 s2 s3 and c3 :: "'u tcpconn"
  assume "setState kDisconnected k s = Inr s1" "conn_interest t DisableAll k s1 = Inr s2" "connectionCallback P k s2 = Inr s3"
    "EventLoop_removeChannel t (c_channel c3) s3 = Inr s'"
  from remove_handling [OF this(4)] callbacks(1) [OF this(3)] conn_interest_handling [OF this(2)] handling_cong [OF setState_heap [OF this(1)]]
  show ?thesis by simp
qed

lemma new_connection:
  assumes "newConnection P t f peer s = Inr s'"
  shows "handling s' \<subseteq> handling s"
  using assms unfolding newConnection_def Let_def split_beta
proof (elim bindR_InrE)
  fix s1 s5 :: "('u, 'z) world_scheme" and c :: "'u tcpconn" and addr
  let ?s4 = "snd (new_address (snd (new_address (s1\<lparr>local_addrs := \<lambda>i. local_addrs s1 (Suc i)\<rparr>))))"
  let ?nm = "conn_name (server_name s) (nextConnId s)"
  let ?k = "fst (new_address (s1\<lparr>local_addrs := \<lambda>i. local_addrs s1 (Suc i)\<rparr>))"
  let ?a = "fst (new_address (snd (new_address (s1\<lparr>local_addrs := \<lambda>i. local_addrs s1 (Suc i)\<rparr>))))"
  assume s1: "(if nextConnId s < 2 ^ 31 - 1 then Inr (s\<lparr>nextConnId := nextConnId s + 1\<rparr>)
      else Inl (Undefined ''signed 32-bit overflow'')) = Inr s1"
    and s5: "TcpConnection_ctor ?k ?a ?nm f addr peer ?s4 = Inr s5"
    and fin: "connectEstablished P t ?k (put_conn ?k (c\<lparr>c_connectionCallback := fst (server_callbacks (s5\<lparr>connections := (connections s5)(?nm \<mapsto> ?k)\<rparr>)),
        c_messageCallback := snd (server_callbacks (s5\<lparr>connections := (connections s5)(?nm \<mapsto> ?k)\<rparr>)), c_closeCallback := True\<rparr>)
        (s5\<lparr>connections := (connections s5)(?nm \<mapsto> ?k)\<rparr>)) = Inr s'"
  have "heap s1 = heap s" using s1 by (auto split: if_splits)
  then have "heap ?s4 = heap s" by simp
  then have "handling s5 \<subseteq> handling s" using s5
    by (auto simp: TcpConnection_ctor_def heap_ops put_conn_def setReadCallBack_def new_channel_def split: if_splits)
  with established [OF fin] show ?thesis by (simp add: handling_def)
qed

lemma accepted:
  assumes "Acceptor_handleRead P t s = Inr s'"
  shows "handling s' \<subseteq> handling s"
  using assms unfolding Acceptor_handleRead_def Let_def
proof (elim bindR_InrE)
  fix r :: "int \<times> sockaddr_in"
  let ?s1 = "s\<lparr>accepts := \<lambda>i. accepts s (Suc i)\<rparr>"
  obtain f peer where r: "r = (f, peer)" by fastforce
  let ?s2 = "?s1\<lparr>open_fds := insert f (open_fds ?s1)\<rparr>"
  assume "(case r of (connfd, peerAddr1) \<Rightarrow>
     if 0 \<le> connfd
     then if newConnectionCallback (?s1\<lparr>open_fds := insert connfd (open_fds ?s1)\<rparr>)
          then newConnection P t connfd peerAddr1 (?s1\<lparr>open_fds := insert connfd (open_fds ?s1)\<rparr>)
          else bindR (sockets_close (Success ())) (\<lambda>_. Inr (?s1\<lparr>open_fds := insert connfd (open_fds ?s1),
              open_fds := open_fds (?s1\<lparr>open_fds := insert connfd (open_fds ?s1)\<rparr>) - {connfd}\<rparr>))
     else Inr ?s1) = Inr s'"
  then have "newConnection P t f peer ?s2 = Inr s' \<or> heap s' = heap s" by (auto simp: r res_simps split: if_splits)
  then show ?thesis
  proof
    assume "newConnection P t f peer ?s2 = Inr s'"
    from new_connection [OF this] show ?thesis by (simp add: handling_def)
  qed (simp add: handling_cong [of s' s])
qed

lemma read:
  assumes "TcpConnection_handleRead P t k ts s = Inr s'"
  shows "handling s' \<subseteq> handling s"
proof -
  from assms obtain n b and c :: "'u tcpconn" where
    "(let s1 = put_conn k (c\<lparr>c_input := b\<rparr>) (s\<lparr>reads := \<lambda>i. reads s (Suc i)\<rparr>) in
     if 0 < (n::int) then messageCallback P k ts s1
     else if n = 0 then handleClose t k s1
     else handleError k s1) = Inr s'"
    unfolding TcpConnection_handleRead_def by (elim bindR_InrE) (auto split: prod.splits)
  then show ?thesis
    by (auto simp: Let_def handleError_def res_simps split: if_splits dest!: callbacks(2) handleClose_handling) (auto simp: handling_def)
qed

lemma timers_run:
  assumes "TimerQueue_handleRead (run_user P) t s = Inr s'"
  shows "handling s' \<subseteq> handling s"
proof -
  from assms obtain now s1 es s2 s3 where s1: "current_time s = Inr (now, s1)" "getExpired now (readTimerfd s1) = Inr (es, s2)"
    "foldR (run_timer (run_user P)) es s2 = Inr s3" "TimerQueue_reset es now s3 = Inr s'"
    by (auto simp: TimerQueue_handleRead_def res_simps)
  have "heap s2 = heap s" using current_time_heap [OF s1(1)] getExpired_heap [OF s1(2)] by simp
  then have "handling s2 = handling s" by (rule handling_cong)
  moreover have "handling y \<subseteq> handling x" if "run_timer (run_user P) e x = Inr y" for e x y
    using that user_quiet by (auto simp: run_timer_def res_simps)
  then have "handling s3 \<subseteq> handling s2"
    using foldR_safe [OF s1(3), where I = "\<lambda>x. handling x \<subseteq> handling s2"] by blast
  moreover have "handling s' = handling s3" by (rule handling_cong [OF reset_heap [OF s1(4)]])
  ultimately show ?thesis by simp
qed

lemma callback_quiet:
  assumes "call_back P cb ts s = Inr s'"
  shows "handling s' \<subseteq> handling s"
proof (cases cb)
  case WakeupRead
  with assms show ?thesis by (auto simp: call_back_def handling_cong [of "EventLoop_handleRead s" s])
qed (use assms timers_run accepted read in \<open>simp_all add: call_back_def Let_def\<close>)

lemma task_quiet:
  assumes "run_task P r f s = Inr s'"
  shows "handling s' \<subseteq> handling s"
proof (cases f)
  case (AddTimerInLoop v)
  with assms have "heap s' = heap s" using captured_heap by (simp add: run_task_def Let_def)
  then show ?thesis by (simp add: handling_cong [of s' s])
next
  case (ShutdownInLoop k)
  with assms have "heap s' = heap s" using shutdownInLoop_heap by (simp add: run_task_def Let_def)
  then show ?thesis by (simp add: handling_cong [of s' s])
next
  case (SendInLoop k v)
  with assms show ?thesis by (auto simp: run_task_def Let_def send_captured_def dest: sendInLoop_handling split: option.splits)
next
  case AcceptorListen
  with assms have "Channel_set_interest (threadId s) EnableReading (acceptChannel s) (s\<lparr>listenning := True\<rparr>) = Inr s'"
    by (auto simp: run_task_def Let_def Acceptor_listen_def res_simps)
  from set_interest_handling [OF this] show ?thesis by (simp add: handling_def)
qed (use assms user_quiet destroyed in \<open>simp_all add: run_task_def Let_def\<close>)

lemma round_idle:
  assumes "server_round P outcome s = Inr s'" and idle: "handling s = {}"
  shows "handling s' = {}"
proof -
  from assms(1) obtain active s1 s2 s3 where s1: "Poller_poll outcome s = Inr (active, s1)" "foldR (handle_active (call_back P)) active s1 = Inr s2"
    "foldR (run_task P (Success ())) (pendingFunctors s2) (s2\<lparr>callingPendingFunctors := True, pendingFunctors := []\<rparr>) = Inr s3"
    "s' = release_tasks (pendingFunctors s2) (s3\<lparr>callingPendingFunctors := False\<rparr>)"
    by (auto simp: server_round_def loop_body_def doPendingFunctors_def take_functors_def res_simps)
  have "handling s1 = {}" using poll_handling [OF s1(1)] idle by simp
  then have "handling s2 = {}"
    using foldR_safe [OF s1(2), where I = "\<lambda>x. handling x = {}"] handle_active_handling [of "call_back P"] callback_quiet by blast
  then have "handling (s2\<lparr>callingPendingFunctors := True, pendingFunctors := []\<rparr>) = {}" by (simp add: handling_def)
  then have "handling s3 = {}"
    using foldR_safe [OF s1(3), where I = "\<lambda>x. handling x = {}"] task_quiet by blast
  then show ?thesis by (simp add: s1(4) handling_def)
qed

lemma loop_idle:
  assumes "server_loop P t outcomes s = Inr (ended, s')" and idle: "handling s = {}"
  shows "handling s' = {}"
proof -
  have while: "loop_while (call_back P) (run_task P (Success ())) release_tasks os x = Inr (e, y) \<Longrightarrow> handling x = {} \<Longrightarrow> handling y = {}" for os x e y
  proof (induction os arbitrary: x)
    case (Cons out os)
    then show ?case using round_idle [of out x] by (auto simp: server_round_def res_simps split: if_splits)
  qed simp
  from assms obtain e s1 where "loop_while (call_back P) (run_task P (Success ())) release_tasks outcomes (s\<lparr>looping := True, quit_flag := False\<rparr>) = Inr (e, s1)"
    "heap s' = heap s1" by (auto simp: server_loop_def EventLoop_loop_def res_simps split: if_splits)
  with while [OF this(1)] idle show ?thesis by (simp add: handling_def)
qed

end

section \<open>main.cpp\<close>

interpretation main_quiet: quiet_users "main_code m1 m2" for m1 m2 :: string
proof unfold_locales
  fix u :: main_fun and k ts and s s' :: "(main_fun, 'a) world_scheme"
  show "handling s' \<subseteq> handling s" if "run_user (main_code m1 m2) u s = Inr s'" using that by (simp add: main_code_def)
  show "handling s' \<subseteq> handling s" if "on_connection (main_code m1 m2) u k s = Inr s'"
    using that by (auto simp: main_code_def onConnection_def res_simps dest!: send_handling split: if_splits)
  show "handling s' \<subseteq> handling s" if "on_message (main_code m1 m2) u k ts s = Inr s'"
    using that by (auto simp: main_code_def onMessage_def res_simps handling_def)
qed

lemma main_setup_idle:
  assumes new: "main_setup t self (granted efd tfd lfd) s = Inr s'" and s: "blank s"
  shows "handling s' = {}"
proof -
  have inj: "inj (malloc s)" and empty: "heap s = Map.empty" using s by (simp_all add: blank_def)
  from new obtain lo s1 s2 where s1: "EventLoop_ctor t self (Success efd) tfd Map.empty s = Inr (lo, s1)"
    "TcpServer_ctor ''TcpServer'' (Success lfd) (Success ()) (Success ()) s1 = Inr s2"
    "TcpServer_start (Success ()) t (TcpServer_setCallbacks OnConnection OnMessage s2) = Inr s'"
    by (auto simp: main_setup_def granted_def res_simps)
  have "handling s1 = {}" using EventLoop_ctor_result(5) [OF s1(1) empty inj] by (simp add: idle_iff)
  then have "handling s2 = {}" using s1(2)
    by (auto simp: TcpServer_ctor_def Acceptor_ctor_def Socket_setReuseAddr_def createNonblockingOrDie_def bindOrDie_def or_die_def new_address_def
        setReadCallBack_def new_channel_def heap_ops split: if_splits)
  moreover have "handling s' \<subseteq> handling s2"
    using s1(3) set_interest_handling
    by (fastforce simp: TcpServer_start_def runInLoop_def Acceptor_listen_def TcpServer_setCallbacks_def Let_def res_simps handling_def
        queueInLoop_def push_functor_def wakeup_def split: if_splits)
  ultimately show ?thesis by simp
qed

lemma safeR_both: "safeR E P r \<Longrightarrow> safeR UNIV Q r \<Longrightarrow> safeR E (\<lambda>a. P a \<and> Q a) r"
  by (cases r) simp_all

text \<open>C20. The assertion of \<open>~Channel\<close> never fails in the sample server: however the poll rounds went, between
  two of them, which is when the channels of the connections that were closed are destroyed, the destructor of
  every channel returns.\<close>

theorem channel_destructors:
  assumes s: "blank s" and fds: "0 \<le> efd" "0 \<le> tfd" "0 \<le> lfd" "distinct [efd, tfd, lfd]"
  shows "safeR (insert LengthError server_faults)
    (\<lambda>(ended, s'). \<forall>a c. heap s' a = Some c \<longrightarrow> (\<exists>s''. Channel_dtor a s' = Inr s'' \<and> heap s'' = (heap s')(a := None)))
    (main_program args t self (granted efd tfd lfd) outcomes s)" (is "safeR _ ?Q ?r")
proof -
  have idle: "handling s' = {}" if "?r = Inr (ended, s')" for ended s'
  proof -
    from that obtain m1 m2 s1 where s1: "main_setup t self (granted efd tfd lfd) s = Inr s1" "server_loop (main_code m1 m2) t outcomes s1 = Inr (ended, s')"
      by (auto simp: main_program_def Let_def split_beta res_simps)
    from main_setup_idle [OF s1(1) s] show ?thesis by (rule main_quiet.loop_idle [OF s1(2)])
  qed
  have "?Q (ended, s')" if "?r = Inr (ended, s')" for ended s'
  proof -
    from idle [OF that] have "\<not> eventHandling c" if "heap s' a = Some c" for a c using that by (auto simp: handling_def)
    then show ?thesis by (auto simp: Channel_dtor_def get_channel_def)
  qed
  then have "safeR UNIV ?Q ?r" by (cases ?r) auto
  from safeR_both [OF main_program_safe [OF s fds] this] show ?thesis by (rule safeR_mono) auto
qed

lemma channel_destructors_witness:
  "safeR (insert LengthError server_faults)
    (\<lambda>(ended, s'). \<forall>a c. heap s' a = Some c \<longrightarrow> (\<exists>s''. Channel_dtor a s' = Inr s'' \<and> heap s'' = (heap s')(a := None)))
    (main_program None 7 50 (granted 3 4 5) (map PollReady [\<lambda>f. if f = 5 then 1 else 0, \<lambda>f. if f = 7 then 1 else 0]) demo_world)"
  by (rule channel_destructors [OF demo_world_blank]) simp_all

end
