(* ===== verification/QueuedWork.thy ===== *)
theory QueuedWork
  imports Wakeups "HOL-Library.Multiset" "HOL-Library.Sublist"
begin

text \<open>
  What happens to the functors that any thread queues, and to a request to quit: the loop of theory \<open>Wakeups\<close>, from
  before \<open>loop()\<close> to its end, with the pieces of \<open>queueInLoop\<close> and \<open>quit\<close> between which another thread can get
  in (what the mutex protects is one step). The loop thread runs the callbacks and functors of the program; the
  contract says what these do to the queue.
\<close>

section \<open>Configurations and steps\<close>

text \<open>
  \<open>entered\<close>: \<open>loop()\<close> has been called. \<open>waking\<close>: the other threads that have pushed a functor or set \<open>quit_\<close> and
  have not called \<open>wakeup()\<close> yet. Records of the past: \<open>pushed\<close> and \<open>called\<close>, the functors ever queued and ever
  called; \<open>polls\<close>, how often \<open>poll\<close> has returned; \<open>early\<close>, whether the loop's own thread queued a functor before
  \<open>loop()\<close>.
\<close>

record ('u, 's) config =
  entered :: bool
  at_phase :: "'u phase"
  sys :: 's
  waking :: "int multiset"
  pushed :: "'u task list"
  called :: "'u task list"
  polls :: nat
  early :: bool

text \<open>What a step of the loop thread adds to the records: the functor it calls, the functors behind the old queue,
  the return of \<open>poll\<close>.\<close>

definition calls_now :: "'u phase \<Rightarrow> 'u task list" where
  "calls_now p = (case p of Calling ds (f # fs) \<Rightarrow> [f] | _ \<Rightarrow> [])"

definition queues_now :: "('u, 'z) evloop_scheme \<Rightarrow> ('u, 'z) evloop_scheme \<Rightarrow> 'u task list" where
  "queues_now s s' = drop (length (pendingFunctors s)) (pendingFunctors s')"

definition polls_now :: "'u phase \<Rightarrow> nat" where
  "polls_now p = (if p = Polling then 1 else 0)"

definition own_turn :: "'u phase \<Rightarrow> ('u, 'z) evloop_scheme \<Rightarrow> ('u, ('u, 'z) evloop_scheme) config \<Rightarrow> ('u, ('u, 'z) evloop_scheme) config" where
  "own_turn p s x = x\<lparr>at_phase := p, sys := s, pushed := pushed x @ queues_now (sys x) s,
     called := called x @ calls_now (at_phase x), polls := polls x + polls_now (at_phase x)\<rparr>"

inductive wk_step ::
  "(callback \<Rightarrow> timestamp \<Rightarrow> ('u, 'z) evloop_scheme \<Rightarrow> ('u, 'z) evloop_scheme res)
   \<Rightarrow> ('u task \<Rightarrow> ('u, 'z) evloop_scheme \<Rightarrow> ('u, 'z) evloop_scheme res)
   \<Rightarrow> ('u task list \<Rightarrow> ('u, 'z) evloop_scheme \<Rightarrow> ('u, 'z) evloop_scheme)
   \<Rightarrow> ('u, ('u, 'z) evloop_scheme) config \<Rightarrow> ('u, ('u, 'z) evloop_scheme) config \<Rightarrow> bool"
  for call run release where
  other_push: "t \<noteq> threadId (sys x) \<Longrightarrow> wk_step call run release x
    (x\<lparr>sys := push_functor f (sys x), waking := add_mset t (waking x), pushed := pushed x @ [f]\<rparr>)"
| other_quit: "t \<noteq> threadId (sys x) \<Longrightarrow> wk_step call run release x
    (x\<lparr>sys := (sys x)\<lparr>quit_flag := True\<rparr>, waking := add_mset t (waking x)\<rparr>)"
| other_wake: "t \<in># waking x \<Longrightarrow> wk_step call run release x
    (x\<lparr>sys := wakeup (sys x), waking := waking x - {#t#}\<rparr>)"
| early_push: "\<not> entered x \<Longrightarrow> wk_step call run release x
    (x\<lparr>sys := queueInLoop (threadId (sys x)) f (sys x), pushed := pushed x @ [f], early := True\<rparr>)"
| early_quit: "\<not> entered x \<Longrightarrow> wk_step call run release x (x\<lparr>sys := EventLoop_quit (threadId (sys x)) (sys x)\<rparr>)"
| enter: "\<not> entered x \<Longrightarrow> \<not> looping (sys x) \<Longrightarrow> wk_step call run release x
    (x\<lparr>entered := True, at_phase := Waiting, sys := (sys x)\<lparr>looping := True, quit_flag := False\<rparr>\<rparr>)"
| own_step: "entered x \<Longrightarrow> loop_own call run release (at_phase x, sys x) (p, s) \<Longrightarrow>
    wk_step call run release x (own_turn p s x)"

inductive_cases wk_stepE [consumes 1, case_names other_push other_quit other_wake early_push early_quit enter own_step]:
  "wk_step call run release x y"

text \<open>A loop that has just been constructed; \<open>loop()\<close> has not been called.\<close>

definition wk_initial :: "('u, ('u, 'z) evloop_scheme) config \<Rightarrow> bool" where
  "wk_initial x \<longleftrightarrow> \<not> entered x \<and> at_phase x = Waiting \<and> waking x = {#} \<and> pushed x = [] \<and> called x = []
     \<and> polls x = 0 \<and> \<not> early x \<and> pendingFunctors (sys x) = [] \<and> \<not> callingPendingFunctors (sys x)"

definition crashed :: "('u, 's) config \<Rightarrow> bool" where
  "crashed x \<longleftrightarrow> (\<exists>e. at_phase x = Crashed e)"

definition in_hand :: "'u phase \<Rightarrow> 'u task list" where
  "in_hand p = (case p of Calling ds fs \<Rightarrow> fs | _ \<Rightarrow> [])"

section \<open>What the program does to the queue\<close>

text \<open>
  Callbacks and functors may add to the queue, nothing else; while functors are being called, one that adds leaves
  the eventfd readable, and none makes it unreadable.
\<close>

definition requeue :: "('u, 'z) evloop_scheme \<Rightarrow> ('u, 'z) evloop_scheme \<Rightarrow> bool" where
  "requeue s s' \<longleftrightarrow> threadId s' = threadId s \<and> callingPendingFunctors s' = callingPendingFunctors s
     \<and> prefix (pendingFunctors s) (pendingFunctors s')
     \<and> (callingPendingFunctors s \<and> (0 < eventCount s \<or> pendingFunctors s' \<noteq> pendingFunctors s) \<longrightarrow> 0 < eventCount s')"

definition queue_view :: "('u, 'z) evloop_scheme \<Rightarrow> int \<times> bool \<times> 'u task list \<times> nat" where
  "queue_view s = (threadId s, callingPendingFunctors s, pendingFunctors s, eventCount s)"

lemma requeue_refl [simp, intro]: "requeue s s"
  by (simp add: requeue_def)

lemma requeue_trans: "requeue s s1 \<Longrightarrow> requeue s1 s2 \<Longrightarrow> requeue s s2"
  unfolding requeue_def using prefix_order.trans by metis

lemma queue_viewD:
  assumes "queue_view s' = queue_view s"
  shows "threadId s' = threadId s" "callingPendingFunctors s' = callingPendingFunctors s"
    "pendingFunctors s' = pendingFunctors s" "eventCount s' = eventCount s"
  using assms by (simp_all add: queue_view_def)

lemma requeue_cong: "queue_view x = queue_view s \<Longrightarrow> queue_view y = queue_view s' \<Longrightarrow> requeue x y = requeue s s'"
  by (simp add: requeue_def queue_view_def)

lemma requeue_same: "queue_view s' = queue_view s \<Longrightarrow> requeue s s'"
  by (simp add: requeue_def queue_view_def)

lemma requeue_after: "requeue s s1 \<Longrightarrow> queue_view s2 = queue_view s1 \<Longrightarrow> requeue s s2"
  using requeue_trans requeue_same by blast

lemma requeue_before: "queue_view s1 = queue_view s \<Longrightarrow> requeue s1 s2 \<Longrightarrow> requeue s s2"
  using requeue_trans requeue_same by blast

lemma queueInLoop_requeue: "requeue s (queueInLoop t f s)"
  by (auto simp: requeue_def queueInLoop_def Let_def)

lemma modify_channel_view: "modify_channel a g s = Inr s' \<Longrightarrow> queue_view s' = queue_view (s :: ('u, 'z) evloop_scheme)"
  by (auto simp: modify_channel_def put_channel_def queue_view_def res_simps)

lemma current_time_view: "current_time s = Inr (now, s') \<Longrightarrow> queue_view s' = queue_view s"
  by (auto simp: current_time_def queue_view_def res_simps)

lemma active_view: "getActiveChannels pfds n s = Inr (as, s') \<Longrightarrow> queue_view s' = queue_view (s :: ('u, 'z) evloop_scheme)"
proof (induction pfds n s arbitrary: as s' rule: getActiveChannels.induct)
  case (2 pfd pfds n s)
  show ?case
  proof (cases "0 < n \<and> 0 < sint (pfd_revents pfd)")
    case True
    with "2.prems" obtain ch s1 rest where s1: "channels s (pfd_fd pfd) = Some ch"
      "modify_channel ch (\<lambda>c. c\<lparr>ch_revents := scast (pfd_revents pfd)\<rparr>) s = Inr s1" "getActiveChannels pfds (n - 1) s1 = Inr (rest, s')"
      by (auto simp: res_simps split: option.splits)
    have "queue_view s1 = queue_view s" by (rule modify_channel_view [OF s1(2)])
    with "2.IH"(1) [OF _ _ s1(1-3)] True show ?thesis by simp
  next
    case False
    with 2 show ?thesis by (auto split: if_splits)
  qed
qed simp

lemma poll_view: "Poller_poll outcome s = Inr (as, s') \<Longrightarrow> queue_view s' = queue_view (s :: ('u, 'z) evloop_scheme)"
  by (auto simp: Poller_poll_def Let_def split_beta queue_view_def dest!: active_view split: if_splits)

text \<open>The contract. Reading the eventfd is a callback; no callback runs while functors are being called.\<close>

locale queue_users =
  fixes call :: "callback \<Rightarrow> timestamp \<Rightarrow> ('u, 'z) evloop_scheme \<Rightarrow> ('u, 'z) evloop_scheme res"
    and run :: "'u task \<Rightarrow> ('u, 'z) evloop_scheme \<Rightarrow> ('u, 'z) evloop_scheme res"
    and release :: "'u task list \<Rightarrow> ('u, 'z) evloop_scheme \<Rightarrow> ('u, 'z) evloop_scheme"
  assumes call_requeues: "\<not> callingPendingFunctors s \<Longrightarrow> call cb ts s = Inr s' \<Longrightarrow> requeue s s'"
    and run_requeues: "run f s = Inr s' \<Longrightarrow> requeue s s'"
    and release_leaves: "queue_view (release fs s) = queue_view s"
begin

lemma handled_requeues:
  assumes "handle_active call a s = Inr s'" and calm: "\<not> callingPendingFunctors s"
  shows "requeue s s'"
proof -
  from assms(1) obtain now s1 s2 s3 where s1: "current_time s = Inr (now, s1)"
    "modify_channel a (\<lambda>c. c\<lparr>eventHandling := True\<rparr>) s1 = Inr s2" "foldR (fire call now a) handlers s2 = Inr s3"
    "modify_channel a (\<lambda>c. c\<lparr>eventHandling := False\<rparr>) s3 = Inr s'"
    by (auto simp: handle_active_def handleEvent_def res_simps)
  have v: "queue_view s2 = queue_view s" using current_time_view [OF s1(1)] modify_channel_view [OF s1(2)] by simp
  have "requeue s y" if "fire call now a h x = Inr y" "requeue s x" for h x y
  proof -
    have "\<not> callingPendingFunctors x" using that(2) calm by (simp add: requeue_def)
    then have "requeue x y" using that(1) call_requeues
      by (auto simp: fire_def res_simps split: if_splits option.splits)
    with that(2) show ?thesis by (rule requeue_trans)
  qed
  then have "requeue s s3" using foldR_safe [OF s1(3), where I = "requeue s"] requeue_same [OF v] by blast
  then show ?thesis using modify_channel_view [OF s1(4)] by (rule requeue_after)
qed

section \<open>Invariants\<close>

text \<open>\<open>signalled\<close>: a write to the eventfd has happened, or a thread is about to make one.\<close>

definition signalled :: "('u, ('u, 'z) evloop_scheme) config \<Rightarrow> bool" where
  "signalled x \<longleftrightarrow> 0 < eventCount (sys x) \<or> waking x \<noteq> {#}"

definition wk_inv :: "('u, ('u, 'z) evloop_scheme) config \<Rightarrow> bool" where
  "wk_inv x \<longleftrightarrow>
     (case at_phase x of Calling ds fs \<Rightarrow> callingPendingFunctors (sys x) | Crashed e \<Rightarrow> True | _ \<Rightarrow> \<not> callingPendingFunctors (sys x))
     \<and> (\<not> entered x \<longrightarrow> at_phase x = Waiting \<and> polls x = 0)
     \<and> (case at_phase x of
           Waiting \<Rightarrow> (\<not> early x \<or> 0 < polls x) \<and> pendingFunctors (sys x) \<noteq> [] \<longrightarrow> signalled x
         | Polling \<Rightarrow> ((\<not> early x \<or> 0 < polls x) \<and> pendingFunctors (sys x) \<noteq> [] \<longrightarrow> signalled x) \<and> (quit_flag (sys x) \<longrightarrow> signalled x)
         | Calling ds fs \<Rightarrow> 0 < polls x \<and> (pendingFunctors (sys x) \<noteq> [] \<longrightarrow> signalled x)
         | Handling as \<Rightarrow> 0 < polls x
         | _ \<Rightarrow> True)"

definition fifo_inv :: "('u, ('u, 'z) evloop_scheme) config \<Rightarrow> bool" where
  "fifo_inv x \<longleftrightarrow> prefix (called x) (pushed x) \<and> (crashed x \<or> pushed x = called x @ in_hand (at_phase x) @ pendingFunctors (sys x))"

text \<open>What becomes of the first \<open>n\<close> functors when \<open>poll\<close> had returned \<open>k\<close> times by the time they were queued.\<close>

definition served :: "nat \<Rightarrow> nat \<Rightarrow> ('u, ('u, 'z) evloop_scheme) config \<Rightarrow> bool" where
  "served k n x \<longleftrightarrow> k \<le> polls x \<and> n \<le> length (pushed x)
     \<and> (crashed x \<or> (k + 1 = polls x \<longrightarrow> (case at_phase x of Handling as \<Rightarrow> True
           | Calling ds fs \<Rightarrow> n \<le> length (called x) + length fs | _ \<Rightarrow> n \<le> length (called x))))
     \<and> (k + 2 \<le> polls x \<longrightarrow> n \<le> length (called x))"

lemmas turn_defs = own_turn_def calls_now_def polls_now_def in_hand_def crashed_def

lemma queues_now_same: "pendingFunctors s' = pendingFunctors s \<Longrightarrow> queues_now s s' = []" "pendingFunctors s' = [] \<Longrightarrow> queues_now s s' = []"
  by (simp_all add: queues_now_def)

lemma queues_now_requeue: "requeue s s' \<Longrightarrow> pendingFunctors s' = pendingFunctors s @ queues_now s s'"
  by (auto simp: requeue_def queues_now_def prefix_def)

text \<open>The loop thread's steps, and what each does to the queue.\<close>

lemma own_cases [consumes 1, case_names ended goes_on polled handled taken called released fails]:
  assumes own: "loop_own call run release (p, s) (p', s')"
  obtains (ended) "p = Waiting" "p' = Over" "s' = s\<lparr>looping := False\<rparr>"
  | (goes_on) "p = Waiting" "p' = Polling" "s' = s" "\<not> quit_flag s"
  | (polled) as where "p = Polling" "p' = Handling as" "queue_view s' = queue_view s"
  | (handled) a as where "p = Handling (a # as)" "p' = Handling as" "\<not> callingPendingFunctors s \<Longrightarrow> requeue s s'"
  | (taken) "p = Handling []" "p' = Calling [] (pendingFunctors s)" "take_functors s = (pendingFunctors s, s')"
  | (called) ds f fs where "p = Calling ds (f # fs)" "p' = Calling (ds @ [f]) fs" "requeue s s'"
  | (released) ds where "p = Calling ds []" "p' = Waiting" "queue_view s' = queue_view (s\<lparr>callingPendingFunctors := False\<rparr>)"
  | (fails) e where "p' = Crashed e" "s' = s"
  using own
proof (cases rule: loop_ownE)
  case (polled outcome s0 active s1)
  then show thesis using that(3) poll_view by blast
next
  case (handled a s0 s1 as)
  then show thesis using that(4) handled_requeues by blast
next
  case (taken s0 fs s1)
  then show thesis using that(5) by (auto simp: take_functors_def)
next
  case (called f s0 s1 ds fs)
  then show thesis using that(6) run_requeues by blast
next
  case (released ds s0)
  then show thesis using that(7) release_leaves by blast
qed (use that(1,2,8) in blast)+

text \<open>Nobody else changes the place of the loop thread.\<close>

lemma fifo_inv_step:
  assumes step: "wk_step call run release x y" and inv: "wk_inv x" "fifo_inv x"
  shows "fifo_inv y"
  using step
proof (cases rule: wk_stepE)
  case (own_step p s)
  then have own: "loop_own call run release (at_phase x, sys x) (p, s)" and y: "y = own_turn p s x" by auto
  from own show ?thesis
  proof (cases rule: own_cases)
    case (handled a as)
    then have "requeue (sys x) s" using inv(1) by (simp add: wk_inv_def)
    from queues_now_requeue [OF this] handled inv(2) show ?thesis by (simp add: y fifo_inv_def turn_defs)
  next
    case (called ds f fs)
    from queues_now_requeue [OF called(3)] called inv(2) show ?thesis by (simp add: y fifo_inv_def turn_defs)
  next
    case (fails e)
    with inv(2) show ?thesis by (auto simp: y fifo_inv_def turn_defs queues_now_same split: phase.splits list.splits)
  qed (use inv(2) in \<open>auto simp: y fifo_inv_def turn_defs queues_now_same queue_view_def take_functors_def\<close>)
qed (use inv in \<open>auto simp: fifo_inv_def in_hand_def crashed_def EventLoop_quit_def Let_def wk_inv_def\<close>)

lemma requeue_signals:
  assumes "requeue s s'" "callingPendingFunctors s" "pendingFunctors s' \<noteq> []"
    "pendingFunctors s \<noteq> [] \<Longrightarrow> 0 < eventCount s \<or> w"
  shows "0 < eventCount s' \<or> w"
  using assms unfolding requeue_def by metis

lemma wk_inv_own:
  assumes own: "loop_own call run release (at_phase x, sys x) (p, s)" and inv: "wk_inv x" "entered x"
  shows "wk_inv (own_turn p s x)"
  using own
proof (cases rule: own_cases)
  case (called ds f fs)
  have "pendingFunctors s \<noteq> [] \<Longrightarrow> 0 < eventCount s \<or> waking x \<noteq> {#}"
    by (rule requeue_signals [OF called(3)]) (use inv called in \<open>auto simp: wk_inv_def signalled_def\<close>)
  with called inv show ?thesis by (simp add: wk_inv_def turn_defs signalled_def requeue_def)
next
  case (handled a as)
  then have "requeue (sys x) s" using inv by (simp add: wk_inv_def)
  with handled inv show ?thesis by (simp add: wk_inv_def turn_defs requeue_def)
qed (use inv in \<open>auto simp: wk_inv_def turn_defs signalled_def queue_view_def take_functors_def\<close>)

lemma wk_inv_step:
  assumes step: "wk_step call run release x y" and inv: "wk_inv x"
  shows "wk_inv y"
  using step
proof (cases rule: wk_stepE)
  case (own_step p s)
  then show ?thesis using wk_inv_own inv by blast
next
  case (other_push t f)
  then show ?thesis using inv by (cases "at_phase x") (auto simp: wk_inv_def signalled_def)
next
  case (other_quit t)
  then show ?thesis using inv by (cases "at_phase x") (auto simp: wk_inv_def signalled_def)
next
  case (other_wake t)
  then show ?thesis using inv by (cases "at_phase x") (auto simp: wk_inv_def signalled_def)
next
  case (early_push f)
  then show ?thesis using inv by (auto simp: wk_inv_def signalled_def)
next
  case early_quit
  then show ?thesis using inv by (auto simp: wk_inv_def signalled_def EventLoop_quit_def Let_def isInLoopThread_def)
next
  case enter
  then show ?thesis using inv by (auto simp: wk_inv_def signalled_def)
qed

lemma served_own:
  assumes own: "loop_own call run release (at_phase x, sys x) (p, s)" and inv: "wk_inv x" "fifo_inv x" "served k n x"
  shows "served k n (own_turn p s x)"
  using own
proof (cases rule: own_cases)
  case taken
  with inv(2,3) show ?thesis by (auto simp: served_def fifo_inv_def turn_defs take_functors_def)
qed (use inv(3) in \<open>auto simp: served_def turn_defs\<close>)

lemma served_step:
  assumes step: "wk_step call run release x y" and inv: "wk_inv x" "fifo_inv x" "served k n x"
  shows "served k n y"
  using step
proof (cases rule: wk_stepE)
  case (own_step p s)
  then show ?thesis using served_own inv by blast
next
  case enter
  with inv have "polls x = 0" "at_phase x = Waiting" by (simp_all add: wk_inv_def)
  with enter inv(3) show ?thesis by (simp add: served_def crashed_def)
qed (use inv(3) in \<open>auto simp: served_def crashed_def split: phase.splits\<close>)

section \<open>Runs\<close>

lemma initial_inv: "wk_initial x \<Longrightarrow> wk_inv x \<and> fifo_inv x"
  by (simp add: wk_initial_def wk_inv_def fifo_inv_def in_hand_def)

lemma run_inv: "(wk_step call run release)\<^sup>*\<^sup>* x y \<Longrightarrow> wk_inv x \<and> fifo_inv x \<Longrightarrow> wk_inv y \<and> fifo_inv y"
  by (induction rule: rtranclp_induct) (auto dest: wk_inv_step fifo_inv_step)

lemma run_served:
  "(wk_step call run release)\<^sup>*\<^sup>* x y \<Longrightarrow> wk_inv x \<and> fifo_inv x \<Longrightarrow> served k n x \<Longrightarrow> served k n y"
  by (induction rule: rtranclp_induct) (auto dest: served_step run_inv)

lemma pushed_grows: "(wk_step call run release)\<^sup>*\<^sup>* x y \<Longrightarrow> prefix (pushed x) (pushed y)"
proof (induction rule: rtranclp_induct)
  case (step y z)
  from step.hyps(2) have "prefix (pushed y) (pushed z)" by (cases rule: wk_stepE) (auto simp: own_turn_def)
  with step.IH show ?case by (rule prefix_order.trans)
qed simp

lemma called_in_time:
  assumes init: "wk_initial x0" and x: "(wk_step call run release)\<^sup>*\<^sup>* x0 x" and y: "(wk_step call run release)\<^sup>*\<^sup>* x y"
    and late: "polls x + 2 \<le> polls y \<or> polls x < polls y \<and> at_phase y \<in> {Waiting, Polling, Over}"
  shows "prefix (pushed x) (called y)"
proof -
  have inv: "wk_inv x \<and> fifo_inv x" using run_inv [OF x initial_inv [OF init]] .
  have "served (polls x) (length (pushed x)) y" by (rule run_served [OF y inv]) (simp add: served_def)
  with late have "length (pushed x) \<le> length (called y)" by (auto simp: served_def crashed_def)
  moreover have "prefix (called y) (pushed y)" using run_inv [OF y inv] by (simp add: fifo_inv_def)
  ultimately show ?thesis using pushed_grows [OF y] by (metis prefix_length_prefix)
qed

lemma in_order:
  assumes "wk_initial x" and "(wk_step call run release)\<^sup>*\<^sup>* x y"
  shows "prefix (called y) (pushed y)"
    "\<not> crashed y \<Longrightarrow> pushed y = called y @ in_hand (at_phase y) @ pendingFunctors (sys y)"
  using run_inv [OF assms(2) initial_inv [OF assms(1)]] by (simp_all add: fifo_inv_def)

lemma signalled_when_polling:
  assumes "wk_initial x" and "(wk_step call run release)\<^sup>*\<^sup>* x y" and "at_phase y = Polling"
    and "(\<not> early y \<or> 0 < polls y) \<and> pendingFunctors (sys y) \<noteq> [] \<or> quit_flag (sys y)"
  shows "0 < eventCount (sys y) \<or> waking y \<noteq> {#}"
  using run_inv [OF assms(2) initial_inv [OF assms(1)]] assms(3,4) by (auto simp: wk_inv_def signalled_def)

end

lemma turn_ready:
  assumes "entered y" "\<not> crashed y" "at_phase y \<noteq> Over"
  shows "\<exists>p s. wk_step call run release y (own_turn p s y)"
proof -
  obtain p s where "loop_own call run release (at_phase y, sys y) (p, s)"
    using own_ready [of "at_phase y" call run release "sys y"] assms by (auto simp: crashed_def)
  then show ?thesis using own_step assms(1) by blast
qed

text \<open>Once the loop has ended no functor is called any more: what was queued during the last
  round, or comes later, stays in the queue.\<close>

lemma stopped_is_final:
  assumes "(wk_step call run release)\<^sup>*\<^sup>* x y" and "entered x" and "at_phase x = Over"
  shows "entered y \<and> at_phase y = Over \<and> called y = called x \<and> prefix (pendingFunctors (sys x)) (pendingFunctors (sys y))"
  using assms
proof (induction rule: rtranclp_induct)
  case (step y z)
  then have y: "entered y" "at_phase y = Over" "called y = called x" "prefix (pendingFunctors (sys x)) (pendingFunctors (sys y))" by simp_all
  from step.hyps(2) y(1,2) have "entered z \<and> at_phase z = Over \<and> called z = called y
      \<and> prefix (pendingFunctors (sys y)) (pendingFunctors (sys z))"
    by (cases rule: wk_stepE) (auto elim: loop_ownE)
  with y show ?case by auto
qed simp

section \<open>Before loop()\<close>

text \<open>Before \<open>loop()\<close> the rule fails: a functor that the loop's own thread queues then is not
  signalled, so the loop enters \<open>poll\<close> with work in its queue and nothing to wake it but the
  10 s timeout.\<close>

lemma early_functor_not_signalled:
  assumes "wk_initial x" and "eventCount (sys x) = 0" and "\<not> looping (sys x)"
  shows "\<exists>y. (wk_step call run release)\<^sup>*\<^sup>* x y \<and> at_phase y = Polling \<and> pendingFunctors (sys y) = [f]
    \<and> eventCount (sys y) = 0 \<and> waking y = {#}"
proof -
  let ?y = "x\<lparr>sys := queueInLoop (threadId (sys x)) f (sys x), pushed := pushed x @ [f], early := True\<rparr>"
  let ?z = "?y\<lparr>entered := True, at_phase := Waiting, sys := (sys ?y)\<lparr>looping := True, quit_flag := False\<rparr>\<rparr>"
  let ?w = "own_turn Polling (sys ?z) ?z"
  have "wk_step call run release x ?y" using assms(1) by (intro early_push) (simp add: wk_initial_def)
  moreover have "wk_step call run release ?y ?z" using assms by (intro enter) (simp_all add: wk_initial_def)
  moreover have "wk_step call run release ?z ?w" by (rule own_step) (simp, simp add: loop_own.goes_on)
  ultimately have "(wk_step call run release)\<^sup>*\<^sup>* x ?w" by (meson converse_rtranclp_into_rtranclp rtranclp.rtrancl_refl)
  moreover have "at_phase ?w = Polling \<and> pendingFunctors (sys ?w) = [f] \<and> eventCount (sys ?w) = 0 \<and> waking ?w = {#}"
    using assms by (simp add: own_turn_def wk_initial_def queueInLoop_def push_functor_def Let_def isInLoopThread_def)
  ultimately show ?thesis by blast
qed

text \<open>A \<open>quit()\<close> from another thread that comes before \<open>loop()\<close> is lost: \<open>loop()\<close> clears the flag
  and goes on to poll.\<close>

lemma early_quit_lost:
  assumes "\<not> looping s" and "t \<noteq> threadId s"
  shows "okR (\<lambda>(ended, s'). \<not> ended \<and> \<not> quit_flag s' \<and> looping s')
    (EventLoop_loop call run release (threadId s) [] (EventLoop_quit t s))"
  using assms
  by (simp add: EventLoop_loop_def EventLoop_quit_def Let_def isInLoopThread_def assertInLoopThread_def)

end
