(* ===== verification/ServerQueue.thy ===== *)
theory ServerQueue
  imports QueuedWork ChannelEnds
begin

text \<open>
  The queue of functors in the server: whatever the library does with channels, timers and connections, it only adds
  to the queue, and signals what it adds while functors are being called. So every functor is called in its turn, and
  no wakeup is lost, if the functions of the user keep to this too; those of \<open>main.cpp\<close> do.
\<close>

section \<open>Operations that leave the queue alone\<close>

lemma set_interest_view:
  fixes s s' :: "('u, 'z) world_scheme"
  shows "Channel_set_interest t oper a s = Inr s' \<Longrightarrow> queue_view s' = queue_view s"
  by (auto simp: Channel_set_interest_def EventLoop_updateChannel_def Poller_updateChannel_def heap_ops queue_view_def
      split: option.splits if_splits)

lemma remove_view:
  fixes s s' :: "('u, 'z) world_scheme"
  shows "EventLoop_removeChannel t a s = Inr s' \<Longrightarrow> queue_view s' = queue_view s"
  by (auto simp: EventLoop_removeChannel_def Poller_removeChannel_def heap_ops queue_view_def
      split: option.splits if_splits)

lemma view_same [simp]:
  fixes s :: "('u, 'z) world_scheme"
  shows "queue_view (snd (sys_write fd data s)) = queue_view s" "queue_view (sys_shutdown_write fd s) = queue_view s"
    "queue_view (TcpConnection_dtor k s) = queue_view s" "queue_view (release_tasks fs s) = queue_view s"
    "queue_view (snd (new_address s)) = queue_view s" "queue_view (readTimerfd s) = queue_view s"
    "queue_view (timerfd_settime ts s) = queue_view s" "queue_view (put_conn k c s) = queue_view s"
    "queue_view (put_channel a ch s) = queue_view s"
proof -
  show dtor: "queue_view (TcpConnection_dtor k s) = queue_view s" for k and s :: "('u, 'z) world_scheme"
    by (simp add: TcpConnection_dtor_def queue_view_def split: option.split)
  show "queue_view (release_tasks fs s) = queue_view s"
    unfolding release_tasks_def by (induction fs arbitrary: s) (auto simp: release_task_def dtor split: task.split)
qed (simp_all add: queue_view_def sys_write_def sys_shutdown_write_def new_address_def readTimerfd_def timerfd_settime_def
    put_conn_def put_channel_def Let_def)

lemma insert_view:
  fixes s s' :: "('u, 'z) world_scheme"
  shows "TimerQueue_insert a s = Inr (b, s') \<Longrightarrow> queue_view s' = queue_view s"
  by (auto simp: TimerQueue_insert_def res_simps Let_def split_beta queue_view_def)

lemma resetTimerfd_view:
  fixes s s' :: "('u, 'z) world_scheme"
  shows "resetTimerfd when s = Inr s' \<Longrightarrow> queue_view s' = queue_view s"
  by (auto simp: resetTimerfd_def howMuchTimeFromNow_def res_simps Let_def dest: current_time_view split: if_splits)

lemma getExpired_view:
  fixes s s' :: "('u, 'z) world_scheme"
  shows "getExpired now s = Inr (es, s') \<Longrightarrow> queue_view s' = queue_view s"
  by (auto simp: getExpired_def res_simps Let_def queue_view_def split: prod.splits)

lemma rearm_view:
  fixes s s' :: "('u, 'z) world_scheme"
  assumes "rearm now e s = Inr s'"
  shows "queue_view s' = queue_view s"
proof -
  have "queue_view (s\<lparr>timer_heap := h\<rparr>) = queue_view s" for h by (simp add: queue_view_def)
  with assms show ?thesis by (auto simp: rearm_def res_simps dest!: insert_view split: if_splits)
qed

lemma reset_view:
  fixes s s' :: "('u, 'z) world_scheme"
  assumes "TimerQueue_reset es now s = Inr s'"
  shows "queue_view s' = queue_view s"
proof -
  have "foldR (rearm now) es s = Inr s1 \<Longrightarrow> queue_view s1 = queue_view s" for s1
    by (rule foldR_safe [where I = "\<lambda>x. queue_view x = queue_view s"]) (auto dest: rearm_view)
  with assms show ?thesis by (auto simp: TimerQueue_reset_def res_simps dest: resetTimerfd_view split: if_splits)
qed

lemma captured_view:
  fixes s s' :: "('u, 'z) world_scheme"
  shows "add_captured_timer t v s = Inr s' \<Longrightarrow> queue_view s' = queue_view s"
  by (auto simp: add_captured_timer_def addTimerInLoop_def res_simps dest!: insert_view resetTimerfd_view split: option.splits if_splits)

lemma setState_view: "setState st k s = Inr s' \<Longrightarrow> queue_view s' = queue_view s"
  by (auto simp: setState_def res_simps)

lemma conn_interest_view: "conn_interest t oper k s = Inr s' \<Longrightarrow> queue_view s' = queue_view s"
  by (auto simp: conn_interest_def res_simps dest: set_interest_view)

lemma shutdownInLoop_view: "shutdownInLoop t k s = Inr s' \<Longrightarrow> queue_view s' = queue_view s"
  by (auto simp: shutdownInLoop_def res_simps split: if_splits)

lemma sendInLoop_view:
  fixes s :: "('u, 'z) world_scheme"
  assumes "sendInLoop t message k s = Inr s'"
  shows "queue_view s' = queue_view s"
  using assms unfolding sendInLoop_def
proof (elim bindR_InrE)
  fix c :: "'u tcpconn" and ch
  let ?w = "if \<not> isWriting ch \<and> readableBytes (c_output c) = 0
        then let (n, s1) = sys_write (ch_fd ch) message s in (if 0 \<le> n then n else 0, s1)
        else (0, s)"
  obtain nw s1 where w: "?w = (nw, s1)" by fastforce
  then have h: "queue_view s1 = queue_view s" using view_same(1) [of "ch_fd ch" message s] by (auto simp: split_beta split: if_splits)
  assume "(let (nwrote, s1) = ?w in
     bindR (assertR ''nwrote >= 0'' (0 \<le> nwrote)) (\<lambda>_.
     if nat nwrote < length message
     then bindR (append_bytes (drop (nat nwrote) message) (c_output c)) (\<lambda>b.
          let s2 = put_conn k (c\<lparr>c_output := b\<rparr>) s1 in
          if \<not> isWriting ch then conn_interest t EnableWriting k s2 else Inr s2)
     else Inr s1)) = Inr s'"
  from this [unfolded w] h show ?thesis
    by (auto simp: res_simps Let_def dest!: conn_interest_view split: if_splits)
qed

section \<open>Operations that may queue\<close>

lemma send_requeue: "TcpConnection_send t v message k s = Inr s' \<Longrightarrow> requeue s s'"
  by (auto simp: TcpConnection_send_def runInLoop_def res_simps queueInLoop_requeue intro: requeue_same dest: sendInLoop_view split: if_splits)

lemma removeConnection_requeue:
  assumes "removeConnection t k s = Inr s'"
  shows "requeue s s'"
proof -
  from assms obtain n where s': "s' = queueInLoop t (ConnectDestroyed k) (s\<lparr>connections := (connections s)(n := None)\<rparr>)"
    by (auto simp: removeConnection_def res_simps Let_def)
  have v: "queue_view (s\<lparr>connections := x\<rparr>) = queue_view s" for x by (simp add: queue_view_def)
  show ?thesis unfolding s' by (rule requeue_before [OF v queueInLoop_requeue])
qed

lemma handleClose_requeue:
  fixes s :: "('u, 'z) world_scheme"
  assumes "handleClose t k s = Inr s'"
  shows "requeue s s'"
  using assms unfolding handleClose_def
proof (elim bindR_InrE)
  fix c :: "'u tcpconn" and s1
  assume "conn_interest t DisableAll k s = Inr s1" and fin: "(if c_closeCallback c then removeConnection t k s1 else bad_function_call) = Inr s'"
  from this(1) have "queue_view s1 = queue_view s" by (rule conn_interest_view)
  moreover have "requeue s1 s'" using fin by (auto simp: bad_function_call_def dest: removeConnection_requeue split: if_splits)
  ultimately show ?thesis by (rule requeue_before)
qed

section \<open>What the users keep\<close>

locale requeuing_users =
  fixes P :: "('u, 'z) program"
  assumes user_requeues: "run_user P u s = Inr s' \<Longrightarrow> requeue s s'"
    and connection_requeues: "on_connection P u k s = Inr s' \<Longrightarrow> requeue s s'"
    and message_requeues: "on_message P u k ts s = Inr s' \<Longrightarrow> requeue s s'"
begin

lemma callbacks:
  "connectionCallback P k s = Inr s' \<Longrightarrow> requeue s s'"
  "messageCallback P k ts s = Inr s' \<Longrightarrow> requeue s s'"
  using connection_requeues message_requeues
  by (fastforce simp: connectionCallback_def messageCallback_def bad_function_call_def res_simps split: option.splits)+

lemma established:
  assumes "connectEstablished P t k s = Inr s'"
  shows "requeue s s'"
  using assms unfolding connectEstablished_def
proof (elim bindR_InrE)
  fix s1 s2
  assume "setState kConnected k s = Inr s1" "conn_interest t EnableReading k s1 = Inr s2" "connectionCallback P k s2 = Inr s'"
  from callbacks(1) [OF this(3)] conn_interest_view [OF this(2)] setState_view [OF this(1)]
  show ?thesis by (metis requeue_before)
qed

lemma destroyed:
  assumes "connectDestroyed P t k s = Inr s'"
  shows "requeue s s'"
  using assms unfolding connectDestroyed_def
proof (elim bindR_InrE)
  fix s1 s2 s3 and c3 :: "'u tcpconn"
  assume "setState kDisconnected k s = Inr s1" "conn_interest t DisableAll k s1 = Inr s2" "connectionCallback P k s2 = Inr s3"
    "EventLoop_removeChannel t (c_channel c3) s3 = Inr s'"
  from remove_view [OF this(4)] callbacks(1) [OF this(3)] conn_interest_view [OF this(2)] setState_view [OF this(1)]
  show ?thesis by (metis requeue_before requeue_after)
qed

lemma new_connection:
  assumes "newConnection P t f peer s = Inr s'"
  shows "requeue s s'"
  using assms unfolding newConnection_def Let_def split_beta
proof (elim bindR_InrE)
  fix s1 s5 :: "('u, 'z) world_scheme" and c :: "'u tcpconn" and addr
  let ?s4 = "snd (new_address (snd (new_address (s1\<lparr>local_addrs := \<lambda>i. local_addrs s1 (Suc i)\<rparr>))))"
  let ?nm = "conn_name (server_name s) (nextConnId s)"
  let ?k = "fst (new_address (s1\<lparr>local_addrs := \<lambda>i. local_addrs s1 (Suc i)\<rparr>))"
  let ?a = "fst (new_address (snd (new_address (s1\<lparr>local_addrs := \<lambda>i. local_addrs s1 (Suc i)\<rparr>))))"
  let ?s6 = "s5\<lparr>connections := (connections s5)(?nm \<mapsto> ?k)\<rparr>"
  assume s1: "(if nextConnId s < 2 ^ 31 - 1 then Inr (s\<lparr>nextConnId := nextConnId s + 1\<rparr>)
      else Inl (Undefined ''signed 32-bit overflow'')) = Inr s1"
    and s5: "TcpConnection_ctor ?k ?a ?nm f addr peer ?s4 = Inr s5"
    and fin: "connectEstablished P t ?k (put_conn ?k (c\<lparr>c_connectionCallback := fst (server_callbacks ?s6),
        c_messageCallback := snd (server_callbacks ?s6), c_closeCallback := True\<rparr>) ?s6) = Inr s'"
  have "queue_view ?s6 = queue_view s5" by (simp add: queue_view_def)
  also have "queue_view s5 = queue_view ?s4" using s5 by (auto simp: TcpConnection_ctor_def res_simps Let_def split: if_splits)
  also have "queue_view ?s4 = queue_view s1" by (simp add: queue_view_def new_address_def)
  also have "queue_view s1 = queue_view s" using s1 by (auto simp: queue_view_def split: if_splits)
  finally have v: "queue_view (put_conn ?k d ?s6) = queue_view s" for d by simp
  show ?thesis by (rule requeue_before [OF v established [OF fin]])
qed

lemma accepted:
  assumes "Acceptor_handleRead P t s = Inr s'"
  shows "requeue s s'"
  using assms unfolding Acceptor_handleRead_def Let_def
proof (elim bindR_InrE)
  fix r :: "int \<times> sockaddr_in"
  let ?s1 = "s\<lparr>accepts := \<lambda>i. accepts s (Suc i)\<rparr>"
  obtain f peer where r: "r = (f, peer)" by fastforce
  let ?s2 = "?s1\<lparr>open_fds := insert f (open_fds ?s1)\<rparr>"
  assume "(case r of (connfd, peerAddr1) \<Rightarrow>
     if 0 \<le> connfd
     then if newConnectionCallback (?s1\<lparr>open_fds := insert connfd (open_fds ?s1)\<rparr>)
          then newConnection P t connfd peerAddr1 (?s1\<lparr>open_fds := insert connfd (open_fds ?s1)\<rparr>)
          else bindR (sockets_close (Success ())) (\<lambda>_. Inr (?s1\<lparr>open_fds := insert connfd (open_fds ?s1),
              open_fds := open_fds (?s1\<lparr>open_fds := insert connfd (open_fds ?s1)\<rparr>) - {connfd}\<rparr>))
     else Inr ?s1) = Inr s'"
  then have "newConnection P t f peer ?s2 = Inr s' \<or> queue_view s' = queue_view s"
    by (auto simp: r res_simps queue_view_def split: if_splits)
  moreover have "queue_view ?s2 = queue_view s" by (simp add: queue_view_def)
  ultimately show ?thesis using new_connection requeue_before requeue_same by blast
qed

lemma read:
  assumes "TcpConnection_handleRead P t k ts s = Inr s'"
  shows "requeue s s'"
proof -
  from assms obtain n b and c :: "'u tcpconn" where r:
    "(let s1 = put_conn k (c\<lparr>c_input := b\<rparr>) (s\<lparr>reads := \<lambda>i. reads s (Suc i)\<rparr>) in
     if 0 < (n::int) then messageCallback P k ts s1
     else if n = 0 then handleClose t k s1
     else handleError k s1) = Inr s'"
    unfolding TcpConnection_handleRead_def by (elim bindR_InrE) (auto split: prod.splits)
  let ?s1 = "put_conn k (c\<lparr>c_input := b\<rparr>) (s\<lparr>reads := \<lambda>i. reads s (Suc i)\<rparr>)"
  have v: "queue_view ?s1 = queue_view s" by simp (simp add: queue_view_def)
  from r have "messageCallback P k ts ?s1 = Inr s' \<or> handleClose t k ?s1 = Inr s' \<or> s' = ?s1"
    by (auto simp: Let_def handleError_def res_simps split: if_splits)
  then have "requeue ?s1 s'" using callbacks(2) handleClose_requeue requeue_refl by blast
  with v show ?thesis by (rule requeue_before)
qed

lemma timers_run:
  assumes "TimerQueue_handleRead (run_user P) t s = Inr s'"
  shows "requeue s s'"
proof -
  from assms obtain now s1 es s2 s3 where s1: "current_time s = Inr (now, s1)" "getExpired now (readTimerfd s1) = Inr (es, s2)"
    "foldR (run_timer (run_user P)) es s2 = Inr s3" "TimerQueue_reset es now s3 = Inr s'"
    by (auto simp: TimerQueue_handleRead_def res_simps)
  have v: "queue_view s2 = queue_view s" using current_time_view [OF s1(1)] getExpired_view [OF s1(2)] by simp
  have "requeue x y" if "run_timer (run_user P) e x = Inr y" for e x y
    using that user_requeues by (auto simp: run_timer_def res_simps)
  then have "requeue s2 s3" using foldR_safe [OF s1(3), where I = "requeue s2"] requeue_trans by blast
  with v reset_view [OF s1(4)] show ?thesis by (metis requeue_before requeue_after)
qed

lemma callback_requeues:
  assumes "call_back P cb ts s = Inr s'" and calm: "\<not> callingPendingFunctors s"
  shows "requeue s s'"
proof (cases cb)
  case WakeupRead
  with assms show ?thesis by (auto simp: call_back_def EventLoop_handleRead_def requeue_def)
qed (use assms timers_run accepted read in \<open>simp_all add: call_back_def Let_def\<close>)

lemma task_requeues:
  assumes "run_task P r f s = Inr s'"
  shows "requeue s s'"
proof (cases f)
  case (AddTimerInLoop v)
  with assms show ?thesis by (auto simp: run_task_def Let_def intro: requeue_same dest: captured_view)
next
  case (ShutdownInLoop k)
  with assms show ?thesis by (auto simp: run_task_def Let_def intro: requeue_same dest: shutdownInLoop_view)
next
  case (SendInLoop k v)
  with assms show ?thesis
    by (auto simp: run_task_def Let_def send_captured_def intro: requeue_same dest: sendInLoop_view split: option.splits)
next
  case AcceptorListen
  with assms have "Channel_set_interest (threadId s) EnableReading (acceptChannel s) (s\<lparr>listenning := True\<rparr>) = Inr s'"
    by (auto simp: run_task_def Let_def Acceptor_listen_def res_simps)
  from set_interest_view [OF this] show ?thesis by (intro requeue_same) (simp add: queue_view_def)
qed (use assms user_requeues destroyed in \<open>simp_all add: run_task_def Let_def\<close>)

end

text \<open>So the library's loop has what the queue relies on.\<close>

sublocale requeuing_users \<subseteq> queue_users "call_back P" "run_task P r" release_tasks for r
  by unfold_locales (simp_all add: callback_requeues task_requeues)

context requeuing_users begin

lemma queue: "queue_users (call_back P) (run_task P r) release_tasks"
  by unfold_locales

end

interpretation main_requeues: requeuing_users "main_code m1 m2" for m1 m2 :: string
proof unfold_locales
  fix u :: main_fun and k ts and s s' :: "(main_fun, 'a) world_scheme"
  show "requeue s s'" if "run_user (main_code m1 m2) u s = Inr s'" using that by (simp add: main_code_def)
  show "requeue s s'" if "on_connection (main_code m1 m2) u k s = Inr s'"
    using that by (auto simp: main_code_def onConnection_def res_simps dest!: send_requeue intro: requeue_trans split: if_splits)
  show "requeue s s'" if "on_message (main_code m1 m2) u k ts s = Inr s'"
    using that by (auto simp: main_code_def onMessage_def res_simps intro: requeue_same)
qed

section \<open>Properties\<close>

text \<open>A run of a server: another thread queues a functor, the loop starts, its first \<open>poll\<close> returns with nothing, the
  functor is called, the loop is back at its head.\<close>

definition queue_start :: "(main_fun, main_fun world) config" where
  "queue_start = \<lparr>entered = False, at_phase = Waiting, sys = demo_world\<lparr>looping := False\<rparr>, waking = {#}, pushed = [], called = [],
     polls = 0, early = False\<rparr>"

definition queue_pushed :: "(main_fun, main_fun world) config" where
  "queue_pushed = queue_start\<lparr>sys := push_functor (UserTask OnConnection) (sys queue_start), waking := add_mset 9 (waking queue_start),
     pushed := pushed queue_start @ [UserTask OnConnection]\<rparr>"

definition queue_polling :: "(main_fun, main_fun world) config" where
  "queue_polling = (let x = queue_pushed\<lparr>entered := True, at_phase := Waiting, sys := (sys queue_pushed)\<lparr>looping := True, quit_flag := False\<rparr>\<rparr>
     in own_turn Polling (sys x) x)"

definition queue_served :: "(main_fun, main_fun world) config" where
  "queue_served = (let x = own_turn (Handling []) (sys queue_polling) queue_polling;
       y = own_turn (Calling [] [UserTask OnConnection]) (snd (take_functors (sys x))) x;
       z = own_turn (Calling [UserTask OnConnection] []) (sys y) y
     in own_turn Waiting (release_tasks [UserTask OnConnection] ((sys z)\<lparr>callingPendingFunctors := False\<rparr>)) z)"

abbreviation main_queue :: "(main_fun, main_fun world) config \<Rightarrow> (main_fun, main_fun world) config \<Rightarrow> bool" where
  "main_queue \<equiv> wk_step (call_back (main_code [] [])) (run_task (main_code [] []) (Success ())) release_tasks"

lemma queue_demo_pushed: "main_queue\<^sup>*\<^sup>* queue_start queue_pushed"
  unfolding queue_pushed_def by (rule r_into_rtranclp, rule other_push) (simp add: queue_start_def demo_world_def)

lemma queue_demo_polling: "main_queue\<^sup>*\<^sup>* queue_pushed queue_polling"
proof -
  let ?x = "queue_pushed\<lparr>entered := True, at_phase := Waiting, sys := (sys queue_pushed)\<lparr>looping := True, quit_flag := False\<rparr>\<rparr>"
  have "main_queue queue_pushed ?x" by (rule enter) (simp_all add: queue_pushed_def queue_start_def)
  moreover have "main_queue ?x (own_turn Polling (sys ?x) ?x)" by (rule own_step) (simp, simp add: loop_own.goes_on)
  ultimately show ?thesis by (simp add: queue_polling_def Let_def)
qed

lemma queue_demo_served: "main_queue\<^sup>*\<^sup>* queue_polling queue_served"
proof -
  let ?x = "own_turn (Handling []) (sys queue_polling) queue_polling"
  let ?y = "own_turn (Calling [] [UserTask OnConnection]) (snd (take_functors (sys ?x))) ?x"
  let ?z = "own_turn (Calling [UserTask OnConnection] []) (sys ?y) ?y"
  let ?w = "own_turn Waiting (release_tasks [UserTask OnConnection] ((sys ?z)\<lparr>callingPendingFunctors := False\<rparr>)) ?z"
  note defs = queue_polling_def queue_pushed_def queue_start_def Let_def own_turn_def
  have "Poller_poll PollFails (sys queue_polling) = Inr ([], sys queue_polling)" by (simp add: Poller_poll_def)
  from loop_own.polled [OF this] have "main_queue queue_polling ?x" by (intro own_step) (simp_all add: defs)
  moreover have "main_queue ?x ?y"
  proof (rule own_step)
    have "take_functors (sys ?x) = ([UserTask OnConnection], snd (take_functors (sys ?x)))"
      by (simp add: take_functors_def defs) (simp add: demo_world_def)
    from loop_own.taken [OF this] show "loop_own (call_back (main_code [] [])) (run_task (main_code [] []) (Success ())) release_tasks
        (at_phase ?x, sys ?x) (Calling [] [UserTask OnConnection], snd (take_functors (sys ?x)))" by (simp add: own_turn_def)
  qed (simp add: defs)
  moreover have "main_queue ?y ?z"
  proof (rule own_step)
    have "run_task (main_code [] []) (Success ()) (UserTask OnConnection) (sys ?y) = Inr (sys ?y)"
      by (simp add: run_task_def main_code_def)
    from loop_own.called [where run = "run_task (main_code [] []) (Success ())", OF this, of "call_back (main_code [] [])" release_tasks "[]" "[]"]
    show "loop_own (call_back (main_code [] [])) (run_task (main_code [] []) (Success ())) release_tasks
        (at_phase ?y, sys ?y) (Calling [UserTask OnConnection] [], sys ?y)" by (simp add: own_turn_def)
  qed (simp add: defs)
  moreover have "main_queue ?z ?w" by (rule own_step) (simp add: defs, simp add: own_turn_def loop_own.released)
  ultimately have "main_queue\<^sup>*\<^sup>* queue_polling ?w" by (meson converse_rtranclp_into_rtranclp rtranclp.rtrancl_refl)
  then show ?thesis by (simp add: queue_served_def Let_def)
qed

lemma queue_start_initial: "wk_initial queue_start"
  by (simp add: wk_initial_def queue_start_def) (simp add: demo_world_def)

text \<open>C10. Functors run exactly once and in the order of their \<open>queueInLoop\<close> calls, whatever threads made them and
  whatever else these did. At any time those that have been called are, in order, the first of all that were ever
  queued; those taken out and not called yet, and then those still queued, are the others. Every functor that is
  queued by some moment has been called when the first round after the next return of \<open>poll\<close> is over, at the latest
  when \<open>poll\<close> has returned twice. Until the loop ends, or the program by a fault, the loop thread can always go on.
  When the loop has ended none is called any more: the functors queued after the last swap never run.\<close>

theorem functors_in_order:
  assumes user: "\<And>u s s'. run_user P u s = Inr s' \<Longrightarrow> requeue s s'"
    and up: "\<And>u k s s'. on_connection P u k s = Inr s' \<Longrightarrow> requeue s s'"
    and message: "\<And>u k ts s s'. on_message P u k ts s = Inr s' \<Longrightarrow> requeue s s'"
    and init: "wk_initial x0" and x: "(wk_step (call_back P) (run_task P r) release_tasks)\<^sup>*\<^sup>* x0 x"
    and y: "(wk_step (call_back P) (run_task P r) release_tasks)\<^sup>*\<^sup>* x y"
  shows "prefix (called y) (pushed y)
    \<and> (\<not> crashed y \<longrightarrow> pushed y = called y @ (case at_phase y of Calling ds fs \<Rightarrow> fs | _ \<Rightarrow> []) @ pendingFunctors (sys y))
    \<and> (polls x + 2 \<le> polls y \<or> polls x < polls y \<and> at_phase y \<in> {Waiting, Polling, Over} \<longrightarrow> prefix (pushed x) (called y))
    \<and> (entered y \<and> \<not> crashed y \<and> at_phase y \<noteq> Over
        \<longrightarrow> (\<exists>p s. wk_step (call_back P) (run_task P r) release_tasks y (own_turn p s y)))
    \<and> (entered x \<and> at_phase x = Over \<longrightarrow> called y = called x)"
proof -
  have users: "queue_users (call_back P) (run_task P r) release_tasks"
    by (rule requeuing_users.queue [OF requeuing_users.intro [OF user up message]])
  have run: "(wk_step (call_back P) (run_task P r) release_tasks)\<^sup>*\<^sup>* x0 y" using x y by (rule rtranclp_trans)
  note order = queue_users.in_order [OF users init run]
  note late = queue_users.called_in_time [OF users init x y]
  have over: "entered x \<and> at_phase x = Over \<Longrightarrow> called y = called x" using stopped_is_final [OF y] by simp
  show ?thesis
    using order late turn_ready [of y "call_back P" "run_task P r" release_tasks] over unfolding in_hand_def by blast
qed

lemma functors_in_order_witness:
  "prefix [UserTask OnConnection] (called queue_served)"
proof -
  have "prefix (pushed queue_pushed) (called queue_served)"
    using functors_in_order [where P = "main_code [] []" and r = "Success ()", OF main_requeues.user_requeues
        main_requeues.connection_requeues main_requeues.message_requeues queue_start_initial queue_demo_pushed
        rtranclp_trans [OF queue_demo_polling queue_demo_served]]
    by (simp add: queue_served_def queue_polling_def queue_pushed_def queue_start_def own_turn_def polls_now_def Let_def)
  then show ?thesis by (simp add: queue_pushed_def queue_start_def)
qed



text \<open>The exception is real.\<close>

lemma early_functor_not_signalled_witness:
  "\<exists>y. main_queue\<^sup>*\<^sup>* queue_start y \<and> at_phase y = Polling \<and> pendingFunctors (sys y) = [AcceptorListen]
    \<and> eventCount (sys y) = 0 \<and> waking y = {#}"
  by (rule early_functor_not_signalled [OF queue_start_initial]) (simp_all add: queue_start_def, simp add: demo_world_def)

end
