(* ===== verification/MainEnd.thy ===== *)
theory MainEnd
  imports ChannelEnds SharedLoop
begin

text \<open>
  The end of the program: another thread asks the loop to quit, the loop returns, and \<open>main\<close> destroys the server and
  the loop. No assertion of the destructors fails, every connection is destroyed, and of the descriptors that the
  program opened only the eventfd is left.
\<close>

section \<open>The loop comes to its end\<close>

context quiet_users begin

lemma own_idle:
  assumes "loop_own (call_back P) (run_task P r) release_tasks (p, s) (p', s')" and idle: "handling s = {}"
  shows "handling s' = {}"
  using assms(1)
proof (cases rule: loop_ownE)
  case (polled outcome s0 active s1)
  then show ?thesis using poll_handling [of outcome s active s'] idle by simp
next
  case (handled a s0 s1 as)
  then show ?thesis using handle_active_handling [of "call_back P" a s s'] callback_quiet idle by blast
next
  case (called f s0 s1 ds fs)
  then show ?thesis using task_quiet [of r f s s'] idle by simp
qed (use idle in \<open>auto simp: handling_def take_functors_def\<close>)

lemma step_idle:
  assumes "loop_step (call_back P) (run_task P r) release_tasks (p, s) (p', s')" and idle: "handling s = {}"
  shows "handling s' = {}"
  using assms(1) by (cases rule: loop_stepE) (use idle own_idle in \<open>auto simp: handling_def\<close>)

end

lemma step_over:
  assumes "loop_step call run release (p, s) (p', s')" and "p = Over \<longrightarrow> \<not> looping s"
  shows "p' = Over \<longrightarrow> \<not> looping s'"
  using assms(1) by (cases rule: loop_stepE) (use assms(2) in \<open>auto simp: push_functor_def wakeup_def elim: loop_ownE\<close>)

lemma run_over:
  assumes "(loop_step call run release)\<^sup>*\<^sup>* (Waiting, s) (Over, s')"
  shows "\<not> looping s'"
proof -
  have "(loop_step call run release)\<^sup>*\<^sup>* (Waiting, s) (p, x) \<Longrightarrow> p = Over \<longrightarrow> \<not> looping x" for p x
  proof (induction "(p, x)" arbitrary: p x rule: rtranclp_induct)
    case (step y)
    then show ?case using step_over by (cases y) blast
  qed simp
  from this [OF assms] show ?thesis by simp
qed

context quiet_users begin

lemma run_idle:
  assumes "(loop_step (call_back P) (run_task P r) release_tasks)\<^sup>*\<^sup>* (Waiting, s) (p, s')" and "handling s = {}"
  shows "handling s' = {}"
  using assms
proof (induction "(p, s')" arbitrary: p s' rule: rtranclp_induct)
  case (step y)
  then show ?case using step_idle by (cases y) blast
qed simp

end

section \<open>Destroying the connections\<close>

definition fds_of :: "nat set \<Rightarrow> ('u, 'z) world_scheme \<Rightarrow> int set" where
  "fds_of ks s = {c_sockfd c | c. \<exists>k \<in> ks. conns s k = Some c}"

lemma fold_dtor:
  "fold TcpConnection_dtor ks s = s\<lparr>conns := conns s |` (- set ks), open_fds := open_fds s - fds_of (set ks) s\<rparr>"
proof (induction ks arbitrary: s)
  case (Cons k ks)
  let ?s = "TcpConnection_dtor k s"
  have "conns ?s |` (- set ks) = conns s |` (- set (k # ks))"
    by (intro ext) (auto simp: TcpConnection_dtor_def restrict_map_def split: option.splits)
  moreover have "open_fds ?s - fds_of (set ks) ?s = open_fds s - fds_of (set (k # ks)) s"
  proof (cases "conns s k")
    case (Some c)
    have "fds_of (set (k # ks)) s = insert (c_sockfd c) (fds_of (set ks) ?s)"
    proof (intro equalityI subsetI)
      fix f
      assume "f \<in> fds_of (set (k # ks)) s"
      then obtain j d where d: "j \<in> set (k # ks)" "conns s j = Some d" "f = c_sockfd d" by (auto simp: fds_of_def)
      show "f \<in> insert (c_sockfd c) (fds_of (set ks) ?s)"
      proof (cases "j = k")
        case False
        with d Some have "j \<in> set ks" "conns ?s j = Some d" by (simp_all add: TcpConnection_dtor_def)
        with d(3) show ?thesis by (auto simp: fds_of_def)
      qed (use d Some in simp)
    qed (use Some in \<open>auto simp: fds_of_def TcpConnection_dtor_def split: if_splits\<close>)
    with Some show ?thesis by (auto simp: TcpConnection_dtor_def)
  qed (simp add: TcpConnection_dtor_def fds_of_def)
  moreover have "fold TcpConnection_dtor (k # ks) s = ?s\<lparr>conns := conns ?s |` (- set ks), open_fds := open_fds ?s - fds_of (set ks) ?s\<rparr>"
    using Cons.IH [of ?s] by simp
  moreover have "?s\<lparr>conns := x, open_fds := y\<rparr> = s\<lparr>conns := x, open_fds := y\<rparr>" for x y
    by (simp add: TcpConnection_dtor_def split: option.split)
  ultimately show ?case by simp
qed (simp add: fds_of_def restrict_map_def)

lemma release_tasks_dtor: "release_tasks fs s = fold TcpConnection_dtor (destroys fs) s"
proof (induction fs arbitrary: s)
  case (Cons f fs)
  then show ?case by (cases f) (simp_all add: release_tasks_def release_task_def destroys_def)
qed (simp add: release_tasks_def)

lemma finite_connections:
  assumes "map_ok m ds s"
  shows "finite (ran (connections s))"
proof -
  have "dom (connections s) \<subseteq> (\<lambda>i. conn_name (server_name s) i) ` {1..<nextConnId s}"
  proof
    fix nm
    assume "nm \<in> dom (connections s)"
    then obtain k where "connections s nm = Some k" by blast
    with assms obtain i where "1 \<le> i" "i < nextConnId s" "nm = conn_name (server_name s) i" unfolding map_ok_def by blast
    then show "nm \<in> (\<lambda>i. conn_name (server_name s) i) ` {1..<nextConnId s}" by simp
  qed
  then have "finite (dom (connections s))" by (rule finite_subset) simp
  then show ?thesis by (rule finite_ran)
qed

lemma TcpServer_dtor_eq:
  assumes "map_ok m ds s"
  shows "TcpServer_dtor s = s\<lparr>connections := Map.empty, conns := conns s |` (- ran (connections s)),
      open_fds := open_fds s - fds_of (ran (connections s)) s - {acceptFd s}\<rparr>"
  using finite_connections [OF assms] by (simp add: TcpServer_dtor_def fold_dtor fds_of_def Let_def)

text \<open>Every connection object goes: with the server's map, or with the functor that was to destroy it.\<close>

lemma all_destroyed:
  assumes inv: "net_inv T None [] [] s"
  shows "release_tasks (pendingFunctors s) ((TcpServer_dtor s)\<lparr>pendingFunctors := []\<rparr>)
    = s\<lparr>connections := Map.empty, conns := Map.empty, open_fds := open_fds s - {acceptFd s} - conn_fds s, pendingFunctors := []\<rparr>"
proof -
  let ?ks = "ran (connections s)" and ?ds = "set (destroys (pendingFunctors s))"
  have "map_ok None [] s" using inv by (simp add: net_inv_def)
  note server = TcpServer_dtor_eq [OF this]
  have cover: "k \<in> ?ks \<union> ?ds" if k: "conns s k = Some c" for k c
  proof (cases "k \<in> ?ds")
    case False
    with conns_okD(5) [OF inv k] have "connections s (c_name c) = Some k" by (simp add: conn_fits_def)
    then show ?thesis by (auto simp: ran_def)
  qed simp
  have "conns s |` (- ?ks) |` (- ?ds) = Map.empty"
  proof
    fix k
    show "(conns s |` (- ?ks) |` (- ?ds)) k = None"
      using cover [of k] by (cases "conns s k") (auto simp: restrict_map_def)
  qed
  moreover have "open_fds s - fds_of ?ks s - {acceptFd s} - fds_of ?ds (TcpServer_dtor s) = open_fds s - {acceptFd s} - conn_fds s"
  proof -
    have "fds_of ?ks s \<union> fds_of ?ds (TcpServer_dtor s) = conn_fds s"
    proof (intro equalityI subsetI)
      fix f
      assume "f \<in> conn_fds s"
      then obtain k c where k: "conns s k = Some c" "c_sockfd c = f" by (auto simp: conn_fds_def ran_def)
      with cover [OF k(1)] show "f \<in> fds_of ?ks s \<union> fds_of ?ds (TcpServer_dtor s)"
        by (cases "k \<in> ?ks") (auto simp: fds_of_def server restrict_map_def)
    qed (auto simp: fds_of_def conn_fds_def ran_def server restrict_map_def split: if_splits)
    then show ?thesis by auto
  qed
  ultimately show ?thesis
    by (simp add: release_tasks_dtor fold_dtor server fds_of_def)
qed

section \<open>A server that ends before its loop\<close>

text \<open>In \<open>main\<close> the loop has returned before the server is destroyed. In a program that destroys a server while the
  loop goes on, the channel of every open connection stays registered, and its callback calls a destroyed object.\<close>

lemma server_dtor_dangles:
  assumes inv: "net_inv T None [] [] s" and k: "conns s k = Some c" "connections s (c_name c) = Some k"
  shows "\<exists>ch. registered (TcpServer_dtor s) (c_channel c) ch \<and> readCallback ch = Some (ConnectionRead k)
    \<and> call_back P (ConnectionRead k) ts (TcpServer_dtor s) = Inl (Undefined ''dangling connection'')"
proof -
  have "map_ok None [] s" using inv by (simp add: net_inv_def)
  note server = TcpServer_dtor_eq [OF this]
  from open_conn [OF inv k] obtain ch where ch: "conn_at s k c ch" "readCallback ch = Some (ConnectionRead k)" by metis
  have "registered (TcpServer_dtor s) (c_channel c) ch"
    using conn_atD(6) [OF ch(1)] by (simp add: registered_def server)
  moreover have "conns (TcpServer_dtor s) k = None"
    using k(2) by (auto simp: server restrict_map_def ran_def)
  ultimately show ?thesis
    using ch(2) by (auto simp: call_back_def TcpConnection_handleRead_def get_conn_def)
qed

section \<open>The end of main\<close>

lemma TcpServer_dtor_same:
  "pendingFunctors (TcpServer_dtor s) = pendingFunctors s" "looping (TcpServer_dtor s) = looping s"
  by (simp_all add: TcpServer_dtor_def fold_dtor Let_def)

lemma main_leave_eq:
  assumes inv: "net_inv T None [] [] s" and idle: "handling s = {}" and over: "\<not> looping s"
  shows "\<exists>s'. main_leave t lo s = Inr (lo(t := None), s') \<and> conns s' = Map.empty \<and> channels s' = Map.empty
    \<and> heap s' = heap s |` (- ran (channels s)) \<and> open_fds s' = open_fds s - {acceptFd s} - conn_fds s - {timerfd s}"
proof -
  let ?s1 = "s\<lparr>connections := Map.empty, conns := Map.empty, open_fds := open_fds s - {acceptFd s} - conn_fds s, pendingFunctors := []\<rparr>"
  let ?s2 = "TimerQueue_dtor ?s1"
  have same: "heap ?s2 = heap s" "pollfds ?s2 = pollfds s" "channels ?s2 = channels s" "loopId ?s2 = loopId s"
    by (simp_all add: TimerQueue_dtor_def)
  have ok: "poller_ok ?s2" using inv by (simp add: net_inv_def poller_cong [OF same])
  let ?s3 = "?s2\<lparr>pollfds := [], channels := Map.empty, heap := heap ?s2 |` (- ran (channels ?s2))\<rparr>"
  have "Poller_dtor ?s2 = Inr ?s3"
    by (rule Poller_dtor_eq [OF ok]) (use idle in \<open>auto simp: handling_def same\<close>)
  then have "main_leave t lo s = Inr (lo(t := None), ?s3)"
    using over by (simp add: main_leave_def EventLoop_leave_def EventLoop_dtor_def TcpServer_dtor_same all_destroyed [OF inv])
  moreover have "conns ?s3 = Map.empty" "channels ?s3 = Map.empty" "heap ?s3 = heap s |` (- ran (channels s))"
    "open_fds ?s3 = open_fds s - {acceptFd s} - conn_fds s - {timerfd s}"
    by (simp_all add: same) (simp_all add: TimerQueue_dtor_def)
  ultimately show ?thesis by blast
qed

text \<open>C6. The end of the sample server, whatever happened before and whichever thread asked for it: when the loop
  has returned, the destructors of server and loop fail no assertion, every connection object is destroyed and every
  registered channel freed, and of the descriptors the program opened only the eventfd of the loop stays open.\<close>

theorem main_ends:
  fixes n1 n2 :: "32 word"
  assumes s: "blank s" and fds: "0 \<le> efd" "0 \<le> tfd" "0 \<le> lfd" "distinct [efd, tfd, lfd]"
    and new: "tfd \<notin> open_fds s" "lfd \<notin> open_fds s"
  shows "\<exists>s1. main_setup t self (granted efd tfd lfd) s = Inr s1 \<and> (\<forall>s'.
    (shared_step (main_code (replicate (unat n1) (CHR ''A'')) (replicate (unat n2) (CHR ''B''))))\<^sup>*\<^sup>*
      (Waiting, s1\<lparr>looping := True, quit_flag := False\<rparr>) (Over, s') \<longrightarrow>
    (\<exists>s''. main_leave t [t \<mapsto> self] s' = Inr (Map.empty, s'') \<and> conns s'' = Map.empty
      \<and> heap s'' = heap s' |` (- ran (channels s')) \<and> open_fds s'' = insert efd (open_fds s)))"
proof -
  let ?P = "main_code (replicate (unat n1) (CHR ''A'')) (replicate (unat n2) (CHR ''B'')) :: (main_fun, 'a) program"
    and ?base = "insert lfd (insert efd (insert tfd (open_fds s)))"
  obtain s1 where s1: "main_setup t self (granted efd tfd lfd) s = Inr s1" "net_inv t None [] [] s1" "conns s1 = Map.empty"
    "timers s1 = []" "open_fds s1 = ?base" "acceptFd s1 = lfd" "timerfd s1 = tfd"
    by (rule main_setup_ok [OF s fds, of t self]) (rule that)
  let ?s1 = "s1\<lparr>looping := True, quit_flag := False\<rparr>"
  have users: "server_users ?P t (tidy ?base tfd lfd) server_faults" by (rule tidy_sample.server_users_axioms)
  have start: "net_inv t None [] [] ?s1" "tidy ?base tfd lfd ?s1" "handling ?s1 = {}"
    using flags_safe [OF s1(2), where b = "callingPendingFunctors s1" and l = True and q = False]
      main_setup_idle [OF s1(1) s] s1(3-7)
    by (simp_all add: tidy_def no_leak_def conn_fds_def own_fds_def handling_def)
  have "\<exists>s''. main_leave t [t \<mapsto> self] s' = Inr (Map.empty, s'') \<and> conns s'' = Map.empty
      \<and> heap s'' = heap s' |` (- ran (channels s')) \<and> open_fds s'' = insert efd (open_fds s)"
    if run: "(shared_step ?P)\<^sup>*\<^sup>* (Waiting, ?s1) (Over, s')" for s'
  proof -
    note run' = run [unfolded shared_step_def]
    have inv: "net_inv t None [] [] s'" and tidy: "tidy ?base tfd lfd s'"
      using server_users.shared_run [OF users _ start(1,2), OF run'] by simp_all
    from main_leave_eq [OF inv main_quiet.run_idle [OF run' start(3)] run_over [OF run'], of t "[t \<mapsto> self]"]
    obtain s'' where s'': "main_leave t [t \<mapsto> self] s' = Inr (Map.empty, s'')" "conns s'' = Map.empty"
      "heap s'' = heap s' |` (- ran (channels s'))" "open_fds s'' = open_fds s' - {acceptFd s'} - conn_fds s' - {timerfd s'}"
      by auto
    have "open_fds s'' = insert efd (open_fds s)"
      using tidy new fds(4) unfolding s''(4) tidy_def no_leak_def by auto
    with s''(1-3) show ?thesis by blast
  qed
  with s1(1) show ?thesis by blast
qed

text \<open>Another thread asks the loop to quit before its first poll.\<close>

lemma main_ends_witness:
  "\<exists>s1 s' s''. main_setup 7 50 (granted 3 4 5) demo_world = Inr s1 \<and>
    (shared_step (main_code (replicate 10 (CHR ''A'')) (replicate 20 (CHR ''B''))))\<^sup>*\<^sup>*
      (Waiting, s1\<lparr>looping := True, quit_flag := False\<rparr>) (Over, s') \<and>
    main_leave 7 [7 \<mapsto> 50] s' = Inr (Map.empty, s'') \<and> open_fds s'' = {0, 1, 2, 3}"
proof -
  let ?P = "main_code (replicate (unat (10 :: 32 word)) (CHR ''A'')) (replicate (unat (20 :: 32 word)) (CHR ''B'')) :: (main_fun, unit) program"
  have fds: "open_fds demo_world = {0, 1, 2}" by (simp add: demo_world_def)
  have "\<exists>s1. main_setup 7 50 (granted 3 4 5) demo_world = Inr s1 \<and> (\<forall>s'.
    (shared_step ?P)\<^sup>*\<^sup>* (Waiting, s1\<lparr>looping := True, quit_flag := False\<rparr>) (Over, s') \<longrightarrow>
    (\<exists>s''. main_leave 7 [7 \<mapsto> 50] s' = Inr (Map.empty, s'') \<and> conns s'' = Map.empty
      \<and> heap s'' = heap s' |` (- ran (channels s')) \<and> open_fds s'' = insert 3 (open_fds demo_world)))"
    by (rule main_ends [OF demo_world_blank]) (simp_all add: fds)
  then obtain s1 where s1: "main_setup 7 50 (granted 3 4 5) demo_world = Inr s1" and ends: "\<And>s'.
    (shared_step ?P)\<^sup>*\<^sup>* (Waiting, s1\<lparr>looping := True, quit_flag := False\<rparr>) (Over, s') \<Longrightarrow>
    (\<exists>s''. main_leave 7 [7 \<mapsto> 50] s' = Inr (Map.empty, s'') \<and> open_fds s'' = insert 3 (open_fds demo_world))"
    by blast
  let ?x = "s1\<lparr>looping := True, quit_flag := True\<rparr>"
  have "shared_step ?P (Waiting, s1\<lparr>looping := True, quit_flag := False\<rparr>) (Waiting, ?x)"
    using loop_step.quits [of "call_back ?P" "run_task ?P (Success ())" release_tasks Waiting "s1\<lparr>looping := True, quit_flag := False\<rparr>"]
    by (simp add: shared_step_def)
  moreover have "shared_step ?P (Waiting, ?x) (Over, ?x\<lparr>looping := False\<rparr>)"
    unfolding shared_step_def by (rule loop_step.own [OF loop_own.ended]) simp
  ultimately have run: "(shared_step ?P)\<^sup>*\<^sup>* (Waiting, s1\<lparr>looping := True, quit_flag := False\<rparr>) (Over, ?x\<lparr>looping := False\<rparr>)"
    by (meson r_into_rtranclp rtranclp_trans)
  from ends [OF run] obtain s'' where "main_leave 7 [7 \<mapsto> 50] (?x\<lparr>looping := False\<rparr>) = Inr (Map.empty, s'')"
    "open_fds s'' = {0, 1, 2, 3}" by (auto simp: fds)
  with s1 run show ?thesis by auto
qed

end
