(* ===== verification/TimedServer.thy ===== *)
theory TimedServer
  imports SharedLoop Alarms
begin

text \<open>
  A server whose user sets timers: the timer queue, the connections and the loop together. The alarm of the
  timerfd runs the expired timers between the other callbacks of a poll round, and their functions use the
  server and set further timers; the invariants of the server and of the timer queue survive, and the timerfd is
  armed for the earliest timer whenever there is one.
\<close>

section \<open>Timers beside connections\<close>

definition timed :: "('u, 'z) tqloop_scheme \<Rightarrow> bool" where
  "timed s \<longleftrightarrow> alloc_ok s \<and> timers_ok s"

text \<open>While there are timers the timerfd is armed, and not for a time before the earliest one.\<close>

definition armed :: "('u, 'z) tqloop_scheme \<Rightarrow> bool" where
  "armed s \<longleftrightarrow> (timers s \<noteq> [] \<longrightarrow>
     (\<exists>d. timerfd_due s = Some d \<and> microSecondsSinceEpoch (fst (hd (timers s))) \<le> d))"

lemma timed_cong: "timers s' = timers s \<Longrightarrow> timer_heap s' = timer_heap s \<Longrightarrow> malloc s' = malloc s \<Longrightarrow> timed s' = timed s"
  using alloc_ok_cong [of s' s] timers_ok_cong [of s' s] by (simp add: timed_def)

lemma armed_cong: "timers s' = timers s \<Longrightarrow> timerfd_due s' = timerfd_due s \<Longrightarrow> armed s' = armed s"
  by (simp add: armed_def)

lemma timed_armed_cong:
  assumes "timers s' = timers s" "timer_heap s' = timer_heap s" "malloc s' = malloc s" "timerfd_due s' = timerfd_due s"
    and "timed s \<and> armed s"
  shows "timed s' \<and> armed s'"
  using assms(5) timed_cong [OF assms(1-3)] armed_cong [OF assms(1,4)] by simp

lemma timed_opened:
  assumes "timed s" and "timers s' = timers s" "timer_heap s' = timer_heap s" and M: "malloc s' = (\<lambda>i. malloc s (Suc (Suc i)))"
  shows "timed s'"
proof -
  have "inj (malloc s')" using assms(1) by (auto simp: M timed_def alloc_ok_def inj_def)
  with assms show ?thesis using timers_ok_cong [of s' s] by (simp add: timed_def alloc_ok_def)
qed

lemma net_timed_tq: "net_inv T m ds fs s \<Longrightarrow> timed s \<Longrightarrow> tq_ok T s"
  by (simp add: net_inv_def timed_def tq_ok_def)

text \<open>The operations of the timer queue leave the server alone.\<close>

lemma net_inv_frame:
  assumes frame: "timer_frame s s'" and clk: "clock_ok s'" and M: "inj (malloc s')" "\<And>i. \<exists>j. malloc s' i = malloc s j"
    and inv: "net_inv T m ds fs s"
  shows "net_inv T m ds fs s'" "calm s s'"
proof -
  from frame obtain c l H L d n V M' where s': "s' = s\<lparr>clock := c, last_reading := l, timer_heap := H, timers := L,
     timerfd_due := d, timerfd_ticks := n, timer_vars := V, malloc := M'\<rparr>" unfolding timer_frame_def by blast
  have P: "heap s' = heap s" "pollfds s' = pollfds s" "channels s' = channels s" "loopId s' = loopId s" by (simp_all add: s')
  have F: "threadId s' = threadId s" "conns s' = conns s" "connections s' = connections s" "pendingFunctors s' = pendingFunctors s"
    "open_fds s' = open_fds s" "nextConnId s' = nextConnId s" "server_name s' = server_name s"
    "server_callbacks s' = server_callbacks s" "newConnectionCallback s' = newConnectionCallback s"
    "kernel_ok s' = kernel_ok s" by (simp_all add: s' kernel_ok_def)
  have "conn_at s' = conn_at s" by (intro ext) (simp add: conn_at_def P F)
  moreover have "removable s' = removable s" by (intro ext) (simp add: removable_def poller_cong [OF P] P F)
  ultimately have fits: "conn_fits m ds fs s' = conn_fits m ds fs s"
    by (intro ext) (simp add: conn_fits_def poller_cong [OF P] P F)
  have ch: "chan_ok s' = chan_ok s" by (intro ext) (simp add: chan_ok_def F)
  have "memory_ok s'"
  proof -
    have "memory_ok s" using inv by (simp add: net_inv_def)
    then have "heap s (malloc s' i) = None \<and> conns s (malloc s' i) = None" for i
      using M(2) [of i] by (auto simp: memory_ok_def)
    with M(1) show ?thesis by (simp add: memory_ok_def P F)
  qed
  moreover have "conns_ok m ds fs s' = conns_ok m ds fs s" by (simp only: conns_ok_def fits P F)
  moreover have "chans_ok s' = chans_ok s" by (simp only: chans_ok_def ch P F)
  moreover have "map_ok m ds s' = map_ok m ds s" by (simp only: map_ok_def F)
  moreover have "queue_ok m ds fs s' = queue_ok m ds fs s" by (simp only: queue_ok_def F)
  moreover have "fds_ok s' = fds_ok s" by (simp only: fds_ok_def P F)
  ultimately show "net_inv T m ds fs s'"
    using inv clk by (simp only: net_inv_def poller_cong(2) [OF P] F simp_thms)
  show "calm s s'" by (simp add: calm_def live_def ch P F)
qed

section \<open>Adding a timer\<close>

lemma hd_insort: "hd (insort x xs) = (if xs = [] \<or> x \<le> hd xs then x else hd xs)"
  by (cases xs) auto

lemma addTimer_armed:
  assumes ok: "tq_ok T s" and tm: "timer_small (new_timer cb when delta)"
  shows "okR (\<lambda>(_, s'). timed s' \<and> clock_ok s' \<and> grows s s' \<and> (armed s \<longrightarrow> armed s') \<and> timer_frame s s'
      \<and> malloc s' = (\<lambda>i. malloc s (Suc i))) (TimerQueue_addTimer T cb when delta s)"
proof (rule okR_mono [OF addTimer_spec [OF ok tm]], clarify, intro conjI impI)
  fix s'
  let ?e = "(when, malloc s 0)"
  assume ok': "tq_ok T s'" and due: "timerfd_due s' = (if timers s = [] \<or> when < fst (hd (timers s))
        then Some (due_for when (last_reading s')) else timerfd_due s)" and ts: "timers s' = insort ?e (timers s)"
  from ok' show "timed s'" "clock_ok s'" by (simp_all add: tq_ok_def timed_def)
  assume arm: "armed s"
  show "armed s'"
  proof (cases "timers s = [] \<or> when < fst (hd (timers s))")
    case True
    then have "hd (timers s') = ?e" by (auto simp: ts hd_insort less_eq_prod_def)
    with True due show ?thesis by (simp add: armed_def due_for_def)
  next
    case False
    then have "fst (hd (timers s')) = fst (hd (timers s))" by (auto simp: ts hd_insort less_eq_prod_def)
    with False due arm show ?thesis by (auto simp: armed_def)
  qed
qed simp_all

lemma shifted_malloc: "alloc_ok s \<Longrightarrow> inj (\<lambda>i. malloc s (Suc i))"
  by (auto simp: alloc_ok_def inj_def)

text \<open>A function that sets a timer.\<close>

lemma server_runAfter:
  assumes inv: "net_inv T m ds fs s" and ok: "timed s"
    and d: "double_to_int64 (double_mul delay (Fin kMicroSecondsPerSecond 0)) = Inr d" "0 \<le> d" "d \<le> 2 ^ 61"
  shows "okR (\<lambda>(_, s'). net_inv T m ds fs s' \<and> timed s' \<and> calm s s' \<and> grows s s' \<and> (armed s \<longrightarrow> armed s')) (runAfter T delay cb s)"
proof -
  have tq: "tq_ok T s" using net_timed_tq [OF inv ok] .
  then obtain x where x: "current_time s =
      Inr (Timestamp x, s\<lparr>clock := \<lambda>i. clock s (Suc i), last_reading := Timestamp x\<rparr>)" "0 < x" "x \<le> 2 ^ 61"
    "tq_ok T (s\<lparr>clock := \<lambda>i. clock s (Suc i), last_reading := Timestamp x\<rparr>)" by (rule tq_ok_tick)
  let ?s = "s\<lparr>clock := \<lambda>i. clock s (Suc i), last_reading := Timestamp x\<rparr>"
  have "in_int64 (x + d)" using x(2,3) d(2,3) by (simp add: in_int64_def)
  then have "addTime (Timestamp x) delay = Inr (Timestamp (x + d))" by (simp add: addTime_def d(1))
  then have run: "runAfter T delay cb s = TimerQueue_addTimer T cb (Timestamp (x + d)) (Fin 0 0) ?s"
    by (simp add: runAfter_def x(1))
  have small: "timer_small (new_timer cb (Timestamp (x + d)) (Fin 0 0))"
    using x(2,3) d(2,3) by (intro one_shot_small) simp_all
  have frame: "timer_frame s ?s"
    by (rule timer_frameI [where c = "\<lambda>i. clock s (Suc i)" and l = "Timestamp x" and H = "timer_heap s" and L = "timers s"
        and d = "timerfd_due s" and n = "timerfd_ticks s" and V = "timer_vars s" and M = "malloc s"]) simp
  show ?thesis
    unfolding run
  proof (rule okR_mono [OF addTimer_armed [OF x(4) small]], clarify)
    fix a s'
    assume s': "timed s'" "clock_ok s'" "grows ?s s'" "armed ?s \<longrightarrow> armed s'" "timer_frame ?s s'" "malloc s' = (\<lambda>i. malloc ?s (Suc i))"
    have M: "inj (malloc s')" "\<And>i. \<exists>j. malloc s' i = malloc s j"
      using s'(6) shifted_malloc [of s] tq by (auto simp: tq_ok_def)
    note N = net_inv_frame [OF timer_frame_trans [OF frame s'(5)] s'(2) M inv]
    with s'(1,3,4) show "net_inv T m ds fs s' \<and> timed s' \<and> calm s s' \<and> grows s s' \<and> (armed s \<longrightarrow> armed s')"
      by (simp add: armed_def grows_def)
  qed
qed

section \<open>The functions that timers run\<close>

text \<open>
  What server and timer queue rely on when they call a function of the user's, from a timer or from the queue of
  functors: it keeps both, leaves the channels their roles, only adds timers, and the timerfd armed.
\<close>

locale timed_functions =
  fixes user :: "'u \<Rightarrow> ('u, 'z) world_scheme \<Rightarrow> ('u, 'z) world_scheme res" and T :: int and E :: "fault set"
  assumes user_ok: "net_inv T None ds fs s \<Longrightarrow> timed s \<Longrightarrow> safeR E (\<lambda>s'. net_inv T None ds fs s' \<and> timed s' \<and> calm s s'
      \<and> grows s s' \<and> (armed s \<longrightarrow> armed s')) (user u s)"
    and equal: "AssertFailed ''it == timers_.end() || now < it->first'' \<in> E"
begin

lemma run_expired:
  assumes "net_inv T None [] [] s" and "timed s" and "\<And>e. e \<in> set es \<Longrightarrow> timer_heap s (snd e) \<noteq> None"
  shows "safeR E (\<lambda>s'. net_inv T None [] [] s' \<and> timed s' \<and> calm s s' \<and> grows s s') (foldR (run_timer user) es s)"
proof (rule foldR_safeR)
  fix e s1
  assume e: "e \<in> set es" and s1: "net_inv T None [] [] s1 \<and> timed s1 \<and> calm s s1 \<and> grows s s1"
  from assms(3) [OF e] obtain tm where "timer_heap s (snd e) = Some tm" by blast
  with s1 have "timer_heap s1 (snd e) = Some tm" by (auto simp: grows_def map_le_def dom_def)
  then have run: "run_timer user e s1 = user (timer_callback tm) s1" by (simp add: run_timer_def get_timer_def)
  from s1 have "net_inv T None [] [] s1" "timed s1" by simp_all
  from user_ok [OF this] show "safeR E (\<lambda>s'. net_inv T None [] [] s' \<and> timed s' \<and> calm s s' \<and> grows s s') (run_timer user e s1)"
    unfolding run by (rule safeR_mono) (use s1 calm_trans grows_trans in blast)
qed (use assms(1,2) in \<open>simp add: calm_def\<close>)

lemma reset_kept:
  assumes inv: "net_inv T None [] [] s" and ok: "timed s" and es: "distinct (map snd es)"
    "\<And>e. e \<in> set es \<Longrightarrow> snd e \<notin> snd ` set (timers s) \<and> (\<exists>tm. timer_heap s (snd e) = Some tm \<and> timer_small tm)"
    and now: "now = Timestamp x" "0 < x" "x \<le> 2 ^ 61"
  shows "okR (\<lambda>s'. net_inv T None [] [] s' \<and> calm s s' \<and> timed s' \<and> armed s') (TimerQueue_reset es now s)"
proof (rule okR_mono [OF reset_spec [OF net_timed_tq [OF inv ok] es now]], assumption)
  fix s'
  assume s': "tq_ok T s' \<and> set (timers s') = set (timers s) \<union> renewed s now es
      \<and> (timers s' \<noteq> [] \<longrightarrow> timerfd_due s' = Some (due_for (fst (hd (timers s'))) (last_reading s')))
      \<and> timer_frame s s' \<and> malloc s' = malloc s"
  then have frame: "timer_frame s s'" and clk: "clock_ok s'" and M: "malloc s' = malloc s" by (simp_all add: tq_ok_def)
  have "inj (malloc s')" "\<And>i. \<exists>j. malloc s' i = malloc s j" using ok by (auto simp: M timed_def alloc_ok_def)
  note N = net_inv_frame [OF frame clk this inv]
  with s' show "net_inv T None [] [] s' \<and> calm s s' \<and> timed s' \<and> armed s'"
    by (auto simp: tq_ok_def timed_def armed_def due_for_def)
qed

lemma alarm_kept:
  assumes inv: "net_inv T None [] [] s" and ok: "timed s"
  shows "safeR E (\<lambda>s'. (net_inv T None [] [] s' \<and> calm s s') \<and> timed s' \<and> armed s') (TimerQueue_handleRead user T s)"
proof -
  have clk: "clock_ok s" and tok: "timers_ok s" and t: "assertInLoopThread T s = Inr ()"
    using inv ok by (simp_all add: net_inv_def timed_def in_loop_thread)
  from clk obtain x where x: "current_time s = Inr (Timestamp x, s\<lparr>clock := \<lambda>i. clock s (Suc i), last_reading := Timestamp x\<rparr>)"
    "0 < x" "x \<le> 2 ^ 61" "clock_ok (s\<lparr>clock := \<lambda>i. clock s (Suc i), last_reading := Timestamp x\<rparr>)" by (rule clock_okE)
  let ?now = "Timestamp x" and ?s1 = "readTimerfd (s\<lparr>clock := \<lambda>i. clock s (Suc i), last_reading := Timestamp x\<rparr>)"
  have tok1: "timers_ok ?s1" using tok by (simp add: timers_ok_def entry_ok_def readTimerfd_def)
  have ts: "timers ?s1 = timers s" by (simp add: readTimerfd_def)
  show ?thesis
  proof (cases "?now \<in> fst ` set (timers s)")
    case True
    then have "getExpired ?now ?s1 = Inl (AssertFailed ''it == timers_.end() || now < it->first'')"
      using getExpired_equal [OF tok1] ts by simp
    then show ?thesis using equal by (simp add: TimerQueue_handleRead_def t x(1))
  next
    case False
    let ?es = "filter (\<lambda>e. fst e < ?now) (timers s)"
    define s2 where "s2 = ?s1\<lparr>timers := filter (\<lambda>e. ?now < fst e) (timers s)\<rparr>"
    have eq2: "timer_heap s2 = timer_heap s" "timers s2 = filter (\<lambda>e. ?now < fst e) (timers s)" "malloc s2 = malloc s"
      by (simp_all add: s2_def readTimerfd_def)
    from getExpired_spec [OF tok1, of ?now] False ts have "getExpired ?now ?s1 = Inr (?es, s2)" by (simp add: s2_def)
    then have run: "TimerQueue_handleRead user T s = bindR (foldR (run_timer user) ?es s2) (TimerQueue_reset ?es ?now)"
      by (simp add: TimerQueue_handleRead_def t x(1))
    have frame: "timer_frame s s2"
      by (rule timer_frameI [where c = "\<lambda>i. clock s (Suc i)" and l = ?now and H = "timer_heap s" and L = "timers s2"
          and d = "timerfd_due s" and n = 0 and V = "timer_vars s" and M = "malloc s"]) (simp add: s2_def readTimerfd_def)
    have M: "inj (malloc s2)" "\<And>i. \<exists>j. malloc s2 i = malloc s j" using ok by (auto simp: eq2 timed_def alloc_ok_def)
    have "clock_ok s2" using x(4) by (simp add: clock_ok_def s2_def readTimerfd_def)
    note N = net_inv_frame [OF frame this M inv]
    have T2: "timed s2"
      using ok by (auto simp: s2_def timed_def timers_ok_def entry_ok_def alloc_ok_def readTimerfd_def sorted_wrt_filter distinct_map_filter)
    have heap: "timer_heap s2 (snd e) \<noteq> None" if "e \<in> set ?es" for e unfolding eq2 using that entry_in_heap [OF tok] by simp
    have dist: "distinct (map snd ?es)" using tok by (simp add: timers_ok_def distinct_map_filter)
    show ?thesis
      unfolding run safeR_bindR
    proof (rule safeR_mono [OF run_expired [OF N(1) T2 heap]], assumption)
      fix s3
      assume s3: "net_inv T None [] [] s3 \<and> timed s3 \<and> calm s2 s3 \<and> grows s2 s3"
      then have s3': "net_inv T None [] [] s3" "timed s3" "grows s2 s3" by simp_all
      have hyp: "snd e \<notin> snd ` set (timers s3) \<and> (\<exists>tm. timer_heap s3 (snd e) = Some tm \<and> timer_small tm)" if "e \<in> set ?es" for e
        using expired_apart [OF tok eq2(1,2) s3'(3), of e] that by simp
      show "safeR E (\<lambda>s'. (net_inv T None [] [] s' \<and> calm s s') \<and> timed s' \<and> armed s') (TimerQueue_reset ?es ?now s3)"
        by (rule okR_safeR [OF okR_mono [OF reset_kept [OF s3'(1,2) dist hyp refl x(2,3)]]], assumption)
          (use s3 N(2) calm_trans in blast)
    qed
  qed
qed

end

text \<open>Functions that set themselves again, one second later.\<close>

interpretation chiming: timed_functions "\<lambda>u s. bindR (runAfter T (Fin 1 0) u s) (\<lambda>(_, s'). Inr s')" T
    "insert (AssertFailed ''it == timers_.end() || now < it->first'') E"
  for T :: int and E :: "fault set"
proof unfold_locales
  fix s :: "('u, 'z) world_scheme" and ds fs u
  assume "net_inv T None ds fs s" "timed s"
  from server_runAfter [OF this second_in_us, of u]
  show "safeR (insert (AssertFailed ''it == timers_.end() || now < it->first'') E) (\<lambda>s'. net_inv T None ds fs s' \<and> timed s' \<and> calm s s'
      \<and> grows s s' \<and> (armed s \<longrightarrow> armed s')) (bindR (runAfter T (Fin 1 0) u s) (\<lambda>(_, s'). Inr s'))"
    by (auto intro!: okR_safeR elim!: okR_mono)
qed simp

section \<open>The server with timers\<close>

definition timer_faults :: "fault set" where
  "timer_faults = insert (AssertFailed ''it == timers_.end() || now < it->first'') server_faults"

lemma timed_sample:
  assumes "timed_functions user T timer_faults"
  shows "server_users (main_with user n1 n2) T (\<lambda>s. timed s \<and> armed s) timer_faults"
proof (rule sample_users)
  fix s s' :: "(main_fun, 'a) world_scheme" and k c u and ds fs :: "main_fun task list"
  show "safeR timer_faults (\<lambda>s'. net_inv T None ds fs s' \<and> timed s' \<and> armed s') (user u s)"
    if "net_inv T None ds fs s" "timed s \<and> armed s"
    by (rule safeR_mono [OF timed_functions.user_ok [OF assms that(1) conjunct1 [OF that(2)]]]) (use that(2) in blast)
  show "safeR timer_faults (\<lambda>s'. (net_inv T None [] [] s' \<and> calm s s') \<and> timed s' \<and> armed s') (TimerQueue_handleRead user T s)"
    if "net_inv T None [] [] s" "timed s \<and> armed s"
    by (rule timed_functions.alarm_kept [OF assms that(1) conjunct1 [OF that(2)]])
  show "timed s' \<and> armed s'" if "timed s \<and> armed s" "tame s s'"
    by (rule timed_armed_cong [OF tame_timers [OF that(2)] that(1)])
  show "timed s' \<and> armed s'" if "timed s \<and> armed s" "opened s k c s'"
    using timed_opened [OF conjunct1 [OF that(1)] opened_timers(1-3) [OF that(2)]]
      armed_cong [OF opened_timers(1,4) [OF that(2)]] that(1) by simp
  show "timed s' \<and> armed s'" if "timed s \<and> armed s" "conns s k = Some c" "same_lives (put_conn k (c\<lparr>c_state := kDisconnected\<rparr>) s) s'"
    by (rule timed_armed_cong [OF _ _ _ _ that(1)]) (use same_lives_timers [OF that(3)] in simp_all)
  show "timed (TcpConnection_dtor k s) \<and> armed (TcpConnection_dtor k s)" if "timed s \<and> armed s" "conns s k = Some c"
    by (rule timed_armed_cong [OF dtor_timers that(1)])
  show "timed s' \<and> armed s'" if "timed s \<and> armed s" "same_lives s s'"
    by (rule timed_armed_cong [OF same_lives_timers [OF that(2)] that(1)])
qed (auto simp: timer_faults_def)

text \<open>C3. The sample server whose user sets timers, shared with other threads: if the functions of the user keep
  server and timer queue (they may set further timers), then so does every run of the loop; while there are timers the
  timerfd is armed and not for a time before the earliest one; and the process ends in no fault but those of
  \<open>server_faults\<close> and the assertion of \<open>getExpired\<close>, which fails when a timer is due at the very microsecond.\<close>

theorem server_with_timers:
  assumes s: "blank s" and fds: "0 \<le> efd" "0 \<le> tfd" "0 \<le> lfd" "distinct [efd, tfd, lfd]" and null: "\<And>i. malloc s i \<noteq> 0"
    and user: "\<And>ds fs u s. net_inv t None ds fs s \<Longrightarrow> timed s \<Longrightarrow> safeR timer_faults (\<lambda>s'. net_inv t None ds fs s' \<and> timed s'
      \<and> calm s s' \<and> grows s s' \<and> (armed s \<longrightarrow> armed s')) (user u s)"
  shows "\<exists>s1. main_setup t self (granted efd tfd lfd) s = Inr s1 \<and> (\<forall>p s'.
    (shared_step (main_with user n1 n2))\<^sup>*\<^sup>* (Waiting, s1\<lparr>looping := True, quit_flag := False\<rparr>) (p, s') \<longrightarrow>
    (\<forall>e. p = Crashed e \<longrightarrow> e \<in> timer_faults)
    \<and> (p \<in> {Waiting, Over} \<longrightarrow> net_inv t None [] [] s' \<and> timed s' \<and> armed s'))"
proof -
  obtain s1 where s1: "main_setup t self (granted efd tfd lfd) s = Inr s1" "net_inv t None [] [] s1"
    "timers s1 = []" "timer_heap s1 = Map.empty" "malloc s1 = (\<lambda>i. malloc s (Suc (Suc (Suc i))))"
    by (rule main_setup_ok [OF s fds, of t self]) (rule that)
  have "timed_functions user t timer_faults" by (rule timed_functions.intro) (rule user, assumption+, simp add: timer_faults_def)
  note users = timed_sample [OF this, of n1 n2]
  let ?s1 = "s1\<lparr>looping := True, quit_flag := False\<rparr>"
  have "net_inv t None [] [] ?s1"
    using flags_safe [OF s1(2), where b = "callingPendingFunctors s1" and l = True and q = False] by simp
  moreover have "inj (malloc s)" using s by (simp add: blank_def)
  then have "timed ?s1 \<and> armed ?s1"
    using s1(3-5) null by (auto simp: timed_def armed_def timers_ok_def alloc_ok_def inj_def)
  ultimately show ?thesis using server_users.shared_run [OF users] s1(1) unfolding shared_step_def by blast
qed

lemma server_with_timers_witness:
  "\<exists>s1. main_setup 7 50 (granted 3 4 5) demo_world = Inr s1 \<and> (\<forall>p s'.
    (shared_step (main_with (\<lambda>u s. bindR (runAfter 7 (Fin 1 0) u s) (\<lambda>(_, s'). Inr s')) 10 20))\<^sup>*\<^sup>*
      (Waiting, s1\<lparr>looping := True, quit_flag := False\<rparr>) (p, s') \<longrightarrow>
    (\<forall>e. p = Crashed e \<longrightarrow> e \<in> timer_faults)
    \<and> (p \<in> {Waiting, Over} \<longrightarrow> net_inv 7 None [] [] s' \<and> timed s' \<and> armed s'))"
proof (rule server_with_timers [OF demo_world_blank])
  show "malloc demo_world i \<noteq> 0" for i by (simp add: demo_world_def)
  show "safeR timer_faults (\<lambda>s'. net_inv 7 None ds fs s' \<and> timed s' \<and> calm s s' \<and> grows s s' \<and> (armed s \<longrightarrow> armed s'))
      (bindR (runAfter 7 (Fin 1 0) u s) (\<lambda>(_, s'). Inr s'))" if "net_inv 7 None ds fs s" "timed s"
    for ds fs u and s :: "main_fun world"
    unfolding timer_faults_def by (rule chiming.user_ok [OF that])
qed simp_all

end
