(* ===== verification/Removal.thy ===== *)
theory Removal
  imports Polling "HOL-Library.Multiset"
begin

text \<open>
  \<open>Poller::removeChannel\<close> fills the gap with the last entry of the array. Up to the order, which \<open>poll\<close>
  does not care about, that is what the plain way would do: keep every entry of another descriptor.
\<close>

definition remove_reference :: "int \<Rightarrow> pollfd list \<Rightarrow> pollfd list" where
  "remove_reference f pfds = filter (\<lambda>p. real_fd p \<noteq> f) pfds"

lemma mset_butlast_last: "xs \<noteq> [] \<Longrightarrow> add_mset (last xs) (mset (butlast xs)) = mset xs"
  by (induction xs rule: rev_induct) simp_all

lemma mset_swap_out:
  assumes "i < length xs - 1"
  shows "mset ((butlast xs)[i := last xs]) + {#xs ! i#} = mset xs"
proof -
  have ne: "xs \<noteq> []" using assms by auto
  have i: "i < length (butlast xs)" using assms by simp
  have "mset ((butlast xs)[i := last xs]) = add_mset (last xs) (mset (butlast xs) - {#butlast xs ! i#})"
    using mset_update [OF i] by simp
  moreover have "butlast xs ! i = xs ! i" using assms by (simp add: nth_butlast)
  moreover have "xs ! i \<in># mset (butlast xs)" using i nth_mem [OF i] by (simp add: nth_butlast)
  moreover have "mset xs = add_mset (last xs) (mset (butlast xs))"
    by (rule mset_butlast_last [OF ne, symmetric])
  ultimately show ?thesis by simp
qed

text \<open>In a well formed poller, exactly one entry is of a registered channel's descriptor.\<close>

lemma filter_one_out:
  assumes "i < length xs" and "\<And>j. j < length xs \<Longrightarrow> (P (xs ! j) \<longleftrightarrow> j \<noteq> i)"
  shows "mset (filter P xs) + {#xs ! i#} = mset xs"
proof -
  have "filter P xs = filter P (take i xs) @ filter P (xs ! i # drop (Suc i) xs)"
    using assms(1) by (metis filter_append id_take_nth_drop)
  also have "filter P (take i xs) = take i xs"
    using assms by (intro filter_True) (auto simp: in_set_conv_nth)
  also have "filter P (drop (Suc i) xs) = drop (Suc i) xs"
  proof (intro filter_True ballI)
    fix x
    assume "x \<in> set (drop (Suc i) xs)"
    then obtain j where "j < length xs - Suc i" "x = xs ! (Suc i + j)" by (auto simp: in_set_conv_nth)
    with assms show "P x" by simp
  qed
  then have "filter P (xs ! i # drop (Suc i) xs) = drop (Suc i) xs" using assms by simp
  finally have "filter P xs = take i xs @ drop (Suc i) xs" .
  moreover have "mset xs = mset (take i xs @ xs ! i # drop (Suc i) xs)"
    using assms(1) by (metis id_take_nth_drop)
  ultimately show ?thesis by simp
qed

text \<open>C14. Removing a channel leaves, in some order, the entries that filtering its descriptor out of the
  array leaves.\<close>

theorem remove_filters:
  assumes ok: "poller_ok s" and rm: "removable s a c"
  shows "okR (\<lambda>s'. mset (pollfds s') = mset (remove_reference (ch_fd c) (pollfds s)))
    (EventLoop_removeChannel (threadId s) a s)"
proof -
  let ?i = "nat (ch_index c)" and ?xs = "pollfds s"
  from ok rm have ia: "slot_ok s ?i a c" by (intro slot_of_registered) (auto simp: removable_def)
  note i = slot_okD_less [OF ia]
  have "real_fd (?xs ! j) \<noteq> ch_fd c \<longleftrightarrow> j \<noteq> ?i" if j: "j < length ?xs" for j
  proof -
    from ok j obtain b d where jb: "slot_ok s j b d" by (rule poller_okE_slot)
    then have "real_fd (?xs ! j) = ch_fd d" by (simp add: slot_ok_def)
    with slot_unique [OF jb ia] show ?thesis by metis
  qed
  then have ref: "mset (remove_reference (ch_fd c) ?xs) + {#?xs ! ?i#} = mset ?xs"
    unfolding remove_reference_def by (intro filter_one_out [OF i])
  from i have "length ?xs - 1 < length ?xs" by simp
  with ok obtain b d where jb: "slot_ok s (length ?xs - 1) b d" by (rule poller_okE_slot)
  show ?thesis
  proof (cases "?i = length ?xs - 1")
    case True
    have ne: "?xs \<noteq> []" using i by auto
    then have "mset (butlast ?xs) + {#last ?xs#} = mset ?xs"
      using mset_butlast_last [OF ne] by simp
    moreover have "last ?xs = ?xs ! ?i" using ne by (simp add: True last_conv_nth)
    ultimately have "mset (butlast ?xs) = mset (remove_reference (ch_fd c) ?xs)" using ref by (metis add_right_cancel)
    then show ?thesis using remove_last_eq [OF rm ia True refl] by (simp add: drop_last_def)
  next
    case False
    with i have "mset ((butlast ?xs)[?i := last ?xs]) + {#?xs ! ?i#} = mset ?xs" by (intro mset_swap_out) simp
    with ref have "mset ((butlast ?xs)[?i := last ?xs]) = mset (remove_reference (ch_fd c) ?xs)" by (metis add_right_cancel)
    then show ?thesis using remove_moved_eq [OF rm ia refl jb False] by (simp add: move_last_def)
  qed
qed

lemma remove_filters_witness:
  "okR (\<lambda>s'. mset (pollfds s') = mset (remove_reference 3 (pollfds demo_two))) (EventLoop_removeChannel 7 1 demo_two)"
proof -
  have "removable demo_two 1 ((demo_channel 3)\<lparr>ch_events := kNoneEvent, ch_index := 0\<rparr>)"
    by (simp add: removable_def registered_def demo_two_def demo_channel_def new_channel_def isNoneEvent_def)
  from remove_filters [OF demo_two_ok this] show ?thesis
    by (simp add: demo_two_def demo_channel_def new_channel_def)
qed

end
