(* ===== verification/Threads.thy ===== *)
theory Threads
  imports Prelude Decimals
begin

text \<open>
  The latch (\<open>thread/CountDownLatch.cpp\<close>) and the cached thread number (\<open>thread/CurrentThread.h\<close>,
  \<open>thread/Thread.cpp\<close>). What a mutex protects is one step; a thread that waits on a condition is blocked
  until it is notified (or wakes up spuriously) and then tests again.
\<close>

section \<open>CountDownLatch\<close>

text \<open>\<open>l_waiters\<close>: the threads blocked in \<open>cond.wait()\<close>.\<close>

record latch =
  l_count :: int
  l_waiters :: "nat set"

definition new_latch :: "int \<Rightarrow> latch" where
  "new_latch n = \<lparr>l_count = n, l_waiters = {}\<rparr>"

text \<open>One test of the loop in \<open>wait\<close> by thread \<open>th\<close>: whether \<open>wait\<close> returns.\<close>

definition latch_wait :: "nat \<Rightarrow> latch \<Rightarrow> bool \<times> latch" where
  "latch_wait th l = (if 0 < l_count l then (False, l\<lparr>l_waiters := insert th (l_waiters l)\<rparr>) else (True, l))"

definition countDown :: "latch \<Rightarrow> latch" where
  "countDown l =
     (let l1 = l\<lparr>l_count := l_count l - 1\<rparr>
      in if l_count l1 = 0 then l1\<lparr>l_waiters := {}\<rparr> else l1)"

text \<open>What the threads do to a latch: a test in \<open>wait\<close>, a \<open>countDown\<close>, a spurious wake-up.\<close>

datatype latch_op = Wait nat | Down | Wake nat

definition latch_do :: "latch_op \<Rightarrow> latch \<Rightarrow> latch" where
  "latch_do a l = (case a of Wait th \<Rightarrow> snd (latch_wait th l) | Down \<Rightarrow> countDown l
     | Wake th \<Rightarrow> l\<lparr>l_waiters := l_waiters l - {th}\<rparr>)"

lemma latch_count: "l_count (fold latch_do as l) = l_count l - int (count_list as Down)"
proof (induction as arbitrary: l)
  case (Cons a as)
  then show ?case by (cases a) (auto simp: latch_do_def latch_wait_def countDown_def Let_def)
qed simp

lemma latch_open_step: "l_count l \<le> 0 \<Longrightarrow> l_waiters l = {} \<Longrightarrow> l_count (latch_do a l) \<le> 0 \<and> l_waiters (latch_do a l) = {}"
  by (cases a) (auto simp: latch_do_def latch_wait_def countDown_def Let_def)

lemma latch_open: "l_count l \<le> 0 \<Longrightarrow> l_waiters l = {} \<Longrightarrow> l_waiters (fold latch_do as l) = {}"
  by (induction as arbitrary: l) (use latch_open_step in auto)

text \<open>C23. A latch made for \<open>n\<close> opens at the \<open>n\<close>-th \<open>countDown\<close>, whatever the interleaving of the
  operations: from then on no thread is blocked in \<open>wait\<close> and every \<open>wait\<close> returns; before, none returns.\<close>

theorem latch_opens:
  assumes "0 < n"
  shows "(int (count_list as Down) < n \<longrightarrow> \<not> fst (latch_wait th (fold latch_do as (new_latch n))))
    \<and> (n \<le> int (count_list as Down) \<longrightarrow> fst (latch_wait th (fold latch_do as (new_latch n)))
        \<and> l_waiters (fold latch_do as (new_latch n)) = {})"
proof -
  have "l_waiters (fold latch_do as l) = {}" if "0 < l_count l" "l_count l \<le> int (count_list as Down)" for as l
    using that
  proof (induction as arbitrary: l)
    case (Cons a as)
    show ?case
    proof (cases "a = Down \<and> l_count l = 1")
      case True
      then have "l_count (latch_do a l) \<le> 0" "l_waiters (latch_do a l) = {}"
        by (simp_all add: latch_do_def countDown_def Let_def)
      then show ?thesis using latch_open by simp
    next
      case False
      then have "0 < l_count (latch_do a l)" "l_count (latch_do a l) \<le> int (count_list as Down)"
        using Cons.prems by (cases a; auto simp: latch_do_def latch_wait_def countDown_def Let_def)+
      then show ?thesis using Cons.IH by simp
    qed
  qed simp
  from this [of "new_latch n" as] show ?thesis
    using assms latch_count [of as "new_latch n"] by (auto simp: latch_wait_def new_latch_def)
qed

lemma latch_opens_witness:
  "\<not> fst (latch_wait 5 (fold latch_do [Wait 1, Down, Wait 2] (new_latch 2)))
   \<and> l_waiters (fold latch_do [Wait 1, Down, Wait 2, Down] (new_latch 2)) = {}"
  using latch_opens [of 2 "[Wait 1, Down, Wait 2]" 5] latch_opens [of 2 "[Wait 1, Down, Wait 2, Down]" 5] by simp

section \<open>CurrentThread\<close>

text \<open>The thread-local cache of the thread's number; \<open>gettid\<close> is what the kernel answers.\<close>

record thread_cache =
  t_cachedTid :: int
  t_tidString :: string
  t_tidStringLength :: nat

definition new_thread_cache :: thread_cache where
  "new_thread_cache = \<lparr>t_cachedTid = 0, t_tidString = [], t_tidStringLength = 6\<rparr>"

definition cacheTid :: "int \<Rightarrow> thread_cache \<Rightarrow> thread_cache" where
  "cacheTid gettid s =
     (if t_cachedTid s = 0
      then let text = replicate (5 - length (fmt_d gettid)) (CHR '' '') @ fmt_d gettid @ '' '' in
           s\<lparr>t_cachedTid := gettid, t_tidString := snprintf 32 text, t_tidStringLength := length text\<rparr>
      else s)"

definition current_tid :: "int \<Rightarrow> thread_cache \<Rightarrow> int \<times> thread_cache" where
  "current_tid gettid s =
     (let s1 = (if t_cachedTid s = 0 then cacheTid gettid s else s) in (t_cachedTid s1, s1))"

end
