(* ===== verification/Monitors.thy ===== *)
theory Monitors
  imports Threads
begin

text \<open>
  \<open>MutexLock\<close>, \<open>MutexGuard\<close> (\<open>thread/MutexLock.h\<close>) and \<open>Condition\<close> (\<open>thread/Condition.h\<close>) over the mutexes and
  condition variables of pthreads, as POSIX describes them, and \<open>CountDownLatch\<close> built from them, step by step,
  with any number of threads. It is shown that the latch of theory \<open>Threads\<close>, where what the mutex protects is
  one step, is what the threads see.
\<close>

section \<open>MutexLock and MutexGuard\<close>

text \<open>A mutex is the thread that holds it. \<open>lock\<close> has no result while the mutex is held: the caller blocks (for
  ever, if it holds it itself). Who does not hold it must not unlock it.\<close>

type_synonym mutex = "nat option"

definition new_mutex :: mutex where
  "new_mutex = None"

definition mutex_lock :: "nat \<Rightarrow> mutex \<Rightarrow> mutex option" where
  "mutex_lock th m = (if m = None then Some (Some th) else None)"

definition mutex_unlock :: "nat \<Rightarrow> mutex \<Rightarrow> mutex res" where
  "mutex_unlock th m = (if m = Some th then Inr None else Inl (Undefined ''unlock of a mutex that is not held''))"

definition mutex_destroy :: "mutex \<Rightarrow> unit res" where
  "mutex_destroy m = (if m = None then Inr () else Inl (Undefined ''destruction of a locked mutex''))"

definition MutexGuard_ctor :: "nat \<Rightarrow> mutex \<Rightarrow> mutex option" where
  "MutexGuard_ctor = mutex_lock"

definition MutexGuard_dtor :: "nat \<Rightarrow> mutex \<Rightarrow> mutex res" where
  "MutexGuard_dtor = mutex_unlock"

section \<open>Condition\<close>

text \<open>A condition is the set of the threads asleep on it. \<open>wait\<close> releases the mutex and falls asleep in one step;
  a thread that is no longer asleep takes the mutex again before its \<open>wait\<close> returns. A signal wakes the threads
  \<open>woken\<close>, at least one if any is asleep. \<open>waitForSeconds\<close> also wakes up at its deadline; the answer of
  \<open>pthread_cond_timedwait\<close> says why it woke up.\<close>

type_synonym cond = "nat set"

definition new_condition :: cond where
  "new_condition = {}"

definition Condition_wait :: "nat \<Rightarrow> mutex \<Rightarrow> cond \<Rightarrow> (mutex \<times> cond) res" where
  "Condition_wait th m c = bindR (mutex_unlock th m) (\<lambda>m1. Inr (m1, insert th c))"

definition Condition_awake :: "nat \<Rightarrow> mutex \<Rightarrow> cond \<Rightarrow> mutex option" where
  "Condition_awake th m c = (if th \<in> c then None else mutex_lock th m)"

definition Condition_notify :: "cond \<Rightarrow> cond \<Rightarrow> cond" where
  "Condition_notify woken c = c - woken"

definition Condition_notifyAll :: "cond \<Rightarrow> cond" where
  "Condition_notifyAll c = {}"

definition condition_destroy :: "cond \<Rightarrow> unit res" where
  "condition_destroy c = (if c = {} then Inr () else Inl (Undefined ''destruction of a condition with waiting threads''))"

text \<open>\<open>now\<close> is what \<open>clock_gettime\<close> gives, as seconds and nanoseconds; the first result is the deadline.\<close>

definition waitForSeconds ::
  "int \<times> int \<Rightarrow> int \<Rightarrow> nat \<Rightarrow> mutex \<Rightarrow> cond \<Rightarrow> ((int \<times> int) \<times> mutex \<times> cond) res" where
  "waitForSeconds now seconds th m c =
     bindR (chk64 (fst now + seconds)) (\<lambda>sec.
     bindR (Condition_wait th m c) (\<lambda>mc. Inr ((sec, snd now), mc)))"

definition ETIMEDOUT :: int where
  "ETIMEDOUT = 110"

definition waitForSeconds_result :: "int \<Rightarrow> bool" where
  "waitForSeconds_result answer = (ETIMEDOUT = answer)"

section \<open>CountDownLatch, step by step\<close>

text \<open>
  Where a thread is in a call of the latch: before the guard of \<open>wait\<close>, at the test of its loop, in
  \<open>cond.wait()\<close>, before the end of the guard; before the guard of \<open>countDown\<close>, before the decrement, before
  its test, before \<open>notifyAll\<close>, before the end of the guard.
\<close>

datatype latch_pc = Outside | WaitGuard | WaitTest | WaitAsleep | WaitLeave
  | DownGuard | Decrement | DownTest | Notifying | DownLeave | Broken fault

record mon_latch =
  mtx :: mutex
  cond :: cond
  cnt :: int
  at :: "nat \<Rightarrow> latch_pc"

definition new_mon :: "int \<Rightarrow> mon_latch" where
  "new_mon n = \<lparr>mtx = new_mutex, cond = new_condition, cnt = n, at = \<lambda>th. Outside\<rparr>"

definition go :: "nat \<Rightarrow> latch_pc \<Rightarrow> mon_latch \<Rightarrow> mon_latch" where
  "go th p s = s\<lparr>at := (at s)(th := p)\<rparr>"

definition unguard :: "nat \<Rightarrow> mon_latch \<Rightarrow> mon_latch" where
  "unguard th s = (case MutexGuard_dtor th (mtx s) of
     Inl e \<Rightarrow> go th (Broken e) s
   | Inr m \<Rightarrow> go th Outside (s\<lparr>mtx := m\<rparr>))"

text \<open>The next step of a thread, if it is in a call and not blocked.\<close>

definition mon_wait :: "nat \<Rightarrow> mon_latch \<Rightarrow> mon_latch option" where
  "mon_wait th s = (case at s th of
     WaitGuard \<Rightarrow> map_option (\<lambda>m. go th WaitTest (s\<lparr>mtx := m\<rparr>)) (MutexGuard_ctor th (mtx s))
   | WaitTest \<Rightarrow> Some (if 0 < cnt s
       then (case Condition_wait th (mtx s) (cond s) of
           Inl e \<Rightarrow> go th (Broken e) s
         | Inr (m, c) \<Rightarrow> go th WaitAsleep (s\<lparr>mtx := m, cond := c\<rparr>))
       else go th WaitLeave s)
   | WaitAsleep \<Rightarrow> map_option (\<lambda>m. go th WaitTest (s\<lparr>mtx := m\<rparr>)) (Condition_awake th (mtx s) (cond s))
   | WaitLeave \<Rightarrow> Some (unguard th s)
   | _ \<Rightarrow> None)"

definition mon_countDown :: "nat \<Rightarrow> mon_latch \<Rightarrow> mon_latch option" where
  "mon_countDown th s = (case at s th of
     DownGuard \<Rightarrow> map_option (\<lambda>m. go th Decrement (s\<lparr>mtx := m\<rparr>)) (MutexGuard_ctor th (mtx s))
   | Decrement \<Rightarrow> Some (go th DownTest (s\<lparr>cnt := cnt s - 1\<rparr>))
   | DownTest \<Rightarrow> Some (go th (if cnt s = 0 then Notifying else DownLeave) s)
   | Notifying \<Rightarrow> Some (go th DownLeave (s\<lparr>cond := Condition_notifyAll (cond s)\<rparr>))
   | DownLeave \<Rightarrow> Some (unguard th s)
   | _ \<Rightarrow> None)"

text \<open>Any thread may call an operation, go on with it, or wake up without having been notified.\<close>

inductive mon_step :: "mon_latch \<Rightarrow> mon_latch \<Rightarrow> bool" where
  call_wait: "at s th = Outside \<Longrightarrow> mon_step s (go th WaitGuard s)"
| call_countDown: "at s th = Outside \<Longrightarrow> mon_step s (go th DownGuard s)"
| in_wait: "mon_wait th s = Some s' \<Longrightarrow> mon_step s s'"
| in_countDown: "mon_countDown th s = Some s' \<Longrightarrow> mon_step s s'"
| spurious: "th \<in> cond s \<Longrightarrow> mon_step s (s\<lparr>cond := cond s - {th}\<rparr>)"

inductive_cases mon_stepE [consumes 1, case_names call_wait call_countDown in_wait in_countDown spurious]: "mon_step s s'"

lemmas mon_defs = go_def unguard_def mon_wait_def mon_countDown_def MutexGuard_ctor_def MutexGuard_dtor_def
  mutex_lock_def mutex_unlock_def Condition_wait_def Condition_awake_def Condition_notifyAll_def

section \<open>The invariant\<close>

definition guarded :: "latch_pc set" where
  "guarded = {WaitTest, WaitLeave, Decrement, DownTest, Notifying, DownLeave}"

text \<open>Between the last decrement and \<open>notifyAll\<close>.\<close>

definition opens :: "mon_latch \<Rightarrow> bool" where
  "opens s \<longleftrightarrow> (case mtx s of None \<Rightarrow> False | Some th \<Rightarrow> at s th = Notifying \<or> at s th = DownTest \<and> cnt s = 0)"

definition mon_ok :: "mon_latch \<Rightarrow> bool" where
  "mon_ok s \<longleftrightarrow> (\<forall>th. mtx s = Some th \<longleftrightarrow> at s th \<in> guarded) \<and> (\<forall>th\<in>cond s. at s th = WaitAsleep)
     \<and> (\<forall>th e. at s th \<noteq> Broken e) \<and> (\<forall>th. at s th = WaitLeave \<longrightarrow> cnt s \<le> 0)
     \<and> (\<forall>th. at s th = Notifying \<longrightarrow> cnt s = 0) \<and> (cnt s \<le> 0 \<longrightarrow> \<not> opens s \<longrightarrow> cond s = {})"

definition latch_of :: "mon_latch \<Rightarrow> latch" where
  "latch_of s = \<lparr>l_count = cnt s, l_waiters = (if opens s then {} else cond s)\<rparr>"

lemma mon_ok_new: "0 < n \<Longrightarrow> mon_ok (new_mon n)"
  by (simp add: mon_ok_def new_mon_def new_mutex_def new_condition_def guarded_def)

lemma latch_of_new: "latch_of (new_mon n) = new_latch n"
  by (simp add: latch_of_def new_mon_def opens_def new_mutex_def new_condition_def new_latch_def)

text \<open>Which operation of the atomic latch a step of a thread is, if any: the test of the loop in \<open>wait\<close> is a
  \<open>Wait\<close>, the decrement is a \<open>Down\<close>, all else that a thread does is none.\<close>

definition wait_op :: "nat \<Rightarrow> mon_latch \<Rightarrow> latch_op list" where
  "wait_op th s = (if at s th = WaitTest then [Wait th] else [])"

definition down_op :: "nat \<Rightarrow> mon_latch \<Rightarrow> latch_op list" where
  "down_op th s = (if at s th = Decrement then [Down] else [])"

definition simulated :: "latch_op list \<Rightarrow> mon_latch \<Rightarrow> mon_latch \<Rightarrow> bool" where
  "simulated as s s' \<longleftrightarrow> mon_ok s' \<and> latch_of s' = fold latch_do as (latch_of s)"

text \<open>A run with its trace: the atomic operations in their order, and how often \<open>countDown\<close> was called.\<close>

inductive mon_exec :: "mon_latch \<Rightarrow> latch_op list \<Rightarrow> nat \<Rightarrow> mon_latch \<Rightarrow> bool" where
  at_first: "mon_exec s [] 0 s"
| exec_call_wait: "mon_exec s as k s1 \<Longrightarrow> at s1 th = Outside \<Longrightarrow> mon_exec s as k (go th WaitGuard s1)"
| exec_call_countDown: "mon_exec s as k s1 \<Longrightarrow> at s1 th = Outside \<Longrightarrow> mon_exec s as (Suc k) (go th DownGuard s1)"
| exec_wait: "mon_exec s as k s1 \<Longrightarrow> mon_wait th s1 = Some s2 \<Longrightarrow> mon_exec s (as @ wait_op th s1) k s2"
| exec_countDown: "mon_exec s as k s1 \<Longrightarrow> mon_countDown th s1 = Some s2 \<Longrightarrow> mon_exec s (as @ down_op th s1) k s2"
| exec_spurious: "mon_exec s as k s1 \<Longrightarrow> th \<in> cond s1 \<Longrightarrow> mon_exec s (as @ [Wake th]) k (s1\<lparr>cond := cond s1 - {th}\<rparr>)"

lemma mon_exec_eq: "mon_exec s as k s1 \<Longrightarrow> as = bs \<Longrightarrow> mon_exec s bs k s1"
  by simp

lemma mon_exec_step: "mon_exec s as k s1 \<Longrightarrow> mon_step s1 s2 \<Longrightarrow> \<exists>as k. mon_exec s as k s2"
  by (elim mon_stepE) (blast intro: mon_exec.intros)+

lemma mon_run_exec: "mon_step\<^sup>*\<^sup>* s s1 \<Longrightarrow> \<exists>as k. mon_exec s as k s1"
  by (induction rule: rtranclp_induct) (blast intro: at_first mon_exec_step)+

lemma mon_exec_run: "mon_exec s as k s1 \<Longrightarrow> mon_step\<^sup>*\<^sup>* s s1"
  by (induction rule: mon_exec.induct) (blast intro: mon_step.intros rtranclp.rtrancl_into_rtrancl)+

lemma mon_okD:
  assumes "mon_ok s"
  shows "mtx s = Some th \<longleftrightarrow> at s th \<in> guarded" "th \<in> cond s \<Longrightarrow> at s th = WaitAsleep" "at s th \<noteq> Broken e"
    "at s th = WaitLeave \<Longrightarrow> cnt s \<le> 0" "at s th = Notifying \<Longrightarrow> cnt s = 0" "cnt s \<le> 0 \<Longrightarrow> \<not> opens s \<Longrightarrow> cond s = {}"
  using assms unfolding mon_ok_def by blast+

lemma mon_okI:
  assumes "\<And>th. mtx s = Some th \<longleftrightarrow> at s th \<in> guarded" "\<And>th. th \<in> cond s \<Longrightarrow> at s th = WaitAsleep"
    "\<And>th e. at s th \<noteq> Broken e" "\<And>th. at s th = WaitLeave \<Longrightarrow> cnt s \<le> 0" "\<And>th. at s th = Notifying \<Longrightarrow> cnt s = 0"
    "cnt s \<le> 0 \<Longrightarrow> \<not> opens s \<Longrightarrow> cond s = {}"
  shows "mon_ok s"
  unfolding mon_ok_def by (intro conjI allI ballI impI assms(1,3); (rule assms; assumption)?)

text \<open>A thread without the mutex moves on, the mutex stays with whom it is.\<close>

lemma sim_enter:
  assumes ok: "mon_ok s" and p: "at s th \<notin> guarded" "th \<notin> cond s" "p \<notin> guarded" "\<And>e. p \<noteq> Broken e"
  shows "simulated [] s (go th p s)"
proof -
  note D = mon_okD [OF ok]
  have other: "mtx s \<noteq> Some th" using D(1) p(1) by simp
  then have same: "opens (go th p s) = opens s" by (auto simp: opens_def go_def split: option.split)
  then have "latch_of (go th p s) = latch_of s" by (simp add: latch_of_def go_def)
  moreover have "mon_ok (go th p s)"
  proof (rule mon_okI)
    show "cnt (go th p s) \<le> 0 \<Longrightarrow> \<not> opens (go th p s) \<Longrightarrow> cond (go th p s) = {}"
      unfolding same using D(6) by (simp add: go_def)
    show "mtx (go th p s) = Some j \<longleftrightarrow> at (go th p s) j \<in> guarded" for j using D(1) [of j] other p(1,3) by (simp add: go_def)
    show "at (go th p s) j = WaitAsleep" if "j \<in> cond (go th p s)" for j using that p(2) D(2) by (auto simp: go_def)
    show "at (go th p s) j \<noteq> Broken e" for j e using p(4) D(3) by (simp add: go_def)
    have "p \<noteq> WaitLeave" "p \<noteq> Notifying" using p(3) by (auto simp: guarded_def)
    then show "at (go th p s) j = WaitLeave \<Longrightarrow> cnt (go th p s) \<le> 0" "at (go th p s) j = Notifying \<Longrightarrow> cnt (go th p s) = 0" for j
      using D(4,5) by (simp_all add: go_def split: if_splits)
  qed
  ultimately show ?thesis by (simp add: simulated_def)
qed

text \<open>A thread that holds the mutex, or takes it, moves on; nobody else is in the guarded part.\<close>

definition wakes :: "latch_pc \<Rightarrow> int \<Rightarrow> bool" where
  "wakes p n \<longleftrightarrow> p = Notifying \<or> p = DownTest \<and> n = 0"

lemma mon_ok_turn:
  assumes ok: "mon_ok s" and m: "mtx s = None \<or> mtx s = Some th"
    and s': "mtx s' = (if p \<in> guarded then Some th else None)" "at s' = (at s)(th := p)"
    and c: "cond s' - {th} \<subseteq> cond s" "th \<in> cond s' \<Longrightarrow> p = WaitAsleep"
    and p: "\<And>e. p \<noteq> Broken e" "p = WaitLeave \<Longrightarrow> cnt s' \<le> 0" "p = Notifying \<Longrightarrow> cnt s' = 0"
    and w: "cnt s' \<le> 0 \<Longrightarrow> \<not> wakes p (cnt s') \<Longrightarrow> cond s' = {}"
  shows "mon_ok s' \<and> opens s' = wakes p (cnt s')"
proof -
  note D = mon_okD [OF ok]
  have out: "at s j \<notin> guarded" if "j \<noteq> th" for j using D(1) [of j] m that by auto
  then have ne: "at s j \<noteq> WaitLeave" "at s j \<noteq> Notifying" if "j \<noteq> th" for j using that by (force simp: guarded_def)+
  have o: "opens s' = wakes p (cnt s')" by (simp add: opens_def s' wakes_def guarded_def)
  have "mon_ok s'"
  proof (rule mon_okI)
    show "mtx s' = Some j \<longleftrightarrow> at s' j \<in> guarded" for j using out by (simp add: s')
    show "at s' j = WaitAsleep" if "j \<in> cond s'" for j using that c D(2) by (auto simp: s')
    show "at s' j \<noteq> Broken e" for j e using p(1) D(3) by (simp add: s')
    show "at s' j = WaitLeave \<Longrightarrow> cnt s' \<le> 0" for j using p(2) ne by (simp add: s' split: if_splits)
    show "at s' j = Notifying \<Longrightarrow> cnt s' = 0" for j using p(3) ne by (simp add: s' split: if_splits)
    show "cnt s' \<le> 0 \<Longrightarrow> \<not> opens s' \<Longrightarrow> cond s' = {}" using w o by simp
  qed
  with o show ?thesis by simp
qed

lemma opens_held: "mtx s = Some th \<Longrightarrow> opens s = wakes (at s th) (cnt s)" "mtx s = None \<Longrightarrow> \<not> opens s"
  by (simp_all add: opens_def wakes_def)

text \<open>The state after a turn of thread \<open>th\<close>, which goes to \<open>p\<close>.\<close>

definition turn :: "nat \<Rightarrow> latch_pc \<Rightarrow> cond \<Rightarrow> int \<Rightarrow> mon_latch \<Rightarrow> mon_latch" where
  "turn th p c n s = go th p (s\<lparr>mtx := if p \<in> guarded then Some th else None, cond := c, cnt := n\<rparr>)"

lemma sim_turn:
  assumes ok: "mon_ok s" and m: "mtx s = None \<or> mtx s = Some th"
    and c: "c - {th} \<subseteq> cond s" "th \<in> c \<Longrightarrow> p = WaitAsleep"
    and p: "\<And>e. p \<noteq> Broken e" "p = WaitLeave \<Longrightarrow> n \<le> 0" "p = Notifying \<Longrightarrow> n = 0"
    and w: "n \<le> 0 \<Longrightarrow> \<not> wakes p n \<Longrightarrow> c = {}"
    and l: "\<lparr>l_count = n, l_waiters = if wakes p n then {} else c\<rparr> = fold latch_do as (latch_of s)"
  shows "simulated as s (turn th p c n s)"
proof -
  let ?s = "turn th p c n s"
  have F: "mtx ?s = (if p \<in> guarded then Some th else None)" "at ?s = (at s)(th := p)" "cond ?s = c" "cnt ?s = n"
    by (simp_all add: turn_def go_def)
  have "mon_ok ?s \<and> opens ?s = wakes p (cnt ?s)"
    by (rule mon_ok_turn [OF ok m], unfold F) (fact refl c p w)+
  then have "mon_ok ?s" "latch_of ?s = fold latch_do as (latch_of s)"
    using l latch_of_def [of ?s] by (simp_all add: F split: if_splits)
  then show ?thesis unfolding simulated_def by blast
qed

lemma sim_wait:
  assumes ok: "mon_ok s" and s': "mon_wait th s = Some s'"
  shows "simulated (wait_op th s) s s'"
proof -
  note D = mon_okD [OF ok]
  have calm: "at s th = WaitTest \<or> at s th = WaitLeave \<Longrightarrow> \<not> opens s \<and> mtx s = Some th"
    using iffD2 [OF D(1) [of th]] opens_held(1) [of s th] by (auto simp: guarded_def wakes_def)
  have free: "mtx s = None \<Longrightarrow> cnt s \<le> 0 \<Longrightarrow> cond s = {}" using D(6) opens_held(2) [of s] by blast
  have same: "\<not> opens s \<Longrightarrow> latch_of s = \<lparr>l_count = cnt s, l_waiters = cond s\<rparr>" by (simp add: latch_of_def)
  show ?thesis
  proof (cases "at s th")
    case WaitGuard
    with s' have m: "mtx s = None" and s'': "s' = turn th WaitTest (cond s) (cnt s) s"
      by (auto simp: mon_defs turn_def guarded_def split: if_splits)
    have "th \<notin> cond s" using D(2) [of th] WaitGuard by auto
    with WaitGuard m free same opens_held(2) [OF m] show ?thesis unfolding s''
      by (intro sim_turn ok) (auto simp: wakes_def wait_op_def latch_do_def latch_wait_def)
  next
    case WaitAsleep
    with s' have m: "mtx s = None" "th \<notin> cond s" and s'': "s' = turn th WaitTest (cond s) (cnt s) s"
      by (auto simp: mon_defs turn_def guarded_def split: if_splits)
    with WaitAsleep free same opens_held(2) [OF m(1)] show ?thesis unfolding s''
      by (intro sim_turn ok) (auto simp: wakes_def wait_op_def latch_do_def latch_wait_def)
  next
    case WaitTest
    note h = calm [OF disjI1 [OF this]]
    show ?thesis
    proof (cases "0 < cnt s")
      case True
      with s' WaitTest h have s'': "s' = turn th WaitAsleep (insert th (cond s)) (cnt s) s"
        by (auto simp: mon_defs turn_def guarded_def)
      from True h same WaitTest show ?thesis unfolding s''
        by (intro sim_turn ok) (auto simp: wakes_def wait_op_def latch_do_def latch_wait_def)
    next
      case False
      with s' WaitTest h have s'': "s' = turn th WaitLeave (cond s) (cnt s) s"
        by (auto simp: mon_defs turn_def guarded_def)
      from False h same D(6) WaitTest show ?thesis unfolding s''
        by (intro sim_turn ok) (auto simp: wakes_def wait_op_def latch_do_def latch_wait_def)
    qed
  next
    case WaitLeave
    note h = calm [OF disjI2 [OF this]]
    with s' WaitLeave have s'': "s' = turn th Outside (cond s) (cnt s) s"
      by (auto simp: mon_defs turn_def guarded_def)
    have "cond s = {}" using D(4) [of th] D(6) WaitLeave h by blast
    with WaitLeave h same show ?thesis unfolding s''
      by (intro sim_turn ok) (auto simp: wakes_def wait_op_def latch_do_def latch_wait_def)
  qed (use s' in \<open>simp_all add: mon_wait_def\<close>)
qed

lemma sim_countDown:
  assumes ok: "mon_ok s" and s': "mon_countDown th s = Some s'"
  shows "simulated (down_op th s) s s'"
proof -
  note D = mon_okD [OF ok]
  have held: "at s th \<in> guarded \<Longrightarrow> mtx s = Some th \<and> opens s = wakes (at s th) (cnt s)"
    using iffD2 [OF D(1) [of th]] opens_held(1) [of s th] by simp
  show ?thesis
  proof (cases "at s th")
    case DownGuard
    with s' have m: "mtx s = None" and s'': "s' = turn th Decrement (cond s) (cnt s) s"
      by (auto simp: mon_defs turn_def guarded_def split: if_splits)
    have "th \<notin> cond s" using D(2) [of th] DownGuard by auto
    with DownGuard m D(6) opens_held(2) [OF m] show ?thesis unfolding s''
      by (intro sim_turn ok) (auto simp: wakes_def down_op_def latch_of_def)
  next
    case Decrement
    then have h: "mtx s = Some th" "\<not> opens s" using held by (simp_all add: guarded_def wakes_def)
    from s' Decrement h have s'': "s' = turn th DownTest (cond s) (cnt s - 1) s"
      by (auto simp: mon_defs turn_def guarded_def)
    have "th \<notin> cond s" using D(2) [of th] Decrement by auto
    with Decrement h D(6) show ?thesis unfolding s''
      by (intro sim_turn ok) (auto simp: wakes_def down_op_def latch_of_def latch_do_def countDown_def Let_def)
  next
    case DownTest
    then have h: "mtx s = Some th" "opens s = (cnt s = 0)" using held by (simp_all add: guarded_def wakes_def)
    from s' DownTest h have s'': "s' = turn th (if cnt s = 0 then Notifying else DownLeave) (cond s) (cnt s) s"
      by (auto simp: mon_defs turn_def guarded_def)
    have "th \<notin> cond s" using D(2) [of th] DownTest by auto
    with DownTest h D(6) show ?thesis unfolding s''
      by (intro sim_turn ok) (auto simp: wakes_def down_op_def latch_of_def split: if_splits)
  next
    case Notifying
    then have h: "mtx s = Some th" "opens s" "cnt s = 0" using held D(5) [of th] by (simp_all add: guarded_def wakes_def)
    from s' Notifying h have s'': "s' = turn th DownLeave {} (cnt s) s"
      by (auto simp: mon_defs turn_def guarded_def)
    from Notifying h show ?thesis unfolding s''
      by (intro sim_turn ok) (auto simp: wakes_def down_op_def latch_of_def)
  next
    case DownLeave
    then have h: "mtx s = Some th" "\<not> opens s" using held by (simp_all add: guarded_def wakes_def)
    from s' DownLeave h have s'': "s' = turn th Outside (cond s) (cnt s) s"
      by (auto simp: mon_defs turn_def guarded_def)
    have "th \<notin> cond s" using D(2) [of th] DownLeave by auto
    with DownLeave h D(6) show ?thesis unfolding s''
      by (intro sim_turn ok) (auto simp: wakes_def down_op_def latch_of_def)
  qed (use s' in \<open>simp_all add: mon_countDown_def\<close>)
qed

lemma sim_spurious:
  assumes ok: "mon_ok s"
  shows "simulated [Wake th] s (s\<lparr>cond := cond s - {th}\<rparr>)"
proof -
  let ?s = "s\<lparr>cond := cond s - {th}\<rparr>"
  have o: "opens ?s = opens s" by (simp add: opens_def split: option.split)
  note D = mon_okD [OF ok]
  have "latch_of ?s = latch_do (Wake th) (latch_of s)" using o by (simp add: latch_of_def latch_do_def)
  moreover have "mon_ok ?s"
  proof (rule mon_okI)
    show "mtx ?s = Some j \<longleftrightarrow> at ?s j \<in> guarded" for j using D(1) [of j] by simp
    show "j \<in> cond ?s \<Longrightarrow> at ?s j = WaitAsleep" for j using D(2) [of j] by simp
    show "at ?s j \<noteq> Broken e" for j e using D(3) [of j e] by simp
    show "at ?s j = WaitLeave \<Longrightarrow> cnt ?s \<le> 0" "at ?s j = Notifying \<Longrightarrow> cnt ?s = 0" for j using D(4,5) [of j] by simp_all
    show "cnt ?s \<le> 0 \<Longrightarrow> \<not> opens ?s \<Longrightarrow> cond ?s = {}" unfolding o using D(6) by simp
  qed
  ultimately show ?thesis by (simp add: simulated_def)
qed

lemma sim_call:
  assumes ok: "mon_ok s" and out: "at s th = Outside"
  shows "simulated [] s (go th WaitGuard s)" "simulated [] s (go th DownGuard s)"
proof -
  have "th \<notin> cond s" using mon_okD(2) [OF ok, of th] out by auto
  with ok out show "simulated [] s (go th WaitGuard s)" "simulated [] s (go th DownGuard s)"
    by (simp_all add: sim_enter guarded_def)
qed

lemma simulated_trans: "simulated as s s1 \<Longrightarrow> simulated bs s1 s2 \<Longrightarrow> simulated (as @ bs) s s2"
  by (simp add: simulated_def)

lemma simulated_ok: "simulated as s s1 \<Longrightarrow> mon_ok s1"
  by (simp add: simulated_def)

lemma mon_exec_sim:
  assumes "mon_exec s as k s'" "mon_ok s"
  shows "simulated as s s'"
  using assms
proof (induction rule: mon_exec.induct)
  case (at_first s)
  then show ?case by (simp add: simulated_def)
next
  case (exec_call_wait s as k s1 th)
  then have IH: "simulated as s s1" by blast
  from simulated_trans [OF IH sim_call(1) [OF simulated_ok [OF IH] exec_call_wait.hyps(2)]] show ?case by simp
next
  case (exec_call_countDown s as k s1 th)
  then have IH: "simulated as s s1" by blast
  from simulated_trans [OF IH sim_call(2) [OF simulated_ok [OF IH] exec_call_countDown.hyps(2)]] show ?case by simp
qed (blast intro: simulated_trans simulated_ok sim_wait sim_countDown sim_spurious)+

lemma mon_reachable:
  assumes "mon_step\<^sup>*\<^sup>* (new_mon n) s" and "0 < n"
  shows "mon_ok s"
  using mon_run_exec [OF assms(1)] mon_exec_sim [OF _ mon_ok_new [OF assms(2)]] simulated_ok by blast

text \<open>Each call of \<open>countDown\<close> has decremented the count, once, or is still before its decrement.\<close>

definition owing :: "mon_latch \<Rightarrow> nat set" where
  "owing s = {th. at s th \<in> {DownGuard, Decrement}}"

lemma owing_go: "owing (go th p s) = (if p \<in> {DownGuard, Decrement} then insert th (owing s) else owing s - {th})"
  by (auto simp: owing_def go_def)

lemma owing_wait: "mon_wait th s = Some s' \<Longrightarrow> owing s' = owing s"
  by (cases "at s th") (auto simp: owing_def mon_defs split: if_splits option.splits sum.splits)

lemma owing_countDown:
  "mon_countDown th s = Some s' \<Longrightarrow> owing s' = (if at s th = Decrement then owing s - {th} else owing s)"
  by (cases "at s th") (auto simp: owing_def mon_defs split: if_splits option.splits sum.splits)

lemma mon_exec_owing:
  assumes "mon_exec s as k s'" "owing s = {}"
  shows "finite (owing s') \<and> count_list as Down + card (owing s') = k"
  using assms
proof (induction rule: mon_exec.induct)
  case (exec_call_countDown s as k s1 th)
  then have "th \<notin> owing s1" by (simp add: owing_def)
  with exec_call_countDown show ?case by (simp add: owing_go)
next
  case (exec_call_wait s as k s1 th)
  then have "th \<notin> owing s1" by (simp add: owing_def)
  with exec_call_wait show ?case by (simp add: owing_go)
next
  case (exec_wait s as k s1 th s2)
  then show ?case by (simp add: owing_wait wait_op_def)
next
  case (exec_countDown s as k s1 th s2)
  show ?case
  proof (cases "at s1 th = Decrement")
    case True
    then have "th \<in> owing s1" by (simp add: owing_def)
    with exec_countDown True owing_countDown [OF exec_countDown.hyps(2)] card_Suc_Diff1 [of "owing s1" th] show ?thesis
      by (simp add: down_op_def)
  next
    case False
    with exec_countDown owing_countDown [OF exec_countDown.hyps(2)] show ?thesis by (simp add: down_op_def)
  qed
next
  case (exec_spurious s as k s1 th)
  then show ?case by (simp add: owing_def)
qed simp

section \<open>What is left when the latch is open\<close>

definition inner :: "mon_latch \<Rightarrow> mon_latch \<Rightarrow> bool" where
  "inner s s' \<longleftrightarrow> (\<exists>th. mon_wait th s = Some s' \<or> mon_countDown th s = Some s')"

fun pc_rank :: "latch_pc \<Rightarrow> nat" where
  "pc_rank DownGuard = 5" | "pc_rank Decrement = 4" | "pc_rank DownTest = 3" | "pc_rank Notifying = 2" | "pc_rank DownLeave = 1"
| "pc_rank WaitGuard = 3" | "pc_rank WaitAsleep = 3" | "pc_rank WaitTest = 2" | "pc_rank WaitLeave = 1"
| "pc_rank _ = 0"

lemma pc_rank_le: "pc_rank p \<le> 5"
  by (cases p) simp_all

lemma inner_sim: "mon_ok s \<Longrightarrow> inner s s' \<Longrightarrow> mon_ok s'"
  unfolding inner_def using sim_wait sim_countDown simulated_ok by blast

text \<open>A step of an open latch takes one thread closer to its return.\<close>

lemma inner_move:
  assumes ok: "mon_ok s" and open_latch: "cnt s \<le> 0" and i: "inner s s'"
  obtains th p where "at s' = (at s)(th := p)" "pc_rank p < pc_rank (at s th)" "cnt s' \<le> 0"
proof -
  from i obtain th where s': "mon_wait th s = Some s' \<or> mon_countDown th s = Some s'" by (auto simp: inner_def)
  have held: "at s th \<in> guarded \<Longrightarrow> mtx s = Some th" using mon_okD(1) [OF ok, of th] by simp
  have "\<exists>p. at s' = (at s)(th := p) \<and> pc_rank p < pc_rank (at s th) \<and> cnt s' \<le> 0"
    using s' held open_latch by (cases "at s th") (auto simp: mon_defs guarded_def split: if_splits)
  with that show thesis by blast
qed

lemma inner_ready:
  assumes ok: "mon_ok s" and open_latch: "cnt s \<le> 0" and th: "at s th \<noteq> Outside"
  shows "\<exists>s'. inner s s'"
proof (cases "mtx s")
  case None
  then have "cond s = {}" using mon_okD(6) [OF ok open_latch] opens_held(2) by blast
  moreover have "at s th \<notin> guarded" using None mon_okD(1) [OF ok, of th] by simp
  moreover have "\<forall>e. at s th \<noteq> Broken e" using mon_okD(3) [OF ok] by blast
  ultimately have "\<exists>s'. mon_wait th s = Some s' \<or> mon_countDown th s = Some s'"
    using th None by (cases "at s th") (simp_all add: mon_defs guarded_def)
  then show ?thesis unfolding inner_def by blast
next
  case (Some h)
  then have "at s h \<in> guarded" using mon_okD(1) [OF ok, of h] by simp
  then have "\<exists>s'. mon_wait h s = Some s' \<or> mon_countDown h s = Some s'"
    by (auto simp: guarded_def mon_wait_def mon_countDown_def)
  then show ?thesis unfolding inner_def by blast
qed

definition mon_rank :: "nat set \<Rightarrow> mon_latch \<Rightarrow> nat" where
  "mon_rank A s = (\<Sum>th\<in>A. pc_rank (at s th))"

lemma inner_bounded:
  assumes "(inner ^^ k) s s'" "mon_ok s" "cnt s \<le> 0" "finite A" "\<And>th. th \<notin> A \<Longrightarrow> at s th = Outside"
  shows "k + mon_rank A s' \<le> mon_rank A s \<and> mon_ok s' \<and> cnt s' \<le> 0"
  using assms
proof (induction k arbitrary: s)
  case (Suc k)
  from Suc.prems(1) obtain s1 where s1: "inner s s1" "(inner ^^ k) s1 s'" by (metis relpowp_Suc_D2)
  from inner_move [OF Suc.prems(2,3) s1(1)] obtain th p where
    p: "at s1 = (at s)(th := p)" "pc_rank p < pc_rank (at s th)" "cnt s1 \<le> 0" by blast
  have A: "th \<in> A" using p(2) Suc.prems(5) [of th] by (cases "th \<in> A") simp_all
  have "mon_rank A s1 < mon_rank A s"
    unfolding mon_rank_def using A p Suc.prems(4) by (intro sum_strict_mono_ex1) auto
  moreover have "k + mon_rank A s' \<le> mon_rank A s1 \<and> mon_ok s' \<and> cnt s' \<le> 0"
    by (rule Suc.IH [OF s1(2) inner_sim [OF Suc.prems(2) s1(1)] p(3) Suc.prems(4)]) (use Suc.prems(5) A in \<open>auto simp: p(1)\<close>)
  ultimately show ?case by simp
qed simp

text \<open>C21. The latch with its mutex and condition is the atomic latch: whatever any number of threads do to a new
  latch, step by step and with spurious wake-ups, its count and its sleepers are those of the atomic operations of
  the trace, one \<open>Wait\<close> for each test of the loop in \<open>wait\<close>, with the same answer, and one \<open>Down\<close> for each
  decrement. Each call of \<open>countDown\<close> takes one off the count, once, unless it is still waiting for the mutex or
  before its decrement. At most one thread is between the guards, a mutex is only unlocked, or waited with, by the
  thread that holds it, no \<open>wait\<close> returns before the count is zero, and no thread sleeps on when it is.\<close>

theorem latch_monitor:
  assumes run: "mon_exec (new_mon n) as k s" and n: "0 < n"
  shows "latch_of s = fold latch_do as (new_latch n)
    \<and> cnt s = n - int (count_list as Down)
    \<and> count_list as Down + card {th. at s th \<in> {DownGuard, Decrement}} = k
    \<and> (\<forall>th s'. mon_wait th s = Some s' \<and> at s th = WaitTest
        \<longrightarrow> (at s' th = WaitLeave \<longleftrightarrow> fst (latch_wait th (latch_of s))) \<and> (at s' th = WaitAsleep \<longleftrightarrow> 0 < cnt s))
    \<and> (\<forall>th s'. mon_wait th s = Some s' \<and> at s' th = Outside \<longrightarrow> cnt s \<le> 0)
    \<and> (\<forall>th th'. at s th \<in> guarded \<and> at s th' \<in> guarded \<longrightarrow> th = th') \<and> (\<forall>th e. at s th \<noteq> Broken e)
    \<and> (\<forall>th. at s th = WaitLeave \<longrightarrow> cnt s \<le> 0) \<and> (cnt s \<le> 0 \<and> mtx s = None \<longrightarrow> cond s = {})"
proof -
  from mon_exec_sim [OF run mon_ok_new [OF n]] have ok: "mon_ok s" and r: "latch_of s = fold latch_do as (new_latch n)"
    by (simp_all add: simulated_def latch_of_new)
  have "cnt s = l_count (latch_of s)" by (simp add: latch_of_def)
  then have c: "cnt s = n - int (count_list as Down)" unfolding r latch_count by (simp add: new_latch_def)
  have "owing (new_mon n) = {}" by (simp add: owing_def new_mon_def)
  then have k: "count_list as Down + card {th. at s th \<in> {DownGuard, Decrement}} = k"
    using mon_exec_owing [OF run] by (simp add: owing_def)
  note D = mon_okD [OF ok]
  have t: "(at s' th = WaitLeave \<longleftrightarrow> fst (latch_wait th (latch_of s))) \<and> (at s' th = WaitAsleep \<longleftrightarrow> 0 < cnt s)"
    if "mon_wait th s = Some s'" "at s th = WaitTest" for th s'
  proof -
    have "mtx s = Some th" using D(1) [of th] that(2) by (simp add: guarded_def)
    with that show ?thesis by (auto simp: mon_defs latch_wait_def latch_of_def)
  qed
  have e: "cnt s \<le> 0" if "mon_wait th s = Some s'" "at s' th = Outside" for th s'
    using that D(4) [of th] by (cases "at s th") (auto simp: mon_defs split: if_splits option.splits sum.splits)
  have "th = th'" if "at s th \<in> guarded" "at s th' \<in> guarded" for th th' using that D(1) [symmetric] by simp
  moreover have "cond s = {}" if "cnt s \<le> 0" "mtx s = None" using D(6) that opens_held(2) by blast
  ultimately show ?thesis using r c k t e D(3,4) by blast
qed

text \<open>Thread 2 sleeps, thread 3 has counted down and is about to notify it.\<close>

definition demo_mon :: mon_latch where
  "demo_mon = go 3 Notifying (go 2 WaitAsleep ((new_mon 1)\<lparr>mtx := Some 3, cond := {2}, cnt := 0\<rparr>))"

lemma demo_mon_exec: "mon_exec (new_mon 1) [Wait 2, Down] 1 demo_mon"
proof -
  let ?n = "new_mon 1"
  let ?a = "go 2 WaitGuard ?n" and ?b = "go 2 WaitTest (?n\<lparr>mtx := Some 2\<rparr>)"
    and ?c = "go 2 WaitAsleep (?n\<lparr>cond := {2}\<rparr>)"
  let ?d = "go 3 DownGuard ?c" and ?e = "go 3 Decrement (?c\<lparr>mtx := Some 3\<rparr>)"
    and ?f = "go 3 DownTest (?c\<lparr>mtx := Some 3, cnt := 0\<rparr>)"
  note defs = mon_defs new_mon_def new_mutex_def new_condition_def wait_op_def down_op_def
  have "mon_exec ?n [] 0 ?a" by (rule exec_call_wait [OF at_first]) (simp add: defs)
  then have "mon_exec ?n [] 0 ?b" by (rule exec_wait [where th = 2, THEN mon_exec_eq]) (simp_all add: defs)
  then have "mon_exec ?n [Wait 2] 0 ?c" by (rule exec_wait [where th = 2, THEN mon_exec_eq]) (simp_all add: defs)
  then have "mon_exec ?n [Wait 2] (Suc 0) ?d" by (rule exec_call_countDown) (simp add: defs)
  then have "mon_exec ?n [Wait 2] (Suc 0) ?e" by (rule exec_countDown [where th = 3, THEN mon_exec_eq]) (simp_all add: defs)
  then have "mon_exec ?n [Wait 2, Down] (Suc 0) ?f" by (rule exec_countDown [where th = 3, THEN mon_exec_eq]) (simp_all add: defs)
  then have "mon_exec ?n [Wait 2, Down] (Suc 0) demo_mon"
    by (rule exec_countDown [where th = 3, THEN mon_exec_eq]) (simp_all add: defs demo_mon_def fun_upd_twist)
  then show ?thesis by simp
qed

lemmas demo_mon_reachable = mon_exec_run [OF demo_mon_exec]

lemma latch_monitor_witness:
  "latch_of demo_mon = fold latch_do [Wait 2, Down] (new_latch 1) \<and> cnt demo_mon = 0"
  using latch_monitor [OF demo_mon_exec] by simp

text \<open>C22. When the count is zero every call returns: if finitely many threads are inside and no further ones
  come, after at most five steps for each of them nobody is left, and until then some thread can go on.\<close>

theorem latch_releases:
  assumes run: "mon_step\<^sup>*\<^sup>* (new_mon n) s" and n: "0 < n" and open_latch: "cnt s \<le> 0"
    and fin: "finite {th. at s th \<noteq> Outside}" and steps: "(inner ^^ k) s s'"
  shows "k \<le> 5 * card {th. at s th \<noteq> Outside} \<and> ((\<nexists>s''. inner s' s'') \<longrightarrow> (\<forall>th. at s' th = Outside))"
proof -
  let ?A = "{th. at s th \<noteq> Outside}"
  have ok: "mon_ok s" using mon_reachable [OF run n] .
  have "k + mon_rank ?A s' \<le> mon_rank ?A s \<and> mon_ok s' \<and> cnt s' \<le> 0"
    by (rule inner_bounded [OF steps ok open_latch fin]) simp
  moreover have "mon_rank ?A s \<le> 5 * card ?A"
    unfolding mon_rank_def using sum_bounded_above [of ?A "\<lambda>th. pc_rank (at s th)" 5] pc_rank_le by (simp add: mult.commute)
  ultimately have "k \<le> 5 * card ?A" and s': "mon_ok s'" "cnt s' \<le> 0" by simp_all
  with inner_ready [OF s'] show ?thesis by blast
qed

lemma latch_releases_witness:
  "\<forall>s'. \<not> (inner ^^ 11) demo_mon s'"
proof
  fix s'
  have A: "{th. at demo_mon th \<noteq> Outside} = {2, 3}" by (auto simp: demo_mon_def go_def new_mon_def)
  have "cnt demo_mon \<le> 0" by (simp add: demo_mon_def go_def)
  from latch_releases [OF demo_mon_reachable _ this, of 11 s'] show "\<not> (inner ^^ 11) demo_mon s'" by (auto simp: A)
qed

end
