(* ===== verification/LoopThreads.thy ===== *)
theory LoopThreads
  imports Threads
begin

text \<open>
  \<open>EventLoopThread\<close> (\<open>EventLoopThread.cpp\<close>) with the \<open>Thread\<close> it owns (\<open>thread/Thread.cpp\<close>): the thread
  that creates the object, calls \<open>startLoop\<close> and destroys it, and the thread with the loop. It is shown
  when \<open>startLoop\<close> returns and what it returns, and how it and the destructor can wait for ever. The two
  threads form a step relation; what a mutex protects is one step.
\<close>

section \<open>State\<close>

text \<open>
  Where the caller is: before \<open>startLoop\<close> or in \<open>Thread::start\<close>; in \<open>latch.wait()\<close>, before a test or
  blocked; before \<open>assert(tid > 0)\<close>; in the loop on \<open>cond_\<close> of \<open>startLoop\<close>; with \<open>startLoop\<close> returned;
  in \<open>join\<close>; and after the destructor.
\<close>

datatype caller = InStart | AtLatch | BlockedOnLatch | CheckTid | AtLoop | BlockedOnLoop | GotLoop | InJoin
  | Destroyed | Failed fault

text \<open>
  What the new thread does next: store its number, count the latch down, set its name, construct the
  loop on its stack, publish its address, call \<open>loop()\<close>, run it, leave it (the loop is destroyed), and it
  has ended.
\<close>

datatype worker = NoThread | SetTid | CountingDown | Naming | MakeLoop | Publish | EnterLoop | Looping | LoopLeft | Ended

text \<open>
  \<open>started\<close>, \<open>joined\<close>, \<open>tid\<close>, \<open>name\<close> and \<open>tlatch\<close> are \<open>Thread\<close>'s members; \<open>detached\<close> records a
  \<open>pthread_detach\<close>; \<open>label\<close> is \<open>t_threadName\<close> of the new thread; \<open>loop_ptr\<close> says that \<open>loop_\<close> is set,
  \<open>loop_waiting\<close> that the caller sleeps on \<open>cond_\<close>, \<open>loop_alive\<close> that the loop object exists.
\<close>

record loop_thread =
  caller :: caller
  worker :: worker
  started :: bool
  joined :: bool
  tid :: int
  name :: string
  detached :: bool
  label :: string
  tlatch :: latch
  loop_ptr :: bool
  loop_waiting :: bool
  loop_alive :: bool
  loop_quit :: bool
  exiting :: bool

definition setDefaultName :: "loop_thread \<Rightarrow> loop_thread" where
  "setDefaultName s = (if name s = [] then s\<lparr>name := ''Thread''\<rparr> else s)"

definition Thread_ctor :: "string \<Rightarrow> loop_thread" where
  "Thread_ctor nm = setDefaultName \<lparr>caller = InStart, worker = NoThread, started = False, joined = False, tid = 0,
     name = nm, detached = False, label = ''default'', tlatch = new_latch 1, loop_ptr = False, loop_waiting = False,
     loop_alive = False, loop_quit = False, exiting = False\<rparr>"

definition EventLoopThread_ctor :: loop_thread where
  "EventLoopThread_ctor = (Thread_ctor ''EventLoopThread'')\<lparr>loop_ptr := False, exiting := False\<rparr>"

section \<open>The caller's operations\<close>

definition fail :: "fault \<Rightarrow> loop_thread \<Rightarrow> loop_thread" where
  "fail e s = s\<lparr>caller := Failed e\<rparr>"

text \<open>\<open>Thread::start\<close> up to the wait, with the result \<open>r\<close> of \<open>pthread_create\<close>; a failure is not reported.\<close>

definition Thread_start :: "int \<Rightarrow> loop_thread \<Rightarrow> loop_thread" where
  "Thread_start r s =
     (if started s then fail (AssertFailed ''!started'') s
      else let s1 = s\<lparr>started := True\<rparr> in
           if r \<noteq> 0 then s1\<lparr>started := False, caller := AtLoop\<rparr>
           else s1\<lparr>worker := SetTid, caller := AtLatch\<rparr>)"

definition start_wait :: "loop_thread \<Rightarrow> loop_thread" where
  "start_wait s = (let (returns, l) = latch_wait 0 (tlatch s)
     in s\<lparr>tlatch := l, caller := (if returns then CheckTid else BlockedOnLatch)\<rparr>)"

definition start_check :: "loop_thread \<Rightarrow> loop_thread" where
  "start_check s = (if 0 < tid s then s\<lparr>caller := AtLoop\<rparr> else fail (AssertFailed ''tid > 0'') s)"

text \<open>One test of the loop in \<open>startLoop\<close>.\<close>

definition startLoop_wait :: "loop_thread \<Rightarrow> loop_thread" where
  "startLoop_wait s =
     (if loop_ptr s then s\<lparr>caller := GotLoop\<rparr> else s\<lparr>loop_waiting := True, caller := BlockedOnLoop\<rparr>)"

text \<open>\<open>Thread::join\<close> up to \<open>pthread_join\<close>, in which the caller then waits, and the destructor.\<close>

definition Thread_join :: "loop_thread \<Rightarrow> loop_thread" where
  "Thread_join s =
     (if \<not> started s then fail (AssertFailed ''started'') s
      else if joined s then fail (AssertFailed ''!joined'') s
      else s\<lparr>joined := True, caller := InJoin\<rparr>)"

definition Thread_dtor :: "loop_thread \<Rightarrow> loop_thread" where
  "Thread_dtor s = (if started s \<and> \<not> joined s then s\<lparr>detached := True\<rparr> else s)"

definition EventLoopThread_dtor :: "loop_thread \<Rightarrow> loop_thread" where
  "EventLoopThread_dtor s =
     (let s1 = s\<lparr>exiting := True\<rparr> in
      if \<not> loop_ptr s1 then fail (Undefined ''call through a null pointer'') s1
      else if \<not> loop_alive s1 then fail (Undefined ''dangling loop'') s1
      else Thread_join (s1\<lparr>loop_quit := True\<rparr>))"

section \<open>The thread's operations\<close>

definition store_tid :: "int \<Rightarrow> loop_thread \<Rightarrow> loop_thread" where
  "store_tid n s = s\<lparr>tid := fst (current_tid n new_thread_cache), worker := CountingDown\<rparr>"

definition count_down :: "loop_thread \<Rightarrow> loop_thread" where
  "count_down s = s\<lparr>tlatch := countDown (tlatch s), worker := Naming\<rparr>"

definition set_name :: "loop_thread \<Rightarrow> loop_thread" where
  "set_name s = s\<lparr>label := (if name s = [] then ''Thread'' else name s), worker := MakeLoop\<rparr>"

definition publish_loop :: "loop_thread \<Rightarrow> loop_thread" where
  "publish_loop s = s\<lparr>loop_ptr := True, loop_waiting := False, worker := EnterLoop\<rparr>"

definition enter_loop :: "loop_thread \<Rightarrow> loop_thread" where
  "enter_loop s = s\<lparr>loop_quit := False, worker := Looping\<rparr>"

text \<open>The end of \<open>threadFunc\<close> destroys the loop; \<open>runInThread\<close> changes the name once more.\<close>

definition thread_ends :: "loop_thread \<Rightarrow> loop_thread" where
  "thread_ends s = s\<lparr>loop_alive := False, label := ''finished'', worker := Ended\<rparr>"

section \<open>Steps\<close>

text \<open>
  A kernel thread number is positive. Rounds of the loop that change nothing here are no steps. The
  destructor may be called before \<open>startLoop\<close> or after it.
\<close>

inductive lt_step :: "loop_thread \<Rightarrow> loop_thread \<Rightarrow> bool" where
  start: "caller s = InStart \<Longrightarrow> lt_step s (Thread_start r s)"
| latch: "caller s = AtLatch \<Longrightarrow> lt_step s (start_wait s)"
| latch_notified: "caller s = BlockedOnLatch \<Longrightarrow> 0 \<notin> l_waiters (tlatch s) \<Longrightarrow> lt_step s (s\<lparr>caller := AtLatch\<rparr>)"
| check: "caller s = CheckTid \<Longrightarrow> lt_step s (start_check s)"
| ptr: "caller s = AtLoop \<Longrightarrow> lt_step s (startLoop_wait s)"
| ptr_notified: "caller s = BlockedOnLoop \<Longrightarrow> \<not> loop_waiting s \<Longrightarrow> lt_step s (s\<lparr>caller := AtLoop\<rparr>)"
| dtor: "caller s = InStart \<or> caller s = GotLoop \<Longrightarrow> lt_step s (EventLoopThread_dtor s)"
| join: "caller s = InJoin \<Longrightarrow> worker s = Ended \<Longrightarrow> lt_step s (Thread_dtor (s\<lparr>caller := Destroyed\<rparr>))"
| set_tid: "worker s = SetTid \<Longrightarrow> 0 < n \<Longrightarrow> lt_step s (store_tid n s)"
| count: "worker s = CountingDown \<Longrightarrow> lt_step s (count_down s)"
| set_name: "worker s = Naming \<Longrightarrow> lt_step s (set_name s)"
| make: "worker s = MakeLoop \<Longrightarrow> lt_step s (s\<lparr>loop_alive := True, worker := Publish\<rparr>)"
| publish: "worker s = Publish \<Longrightarrow> lt_step s (publish_loop s)"
| enter: "worker s = EnterLoop \<Longrightarrow> lt_step s (enter_loop s)"
| leave: "worker s = Looping \<Longrightarrow> loop_quit s \<Longrightarrow> lt_step s (s\<lparr>worker := LoopLeft\<rparr>)"
| finish: "worker s = LoopLeft \<Longrightarrow> lt_step s (thread_ends s)"

text \<open>Wake-ups without a notification, and calls of \<open>quit\<close> by others (a functor, another thread).\<close>

inductive lt_spurious :: "loop_thread \<Rightarrow> loop_thread \<Rightarrow> bool" where
  "caller s = BlockedOnLatch \<Longrightarrow> lt_spurious s (s\<lparr>caller := AtLatch, tlatch := (tlatch s)\<lparr>l_waiters := l_waiters (tlatch s) - {0}\<rparr>\<rparr>)"
| "caller s = BlockedOnLoop \<Longrightarrow> lt_spurious s (s\<lparr>caller := AtLoop, loop_waiting := False\<rparr>)"

inductive lt_quit :: "loop_thread \<Rightarrow> loop_thread \<Rightarrow> bool" where
  "worker s = Looping \<Longrightarrow> \<not> loop_quit s \<Longrightarrow> lt_quit s (s\<lparr>loop_quit := True\<rparr>)"

definition lt_any :: "loop_thread \<Rightarrow> loop_thread \<Rightarrow> bool" where
  "lt_any s s' \<longleftrightarrow> lt_step s s' \<or> lt_spurious s s' \<or> lt_quit s s'"

inductive_cases lt_stepE: "lt_step s s'"
inductive_cases lt_spuriousE: "lt_spurious s s'"
inductive_cases lt_quitE: "lt_quit s s'"

lemmas lt_ops = fail_def Thread_start_def start_wait_def latch_wait_def start_check_def startLoop_wait_def
  EventLoopThread_dtor_def store_tid_def current_tid_def cacheTid_def new_thread_cache_def count_down_def countDown_def
  publish_loop_def enter_loop_def set_name_def thread_ends_def Thread_join_def Thread_dtor_def Let_def

lemmas lt_new = EventLoopThread_ctor_def Thread_ctor_def setDefaultName_def

section \<open>The invariant\<close>

fun worker_rank :: "worker \<Rightarrow> nat" where
  "worker_rank NoThread = 9"
| "worker_rank SetTid = 8"
| "worker_rank CountingDown = 7"
| "worker_rank Naming = 6"
| "worker_rank MakeLoop = 5"
| "worker_rank Publish = 4"
| "worker_rank EnterLoop = 3"
| "worker_rank Looping = 2"
| "worker_rank LoopLeft = 1"
| "worker_rank Ended = 0"

definition lt_ok :: "loop_thread \<Rightarrow> bool" where
  "lt_ok s \<longleftrightarrow> (started s \<longleftrightarrow> worker s \<noteq> NoThread) \<and> (caller s = InStart \<longrightarrow> \<not> started s)
     \<and> (0 < tid s \<longleftrightarrow> worker_rank (worker s) \<le> 7)
     \<and> l_count (tlatch s) = (if worker_rank (worker s) \<le> 6 then 0 else 1)
     \<and> (caller s \<in> {AtLatch, BlockedOnLatch, CheckTid, GotLoop, InJoin, Destroyed} \<longrightarrow> started s)
     \<and> (caller s = BlockedOnLatch \<longrightarrow> 0 \<in> l_waiters (tlatch s) \<or> l_count (tlatch s) = 0)
     \<and> (caller s = CheckTid \<longrightarrow> l_count (tlatch s) = 0)
     \<and> (loop_ptr s \<longleftrightarrow> worker_rank (worker s) \<le> 3)
     \<and> (caller s = BlockedOnLoop \<longrightarrow> loop_waiting s \<or> loop_ptr s)
     \<and> (caller s \<in> {GotLoop, InJoin} \<longrightarrow> loop_ptr s)
     \<and> (joined s \<longleftrightarrow> caller s \<in> {InJoin, Destroyed}) \<and> \<not> detached s
     \<and> (loop_alive s \<longleftrightarrow> 1 \<le> worker_rank (worker s) \<and> worker_rank (worker s) \<le> 4)
     \<and> (l_count (tlatch s) = 0 \<longrightarrow> 0 \<notin> l_waiters (tlatch s)) \<and> (loop_waiting s \<longrightarrow> \<not> loop_ptr s)
     \<and> (\<forall>e. caller s \<noteq> Failed (AssertFailed e))"

lemma lt_ok_ctor: "lt_ok EventLoopThread_ctor"
  by (simp add: lt_ok_def lt_new new_latch_def)

lemma lt_ok_step: "lt_step s s' \<Longrightarrow> lt_ok s \<Longrightarrow> lt_ok s'"
proof (induction rule: lt_step.induct)
  case (dtor s)
  then show ?case by (elim disjE) (simp_all add: lt_ok_def lt_ops, blast+)
next
  case (latch s)
  then show ?case by (simp add: lt_ok_def lt_ops) blast
next
  case (count s)
  then show ?case by (simp add: lt_ok_def lt_ops) blast
next
  case (publish s)
  then show ?case by (simp add: lt_ok_def lt_ops) blast
next
  case (join s)
  then show ?case by (simp add: lt_ok_def lt_ops) blast
next
  case (ptr_notified s)
  then show ?case by (simp add: lt_ok_def lt_ops)
next
  case (set_tid s n)
  then show ?case by (simp add: lt_ok_def lt_ops) (elim conjE, auto)
next
  case (latch_notified s)
  then show ?case by (simp add: lt_ok_def lt_ops) blast
next
  case (check s)
  then show ?case by (cases "worker s") (auto simp: lt_ok_def lt_ops)
next
  case (ptr s)
  then show ?case by (cases "worker s") (simp_all add: lt_ok_def lt_ops, blast+)
next
  case (make s)
  then show ?case by (simp add: lt_ok_def lt_ops) blast
next
  case (set_name s)
  then show ?case by (simp add: lt_ok_def lt_ops) blast
next
  case (enter s)
  then show ?case by (simp add: lt_ok_def lt_ops) blast
next
  case (leave s)
  then show ?case by (simp add: lt_ok_def lt_ops) blast
next
  case (finish s)
  then show ?case by (simp add: lt_ok_def lt_ops) blast
next
  case (start s r)
  then have "\<not> started s" "worker s = NoThread" unfolding lt_ok_def by blast+
  with start show ?case by (simp add: lt_ok_def lt_ops)
qed

lemma lt_ok_any: "lt_any s s' \<Longrightarrow> lt_ok s \<Longrightarrow> lt_ok s'"
  unfolding lt_any_def
proof (elim disjE)
  show "lt_step s s' \<Longrightarrow> lt_ok s \<Longrightarrow> lt_ok s'" by (rule lt_ok_step)
  show "lt_spurious s s' \<Longrightarrow> lt_ok s \<Longrightarrow> lt_ok s'" by (erule lt_spuriousE) (simp_all add: lt_ok_def, blast+)
  show "lt_quit s s' \<Longrightarrow> lt_ok s \<Longrightarrow> lt_ok s'" by (erule lt_quitE) (simp add: lt_ok_def, blast)
qed

lemma lt_ok_reachable: "lt_any\<^sup>*\<^sup>* EventLoopThread_ctor s \<Longrightarrow> lt_ok s"
proof (induction rule: rtranclp_induct)
  case (step s s')
  then show ?case using lt_ok_any by blast
qed (rule lt_ok_ctor)

text \<open>The steps still to come, at most: those of the thread first, then those of the caller.\<close>

definition caller_rank :: "loop_thread \<Rightarrow> nat" where
  "caller_rank s = (case caller s of InStart \<Rightarrow> 11 | AtLatch \<Rightarrow> (if l_count (tlatch s) \<le> 0 then 8 else 10)
     | BlockedOnLatch \<Rightarrow> 9 | CheckTid \<Rightarrow> 7 | AtLoop \<Rightarrow> (if loop_ptr s then 4 else 6) | BlockedOnLoop \<Rightarrow> 5
     | GotLoop \<Rightarrow> 3 | InJoin \<Rightarrow> 2 | Destroyed \<Rightarrow> 1 | Failed e \<Rightarrow> 1)"

definition lt_rank :: "loop_thread \<Rightarrow> nat" where
  "lt_rank s = 20 * worker_rank (worker s) + caller_rank s + (if loop_quit s then 0 else 1)"

lemma lt_rank_step: "lt_step s s' \<Longrightarrow> lt_ok s \<Longrightarrow> lt_rank s' < lt_rank s"
proof (induction rule: lt_step.induct)
  case (start s r)
  then show ?case by (simp add: lt_ok_def lt_ops lt_rank_def caller_rank_def)
next
  case (dtor s)
  then show ?case by (elim disjE) (simp_all add: lt_ok_def lt_ops lt_rank_def caller_rank_def)
next
  case (set_tid s n)
  then show ?case by (simp add: lt_ops lt_rank_def caller_rank_def)
next
  case (count s)
  then show ?case by (simp add: lt_ok_def lt_ops lt_rank_def caller_rank_def split: caller.split)
next
  case (publish s)
  then show ?case by (simp add: lt_ops lt_rank_def caller_rank_def split: caller.split)
next
  case (ptr_notified s)
  then have "loop_ptr s" unfolding lt_ok_def by blast
  with ptr_notified show ?case by (simp add: lt_rank_def caller_rank_def)
next
  case (latch_notified s)
  then have "l_count (tlatch s) = 0" unfolding lt_ok_def by blast
  with latch_notified show ?case by (simp add: lt_rank_def caller_rank_def)
qed (simp_all add: lt_ok_def lt_ops lt_rank_def caller_rank_def)

section \<open>Starting and destroying\<close>

text \<open>Until it has ended or waits for a quit, the thread can go on; so can the caller, or it waits for the thread.\<close>

lemma worker_step: "worker s \<notin> {NoThread, Looping, Ended} \<Longrightarrow> \<exists>s'. lt_step s s'"
  using set_tid [of s 1] count [of s] set_name [of s] make [of s] publish [of s] enter [of s] finish [of s]
  by (cases "worker s") auto

lemma caller_step:
  assumes ok: "lt_ok s" and c: "caller s \<in> {InStart, AtLatch, BlockedOnLatch, CheckTid, AtLoop, BlockedOnLoop}"
    and w: "worker s \<noteq> NoThread \<or> caller s \<in> {InStart, AtLatch, CheckTid}"
  shows "\<exists>s'. lt_step s s'"
proof -
  consider "caller s \<in> {InStart, AtLatch, CheckTid, AtLoop}" | "caller s = BlockedOnLatch" | "caller s = BlockedOnLoop"
    using c by auto
  then show ?thesis
  proof cases
    case 1
    then show ?thesis by (auto intro: lt_step.intros start [where r = 0])
  next
    case 2
    show ?thesis
    proof (cases "0 \<in> l_waiters (tlatch s)")
      case True
      with ok have "l_count (tlatch s) \<noteq> 0" unfolding lt_ok_def by blast
      with ok have "\<not> worker_rank (worker s) \<le> 6" unfolding lt_ok_def by presburger
      moreover have "worker s \<noteq> NoThread" using w 2 by simp
      ultimately show ?thesis by (intro worker_step) auto
    qed (use 2 in \<open>auto intro: latch_notified\<close>)
  next
    case 3
    show ?thesis
    proof (cases "loop_waiting s")
      case True
      with ok have "\<not> worker_rank (worker s) \<le> 3" unfolding lt_ok_def by blast
      moreover have "worker s \<noteq> NoThread" using w 3 by simp
      ultimately show ?thesis by (intro worker_step) auto
    qed (use 3 in \<open>auto intro: ptr_notified\<close>)
  qed
qed

lemma steps_bounded: "(lt_step ^^ n) s s' \<Longrightarrow> lt_ok s \<Longrightarrow> n + lt_rank s' \<le> lt_rank s"
proof (induction n arbitrary: s')
  case (Suc n)
  from Suc.prems(1) obtain t where t: "(lt_step ^^ n) s t" "lt_step t s'" by auto
  have "lt_ok t" using t(1) Suc.prems(2) by (induction n arbitrary: t) (auto intro: lt_ok_step)
  with lt_rank_step [OF t(2)] Suc.IH [OF t(1) Suc.prems(2)] show ?case by simp
qed simp

text \<open>A thread that cannot be created is not reported: \<open>Thread::start\<close> returns all the same, and
  \<open>startLoop\<close> then waits for ever for a loop that nobody will make.\<close>

lemma never_started:
  assumes "lt_any\<^sup>*\<^sup>* s s'" "lt_ok s" "\<not> started s" "caller s \<in> {AtLoop, BlockedOnLoop}"
  shows "caller s' \<in> {AtLoop, BlockedOnLoop} \<and> \<not> started s'"
proof -
  from assms(2,3) have w: "worker s = NoThread" "\<not> loop_ptr s" by (auto simp: lt_ok_def)
  from assms(1) have "caller s' \<in> {AtLoop, BlockedOnLoop} \<and> \<not> started s' \<and> worker s' = NoThread \<and> \<not> loop_ptr s'"
  proof (induction rule: rtranclp_induct)
    case base
    show ?case using assms(3,4) w by simp
  next
    case (step x y)
    then show ?case by (auto simp: lt_any_def startLoop_wait_def elim!: lt_stepE lt_spuriousE lt_quitE)
  qed
  then show ?thesis by simp
qed

lemma create_failure_hangs:
  assumes r: "r \<noteq> 0" and s: "lt_any\<^sup>*\<^sup>* (Thread_start r EventLoopThread_ctor) s"
  shows "caller s \<in> {AtLoop, BlockedOnLoop} \<and> \<not> started s"
proof (rule never_started [OF s])
  have "lt_step EventLoopThread_ctor (Thread_start r EventLoopThread_ctor)" by (rule start) (simp add: lt_new)
  then show "lt_ok (Thread_start r EventLoopThread_ctor)" using lt_ok_step lt_ok_ctor by blast
qed (use r in \<open>simp_all add: Thread_start_def lt_new Let_def\<close>)

text \<open>C18. \<open>startLoop\<close> returns if, and only if, the thread can be created. From every reachable state no more than
  192 steps other than spurious wake-ups and foreign quits are possible. Before \<open>startLoop\<close> has returned one is,
  if \<open>pthread_create\<close> has not been called yet or has succeeded. If it fails, which the result \<open>r\<close> other than 0
  says, \<open>Thread::start\<close> returns as if nothing had happened, and from then on \<open>startLoop\<close> stays in its wait for a
  loop that nobody makes, whatever is done.\<close>

theorem startLoop_terminates:
  assumes "lt_any\<^sup>*\<^sup>* EventLoopThread_ctor s"
  shows "((lt_step ^^ n) s s' \<longrightarrow> n \<le> 192)
    \<and> (caller s \<in> {InStart, AtLatch, BlockedOnLatch, CheckTid, AtLoop, BlockedOnLoop} \<and> (caller s = InStart \<or> started s)
        \<longrightarrow> (\<exists>s'. lt_step s s'))
    \<and> (r \<noteq> 0 \<and> caller s = InStart
        \<longrightarrow> caller (Thread_start r s) = AtLoop \<and> \<not> started (Thread_start r s)
          \<and> (\<forall>s'. lt_any\<^sup>*\<^sup>* (Thread_start r s) s' \<longrightarrow> caller s' \<in> {AtLoop, BlockedOnLoop}))
    \<and> (\<not> started s \<and> lt_any\<^sup>*\<^sup>* s s' \<and> caller s \<in> {AtLatch, BlockedOnLatch, CheckTid, AtLoop, BlockedOnLoop}
        \<longrightarrow> caller s' \<in> {AtLoop, BlockedOnLoop})"
proof -
  have ok: "lt_ok s" by (rule lt_ok_reachable [OF assms])
  have "worker_rank (worker s) \<le> 9" by (cases "worker s") simp_all
  moreover have "caller_rank s \<le> 11" by (simp add: caller_rank_def split: caller.split)
  ultimately have "lt_rank s \<le> 192" by (simp add: lt_rank_def)
  then have bound: "(lt_step ^^ n) s s' \<Longrightarrow> n \<le> 192" using steps_bounded [OF _ ok, of n s'] by simp
  have run: "\<exists>s'. lt_step s s'"
    if "caller s \<in> {InStart, AtLatch, BlockedOnLatch, CheckTid, AtLoop, BlockedOnLoop}" "caller s = InStart \<or> started s"
  proof -
    have "started s \<longleftrightarrow> worker s \<noteq> NoThread" using ok unfolding lt_ok_def by blast
    with caller_step [OF ok that(1)] that(2) show ?thesis by auto
  qed
  have failed: "caller (Thread_start r s) = AtLoop \<and> \<not> started (Thread_start r s)
      \<and> (\<forall>s'. lt_any\<^sup>*\<^sup>* (Thread_start r s) s' \<longrightarrow> caller s' \<in> {AtLoop, BlockedOnLoop})"
    if r: "r \<noteq> 0" "caller s = InStart"
  proof -
    have "\<not> started s" using ok r(2) unfolding lt_ok_def by blast
    with r have e: "caller (Thread_start r s) = AtLoop" "\<not> started (Thread_start r s)"
      by (simp_all add: Thread_start_def Let_def)
    have "lt_ok (Thread_start r s)" by (rule lt_ok_step [OF start [where s = s and r = r, OF r(2)] ok])
    from never_started [OF _ this] e show ?thesis by simp
  qed
  have "caller s \<in> {AtLatch, BlockedOnLatch, CheckTid} \<Longrightarrow> started s" using ok unfolding lt_ok_def by blast
  then have "caller s' \<in> {AtLoop, BlockedOnLoop}" if "\<not> started s" "lt_any\<^sup>*\<^sup>* s s'"
    "caller s \<in> {AtLatch, BlockedOnLatch, CheckTid, AtLoop, BlockedOnLoop}"
    using never_started [OF that(2) ok that(1)] that by blast
  with bound run failed show ?thesis by blast
qed

text \<open>A run up to the point where \<open>startLoop\<close> has returned and the thread has not yet entered \<open>loop()\<close>.\<close>

definition got_loop :: loop_thread where
  "got_loop = \<lparr>caller = GotLoop, worker = EnterLoop, started = True, joined = False, tid = 1,
     name = ''EventLoopThread'', detached = False, label = ''EventLoopThread'', tlatch = new_latch 0, loop_ptr = True, loop_waiting = False, loop_alive = True, loop_quit = False, exiting = False\<rparr>"

lemma got_loop_reachable: "lt_any\<^sup>*\<^sup>* EventLoopThread_ctor got_loop"
proof -
  let ?s1 = "Thread_start 0 EventLoopThread_ctor"
  let ?s2 = "set_name (count_down (store_tid 1 ?s1))"
  let ?s3 = "publish_loop (?s2\<lparr>loop_alive := True, worker := Publish\<rparr>)"
  have s1: "?s1 = EventLoopThread_ctor\<lparr>started := True, worker := SetTid, caller := AtLatch\<rparr>"
    by (simp add: Thread_start_def lt_new)
  have s3: "?s3 = got_loop\<lparr>caller := AtLatch\<rparr>"
    by (simp add: s1 lt_ops lt_new new_latch_def got_loop_def)
  have e: "startLoop_wait (start_check (start_wait ?s3)) = got_loop"
    unfolding s3 by (simp add: lt_ops got_loop_def new_latch_def)
  have "lt_step EventLoopThread_ctor ?s1" by (rule start) (simp add: lt_new)
  moreover have "lt_step ?s1 (store_tid 1 ?s1)" by (rule set_tid) (simp_all add: s1)
  moreover have "lt_step (store_tid 1 ?s1) (count_down (store_tid 1 ?s1))" by (rule count) (simp add: store_tid_def)
  moreover have "lt_step (count_down (store_tid 1 ?s1)) ?s2" by (rule set_name) (simp add: count_down_def)
  moreover have "lt_step ?s2 (?s2\<lparr>loop_alive := True, worker := Publish\<rparr>)" by (rule make) (simp add: set_name_def)
  moreover have "lt_step (?s2\<lparr>loop_alive := True, worker := Publish\<rparr>) ?s3" by (rule publish) simp
  moreover have "lt_step ?s3 (start_wait ?s3)" by (rule latch) (simp add: s3)
  moreover have "lt_step (start_wait ?s3) (start_check (start_wait ?s3))"
    by (rule check) (simp add: s3 start_wait_def latch_wait_def got_loop_def new_latch_def)
  moreover have "lt_step (start_check (start_wait ?s3)) got_loop"
    unfolding e [symmetric] by (rule ptr) (simp add: s3 start_check_def start_wait_def latch_wait_def got_loop_def new_latch_def)
  ultimately have "lt_step\<^sup>*\<^sup>* EventLoopThread_ctor got_loop"
    by - (rule rtranclp.rtrancl_refl | assumption | rule converse_rtranclp_into_rtranclp)+
  then show ?thesis by (rule rtranclp_mono [THEN predicate2D, rotated]) (auto simp: lt_any_def)
qed

lemma startLoop_terminates_witness: "\<not> (lt_step ^^ 200) got_loop got_loop"
  using startLoop_terminates [OF got_loop_reachable, of 200 got_loop] by auto

text \<open>The name the thread has, from the construction of its loop to its end.\<close>

definition lt_named :: "loop_thread \<Rightarrow> bool" where
  "lt_named s \<longleftrightarrow> name s = ''EventLoopThread''
     \<and> (worker_rank (worker s) \<le> 5 \<longrightarrow> label s = (if worker s = Ended then ''finished'' else ''EventLoopThread''))"

lemma lt_named_step: "lt_step s s' \<Longrightarrow> lt_named s \<Longrightarrow> lt_named s'"
  by (induction rule: lt_step.induct) (simp_all add: lt_named_def lt_ops)

lemma lt_named_reachable: "lt_any\<^sup>*\<^sup>* EventLoopThread_ctor s \<Longrightarrow> lt_named s"
proof (induction rule: rtranclp_induct)
  case base
  show ?case by (simp add: lt_named_def lt_new)
next
  case (step s s')
  then show ?case
    by (auto simp: lt_any_def lt_named_def elim: lt_spuriousE lt_quitE dest: lt_named_step)
qed

text \<open>C19. What \<open>startLoop\<close> relies on and returns: no assertion of the two threads ever fails, the thread is
  never detached, and when \<open>startLoop\<close> has returned, the thread has been started, its number is known, it
  goes by its name until it has ended, and the loop's address is published.\<close>

theorem startLoop_result:
  assumes "lt_any\<^sup>*\<^sup>* EventLoopThread_ctor s"
  shows "caller s \<noteq> Failed (AssertFailed e) \<and> \<not> detached s
    \<and> (caller s = GotLoop \<longrightarrow> started s \<and> 0 < tid s \<and> loop_ptr s
        \<and> label s = (if worker s = Ended then ''finished'' else ''EventLoopThread''))"
proof -
  note ok = lt_ok_reachable [OF assms] and named = lt_named_reachable [OF assms]
  have *: "worker_rank (worker s) \<le> 3 \<Longrightarrow> worker_rank (worker s) \<le> 7 \<and> worker_rank (worker s) \<le> 5" by simp
  from ok have "caller s \<noteq> Failed (AssertFailed e)" "\<not> detached s" unfolding lt_ok_def by blast+
  moreover have "started s \<and> 0 < tid s \<and> loop_ptr s" if "caller s = GotLoop"
    using ok that * unfolding lt_ok_def by blast
  moreover have "label s = (if worker s = Ended then ''finished'' else ''EventLoopThread'')" if "loop_ptr s"
    using ok named that * unfolding lt_ok_def lt_named_def by blast
  ultimately show ?thesis by blast
qed

lemma startLoop_result_witness:
  "started got_loop \<and> 0 < tid got_loop \<and> loop_ptr got_loop \<and> label got_loop = ''EventLoopThread''"
  using startLoop_result [OF got_loop_reachable, of "''started''"] by (simp add: got_loop_def)

text \<open>C40. The destructor can wait for ever: if it calls \<open>quit\<close> between the publication of the loop and the
  first statements of \<open>loop()\<close>, these clear the request; unless somebody else quits the loop, \<open>join\<close> never
  returns.\<close>

theorem destructor_can_hang:
  "\<exists>s. lt_any\<^sup>*\<^sup>* EventLoopThread_ctor s \<and> exiting s \<and> caller s = InJoin
    \<and> (\<forall>s'. (\<lambda>x y. lt_step x y \<or> lt_spurious x y)\<^sup>*\<^sup>* s s' \<longrightarrow> caller s' = InJoin)"
proof -
  let ?d = "EventLoopThread_dtor got_loop" and ?e = "enter_loop (EventLoopThread_dtor got_loop)"
  have "lt_any got_loop ?d" unfolding lt_any_def by (rule disjI1, rule dtor) (simp add: got_loop_def)
  moreover have "lt_any ?d ?e" unfolding lt_any_def by (rule disjI1, rule enter) (simp add: got_loop_def lt_ops)
  ultimately have reach: "lt_any\<^sup>*\<^sup>* EventLoopThread_ctor ?e"
    using got_loop_reachable by (meson rtranclp.rtrancl_into_rtrancl)
  have e: "caller ?e = InJoin" "worker ?e = Looping" "\<not> loop_quit ?e" "exiting ?e"
    by (simp_all add: got_loop_def lt_ops)
  have "caller s' = InJoin \<and> worker s' = Looping \<and> \<not> loop_quit s'"
    if "(\<lambda>x y. lt_step x y \<or> lt_spurious x y)\<^sup>*\<^sup>* ?e s'" for s'
    using that
  proof (induction rule: rtranclp_induct)
    case (step x y)
    then show ?case by (auto elim: lt_stepE lt_spuriousE)
  qed (use e in simp)
  with reach e show ?thesis by blast
qed

lemma destructor_can_hang_witness:
  "\<exists>s. lt_any\<^sup>*\<^sup>* EventLoopThread_ctor s \<and> caller s = InJoin \<and> (\<forall>s'. lt_step s s' \<longrightarrow> caller s' = InJoin)"
proof -
  obtain s where s: "lt_any\<^sup>*\<^sup>* EventLoopThread_ctor s" "caller s = InJoin"
    and stays: "\<forall>s'. (\<lambda>x y. lt_step x y \<or> lt_spurious x y)\<^sup>*\<^sup>* s s' \<longrightarrow> caller s' = InJoin"
    using destructor_can_hang by blast
  have "caller s' = InJoin" if "lt_step s s'" for s'
    by (rule stays [rule_format], rule r_into_rtranclp) (simp add: that)
  with s show ?thesis by blast
qed

end
